(* ===== verification/Prelude.thy ===== *)
theory Prelude
  imports Main "HOL-Library.Word"
begin

text \<open>
  What the components share: the machine integers of the source (\<open>uint8_t\<close>, \<open>uint32_t\<close>,
  \<open>uint64_t\<close>; \<open>size_t\<close> is 64 bits wide on every platform the program is built for), the
  exceptions it throws and the sum type its fallible functions return, and the generic
  facts on words and lists that the proofs of the components rest on. The collection
  \<open>nat_of_word\<close> reads word arithmetic as arithmetic on natural numbers.
\<close>

unbundle bit_operations_syntax

named_theorems nat_of_word

type_synonym u8 = "8 word"
type_synonym u16 = "16 word"
type_synonym u32 = "32 word"
type_synonym u64 = "64 word"

subsection \<open>Exceptions\<close>

text \<open>
  The exception classes of \<open>ProgException.h\<close> and \<open>workers/WorkerException.h\<close>. The
  argument is the constant leading part of the message at the throwing place.
  \<open>InvalidArgument\<close> and \<open>OutOfRange\<close> are the standard library's exceptions; \<open>Fault\<close> is a trap
  of the machine, such as an integer division by zero.
\<close>

datatype exn =
    ProgException string
  | WorkerException string
  | WorkerInterruptedException string
  | InvalidArgument string
  | OutOfRange string
  | Fault string

type_synonym 'a result = "exn + 'a"

definition bindE :: "'a result \<Rightarrow> ('a \<Rightarrow> 'b result) \<Rightarrow> 'b result" where
  "bindE m f = (case m of Inl e \<Rightarrow> Inl e | Inr x \<Rightarrow> f x)"

text \<open>Operations that may also not return: \<open>None\<close> stands for no return.\<close>

definition bindOE :: "'a result option \<Rightarrow> ('a \<Rightarrow> 'b result option) \<Rightarrow> 'b result option" where
  "bindOE m f = (case m of None \<Rightarrow> None | Some (Inl e) \<Rightarrow> Some (Inl e) | Some (Inr x) \<Rightarrow> f x)"

lemma bindOE_simps [simp]:
  "bindOE None f = None" "bindOE (Some (Inl e)) f = Some (Inl e)" "bindOE (Some (Inr x)) f = f x"
  by (simp_all add: bindOE_def)

lemma bindOE_eq_Inr [simp]:
  "bindOE m f = Some (Inr y) \<longleftrightarrow> (\<exists>x. m = Some (Inr x) \<and> f x = Some (Inr y))"
  by (cases m; cases "the m") (simp_all add: bindOE_def)

lemma bindE_simps [simp]: "bindE (Inl e) f = Inl e" "bindE (Inr x) f = f x"
  by (simp_all add: bindE_def)

lemma bindE_eq_Inr [simp]: "bindE m f = Inr y \<longleftrightarrow> (\<exists>x. m = Inr x \<and> f x = Inr y)"
  by (cases m) simp_all

lemma bindE_eq_Inl: "bindE m f = Inl e \<longleftrightarrow> m = Inl e \<or> (\<exists>x. m = Inr x \<and> f x = Inl e)"
  by (cases m) simp_all

subsection \<open>Words as natural numbers\<close>

abbreviation W64 :: nat where
  "W64 \<equiv> 2 ^ 64"

lemma unat_less_W64 [simp]: "unat (x :: u64) < W64"
  using unsigned_less [of x] by simp

lemma unat_add_no [nat_of_word]:
  "unat a + unat b < W64 \<Longrightarrow> unat ((a :: u64) + b) = unat a + unat b"
  using unat_add_lem [of a b] by simp

lemma unat_plus_1 [nat_of_word]: "(x :: u64) + 1 \<noteq> 0 \<Longrightarrow> unat (x + 1) = unat x + 1"
  using unatSuc [of x] by (simp add: add.commute)

lemma unat_minus_1_u64 [simp]: "unat (- 1 :: u64) = W64 - 1"
  by (simp add: unsigned_minus_1_eq_mask mask_eq_exp_minus_1)

lemma unat_sub_no [nat_of_word]:
  "b \<le> a \<Longrightarrow> unat ((a :: u64) - b) = unat a - unat b"
  by (rule unat_sub)

lemma unat_mult_no [nat_of_word]:
  "unat a * unat b < W64 \<Longrightarrow> unat ((a :: u64) * b) = unat a * unat b"
  using unat_mult_lem [of a b] by simp

lemma unat_of_nat_no [nat_of_word]:
  "n < W64 \<Longrightarrow> unat (of_nat n :: u64) = n"
  by (simp add: unat_of_nat)

lemma unat_two_power [nat_of_word]: "k < 64 \<Longrightarrow> unat (2 ^ k :: u64) = 2 ^ k"
proof -
  assume "k < 64"
  then have "(2::nat) ^ k < 2 ^ 64" by (rule power_strict_increasing) simp
  then show ?thesis using unat_of_nat_no [of "2 ^ k"] by simp
qed

lemmas word_nat_order [nat_of_word] = word_le_nat_alt word_less_nat_alt

declare unat_div [nat_of_word] unat_mod [nat_of_word]

lemma unat_min [nat_of_word]: "unat (min a (b :: u64)) = min (unat a) (unat b)"
  by (simp add: min_def word_le_nat_alt)

lemma unat_max [nat_of_word]: "unat (max a (b :: u64)) = max (unat a) (unat b)"
  by (simp add: max_def word_le_nat_alt)

lemma unat_eq_iff_u64: "a = (b :: u64) \<longleftrightarrow> unat a = unat b"
  by (rule word_unat_eq_iff)

lemma word_ne_0_pos: "(b :: u64) \<noteq> 0 \<longleftrightarrow> 0 < unat b"
  by (simp add: unat_gt_0)

subsection \<open>Closed ranges of machine integers\<close>

lemma unat_range_size:
  assumes "lo \<le> hi" "hi - lo + 1 \<noteq> (0 :: u64)"
  shows "unat (hi - lo + 1) = unat hi - unat lo + 1"
  using assms by (simp add: unat_plus_1 unat_sub_no)

lemma range_wraps_iff:
  assumes "lo \<le> (hi :: u64)"
  shows "hi - lo + 1 = 0 \<longleftrightarrow> lo = 0 \<and> hi = - 1"
proof
  assume "hi - lo + 1 = 0"
  then have "hi - lo = - 1" by (simp add: eq_neg_iff_add_eq_0)
  then have "unat hi - unat lo = unat (- 1 :: u64)"
    using unat_sub_no [OF assms] by simp
  then have "unat hi - unat lo = W64 - 1" by simp
  then have "unat lo = 0" "unat hi = W64 - 1"
    using unat_less_W64 [of hi] by simp_all
  then show "lo = 0 \<and> hi = - 1"
    by (metis \<open>hi - lo = - 1\<close> diff_zero unat_eq_zero)
qed simp

lemma image_add_range:
  assumes "(lo :: u64) \<le> hi" "r = hi - lo + 1" "r \<noteq> 0"
  shows "(+) lo ` {v. v < r} = {lo..hi}"
proof (intro set_eqI iffI)
  have r: "unat r = unat hi - unat lo + 1"
    using assms by (simp add: unat_plus_1 unat_sub_no)
  fix y
  show "y \<in> {lo..hi}" if "y \<in> (+) lo ` {v. v < r}"
  proof -
    from that obtain v where v: "y = lo + v" "unat v \<le> unat hi - unat lo"
      using r by (auto simp: word_less_nat_alt)
    moreover have "unat lo + unat v < W64"
      using v(2) assms(1) unat_less_W64 [of hi] by (simp add: word_le_nat_alt)
    ultimately show ?thesis using assms(1) by (simp add: word_le_nat_alt unat_add_no)
  qed
  show "y \<in> (+) lo ` {v. v < r}" if "y \<in> {lo..hi}"
    using that r assms(1)
    by (intro image_eqI [of _ _ "y - lo"]) (auto simp: word_less_nat_alt word_le_nat_alt unat_sub_no)
qed

lemma range_member:
  assumes "lo \<le> hi" "hi - lo + 1 \<noteq> (0 :: u64)" "v < hi - lo + 1"
  shows "lo \<le> v + lo \<and> v + lo \<le> hi"
proof -
  have "unat (v + lo) = unat v + unat lo" "unat v + unat lo \<le> unat hi"
    using assms unat_range_size [OF assms(1,2)] unat_less_W64 [of hi]
    by (auto simp: nat_of_word)
  then show ?thesis by (simp add: nat_of_word)
qed

lemma unat_image_atLeastAtMost: "unat ` {lo..hi :: u64} = {unat lo..unat hi}"
proof
  show "{unat lo..unat hi} \<subseteq> unat ` {lo..hi}"
  proof
    fix n
    assume n: "n \<in> {unat lo..unat hi}"
    then have u: "unat (of_nat n :: u64) = n"
      using unat_less_W64 [of hi] by (intro unat_of_nat_no) simp
    then have "of_nat n \<in> {lo..hi}" using n by (simp add: word_le_nat_alt)
    then show "n \<in> unat ` {lo..hi}" using u by (metis imageI)
  qed
qed (auto simp: word_le_nat_alt)

subsection \<open>Widening\<close>

lemma unat_ucast_u32 [simp]: "unat (ucast (x :: u32) :: u64) = unat x"
proof -
  have "unat x < 2 ^ 32" using unsigned_less [where ?'a=nat, of x] by simp
  then have "unat x < 2 ^ 64" by (rule less_le_trans) simp
  then show ?thesis by (simp add: unsigned_ucast_eq take_bit_nat_eq_self)
qed

lemma unat_of_nat_u32 [simp]: "n < unat (x :: u32) \<Longrightarrow> unat (of_nat n :: u32) = n"
proof -
  assume "n < unat x"
  moreover have "unat x < 2 ^ 32" using unsigned_less [where ?'a=nat, of x] by simp
  ultimately show ?thesis by (simp add: unsigned_of_nat take_bit_nat_eq_self)
qed

subsection \<open>Step systems\<close>

text \<open>A concurrent component is a step relation on its states. A property of the initial states that every step keeps holds in every reachable state.\<close>

locale step_system =
  fixes step :: "'s \<Rightarrow> 's \<Rightarrow> bool" and start :: "'s \<Rightarrow> bool" and inv :: "'s \<Rightarrow> bool"
  assumes start_inv: "start s \<Longrightarrow> inv s"
    and step_inv: "step s t \<Longrightarrow> inv s \<Longrightarrow> inv t"
begin

lemma reachable_inv:
  assumes "start s" "step\<^sup>*\<^sup>* s t"
  shows "inv t"
  using assms(2) by (induction rule: rtranclp_induct) (use assms(1) start_inv step_inv in auto)

end

end
