(* ===== verification/Lcg.thy ===== *)
theory Lcg
  imports Prelude
begin

text \<open>
  The arithmetic behind the full-coverage offset generator: a linear congruential
  generator \<open>x \<mapsto> (a * x + c) mod 2 ^ k\<close> with \<open>a mod 4 = 1\<close> and an odd \<open>c\<close> visits every
  residue exactly once in \<open>2 ^ k\<close> steps, whatever value it starts from. The key fact is
  that the sum of the first \<open>n\<close> powers of \<open>a\<close> is divisible by exactly the powers of two
  that divide \<open>n\<close>.
\<close>

definition geo :: "int \<Rightarrow> nat \<Rightarrow> int" where
  "geo a n = (\<Sum>i<n. a ^ i)"

lemma geo_0 [simp]: "geo a 0 = 0"
  by (simp add: geo_def)

lemma geo_Suc: "geo a (Suc n) = geo a n + a ^ n"
  by (simp add: geo_def)

lemma geo_add: "geo a (m + n) = geo a m + a ^ m * geo a n"
  by (induction n) (simp_all add: geo_Suc algebra_simps power_add)

lemma geo_telescope: "(a - 1) * geo a n = a ^ n - 1"
  by (induction n) (simp_all add: geo_Suc algebra_simps)

lemma odd_geo_iff: "odd a \<Longrightarrow> odd (geo a n) \<longleftrightarrow> odd n"
  by (induction n) (auto simp: geo_Suc)

lemma mod_4_power: "(a :: int) mod 4 = 1 \<Longrightarrow> a ^ n mod 4 = 1"
  by (induction n) (simp_all add: mod_mult_eq [symmetric, of a "a ^ _" 4])

lemma mod_4_odd: "(a :: int) mod 4 = 1 \<Longrightarrow> odd a"
  by presburger

lemma one_plus_power_twice_odd:
  assumes "(a :: int) mod 4 = 1"
  obtains q where "1 + a ^ n = 2 * q" and "odd q"
proof -
  from mod_4_power [OF assms, of n] obtain r where "a ^ n = 4 * r + 1"
    by (metis mult_div_mod_eq)
  then have "1 + a ^ n = 2 * (2 * r + 1)" by simp
  then show thesis by (rule that) simp
qed

lemma two_power_dvd_odd_mult:
  "odd (q :: int) \<Longrightarrow> 2 ^ k dvd q * x \<longleftrightarrow> 2 ^ k dvd x"
  by (simp add: coprime_dvd_mult_right_iff)

lemma two_power_dvd_double: "2 ^ Suc k dvd 2 * (x :: int) \<longleftrightarrow> 2 ^ k dvd x"
  by simp

lemma two_power_dvd_geo:
  assumes "a mod 4 = 1"
  shows "2 ^ k dvd geo a n \<longleftrightarrow> 2 ^ k dvd int n"
proof (induction n arbitrary: k rule: less_induct)
  case (less n)
  show ?case
  proof (cases "n = 0 \<or> k = 0")
    case True
    then show ?thesis by auto
  next
    case False
    then obtain j where k: "k = Suc j" by (auto simp: gr0_conv_Suc)
    show ?thesis
    proof (cases "even n")
      case False
      then have "odd (geo a n)" by (simp add: odd_geo_iff mod_4_odd assms)
      then have "\<not> 2 ^ k dvd geo a n" "\<not> 2 ^ k dvd int n"
        using False k by (auto dest: dvd_mult_left)
      then show ?thesis by simp
    next
      case True
      then obtain p where n: "n = p + p" by (metis evenE mult_2)
      with False have "p < n" by auto
      obtain q where q: "1 + a ^ p = 2 * q" "odd q"
        using one_plus_power_twice_odd [OF assms] .
      have "geo a n = (1 + a ^ p) * geo a p"
        unfolding n geo_add by (simp add: algebra_simps)
      then have "geo a n = 2 * (q * geo a p)" by (simp add: q(1))
      then have "2 ^ k dvd geo a n \<longleftrightarrow> 2 ^ j dvd geo a p"
        using q(2) by (simp add: k two_power_dvd_odd_mult)
      also have "\<dots> \<longleftrightarrow> 2 ^ j dvd int p" by (rule less.IH [OF \<open>p < n\<close>])
      also have "\<dots> \<longleftrightarrow> 2 ^ k dvd int n" by (simp add: k n)
      finally show ?thesis .
    qed
  qed
qed

text \<open>The closed form of the iteration, over the integers and modulo \<open>2 ^ k\<close>.\<close>

definition lcg :: "int \<Rightarrow> int \<Rightarrow> nat \<Rightarrow> int \<Rightarrow> int" where
  "lcg a c k x = (a * x + c) mod 2 ^ k"

lemma lcg_range: "lcg a c k x \<in> {0..<2 ^ k}"
  by (simp add: lcg_def)

lemma lcg_pow_cong: "(lcg a c k ^^ n) x mod 2 ^ k = (a ^ n * x + c * geo a n) mod 2 ^ k"
proof (induction n)
  case 0
  then show ?case by simp
next
  case (Suc n)
  have "(lcg a c k ^^ Suc n) x mod 2 ^ k = (a * ((lcg a c k ^^ n) x mod 2 ^ k) + c) mod 2 ^ k"
    by (simp add: lcg_def) (metis mod_add_left_eq mod_mult_right_eq)
  also have "\<dots> = (a * (a ^ n * x + c * geo a n) + c) mod 2 ^ k"
    unfolding Suc by (metis mod_add_left_eq mod_mult_right_eq)
  also have "a * (a ^ n * x + c * geo a n) + c = a ^ Suc n * x + c * (a * geo a n + 1)"
    by (simp add: algebra_simps)
  also have "a * geo a n + 1 = geo a (Suc n)"
    using geo_add [of a 1 n] by (simp add: geo_def)
  finally show ?case .
qed

lemma lcg_difference:
  "(a ^ (i + d) * x + c * geo a (i + d)) - (a ^ i * x + c * geo a i)
    = a ^ i * (((a - 1) * x + c) * geo a d)"
proof -
  have "(a ^ (i + d) * x + c * geo a (i + d)) - (a ^ i * x + c * geo a i)
      = a ^ i * ((a ^ d - 1) * x + c * geo a d)"
    unfolding geo_add power_add by (simp add: algebra_simps)
  also have "a ^ d - 1 = (a - 1) * geo a d" by (simp only: geo_telescope)
  finally show ?thesis by (simp only: distrib_right mult.assoc mult.commute [of x])
qed

lemma lcg_collision:
  assumes a: "a mod 4 = 1" and c: "odd c"
    and eq: "(lcg a c k ^^ (i + d)) x mod 2 ^ k = (lcg a c k ^^ i) x mod 2 ^ k"
  shows "2 ^ k dvd d"
proof -
  have "2 ^ k dvd a ^ i * (((a - 1) * x + c) * geo a d)"
    using eq by (simp add: lcg_pow_cong mod_eq_dvd_iff lcg_difference)
  moreover have "odd (a ^ i)" "odd ((a - 1) * x + c)"
    using mod_4_odd [OF a] c by auto
  ultimately have "2 ^ k dvd geo a d"
    by (simp add: two_power_dvd_odd_mult)
  then have "2 ^ k dvd int d" using two_power_dvd_geo [OF a] by simp
  then show ?thesis by (metis int_dvd_int_iff of_nat_numeral of_nat_power)
qed

lemma lcg_pow_range: "0 < n \<Longrightarrow> (lcg a c k ^^ n) x \<in> {0..<2 ^ k}"
  by (cases n) (simp_all add: lcg_def)

theorem lcg_full_period:
  assumes a: "a mod 4 = 1" and c: "odd c"
  shows "inj_on (\<lambda>i. (lcg a c k ^^ Suc i) x) {..<2 ^ k}"
    and "(\<lambda>i. (lcg a c k ^^ Suc i) x) ` {..<2 ^ k} = {0..<2 ^ k}"
proof -
  let ?g = "\<lambda>i. (lcg a c k ^^ Suc i) x"
  have neq: "?g i \<noteq> ?g j" if "i < j" "j < 2 ^ k" for i j
  proof
    assume "?g i = ?g j"
    then have "(lcg a c k ^^ (Suc i + (j - i))) x mod 2 ^ k = (lcg a c k ^^ Suc i) x mod 2 ^ k"
      using that by simp
    from lcg_collision [OF a c this] have "2 ^ k dvd j - i" .
    with that show False by (auto dest: dvd_imp_le)
  qed
  show inj: "inj_on ?g {..<2 ^ k}"
    by (rule linorder_inj_onI') (use neq in auto)
  have sub: "?g ` {..<2 ^ k} \<subseteq> {0..<2 ^ k}"
    using lcg_pow_range by blast
  have "card (?g ` {..<2 ^ k}) = 2 ^ k"
    using card_image [OF inj] by simp
  then show "?g ` {..<2 ^ k} = {0..<2 ^ k}"
    by (intro card_subset_eq sub) (simp_all add: nat_power_eq)
qed

end
