(* ===== verification/FullCoverage.thy ===== *)
theory FullCoverage
  imports Lcg
begin

text \<open>
  \<open>CoveringRandomGenerator\<close> of \<open>toolkits/offsetgen/OffsetGenRandomAlignedFullCoverageV2.h\<close>:
  the generator of block numbers in random order behind the full-coverage offset
  generator. The values that \<open>std::random_device\<close> delivers are arguments of the
  operations that draw them. The do-while loop of \<open>next()\<close> is a partial function: that
  it always returns is a theorem, not a consequence of how it is defined.
\<close>

subsection \<open>Definitions\<close>

record covgen =
  min_value :: u64
  max_value :: u64
  range_size :: u64
  current_count :: u64
  m_lcg :: u64
  a_lcg :: u64
  c_lcg :: u64
  current_lcg_state :: u64

definition next_power_of_two :: "u64 \<Rightarrow> u64" where
  "next_power_of_two n0 =
     (if n0 = 0 then 1
      else
        let n = n0 - 1;
            n = n OR drop_bit 1 n;
            n = n OR drop_bit 2 n;
            n = n OR drop_bit 4 n;
            n = n OR drop_bit 8 n;
            n = n OR drop_bit 16 n;
            n = n OR drop_bit 32 n
        in n + 1)"

definition covgen_new :: "u64 \<Rightarrow> u64 \<Rightarrow> u32 \<Rightarrow> covgen result" where
  "covgen_new min_val max_val rd =
     (if max_val < min_val
      then Inl (WorkerException ''OffsetGenFullCov: Minimum value cannot be greater than maximum value.'')
      else
        let rangeSize = (max_val - min_val) + 1 in
        if rangeSize = 0
        then Inl (WorkerException ''OffsetGenFullCov: Range cannot be empty.'')
        else
          let m0 = next_power_of_two rangeSize in
          bindE
            (if m0 = 0 \<and> 0 < rangeSize
             then if push_bit 63 1 < rangeSize
                  then if rangeSize AND (rangeSize - 1) = 0
                       then Inr rangeSize
                       else Inl (WorkerException ''Range size too large for this LCG implementation'')
                  else Inr rangeSize
             else Inr m0)
            (\<lambda>m. Inr
              \<lparr>min_value = min_val, max_value = max_val, range_size = rangeSize,
               current_count = 0, m_lcg = m, a_lcg = 6364136223846793005,
               c_lcg = 1442695040888963407, current_lcg_state = ucast rd mod m\<rparr>))"

definition covgen_has_next :: "covgen \<Rightarrow> bool" where
  "covgen_has_next g = (current_count g < range_size g)"

definition covgen_reset :: "u32 \<Rightarrow> covgen \<Rightarrow> covgen" where
  "covgen_reset rd g =
     g\<lparr>current_count := 0, current_lcg_state := ucast rd mod m_lcg g\<rparr>"

definition lcg_step :: "u64 \<Rightarrow> u64 \<Rightarrow> u64 \<Rightarrow> u64 \<Rightarrow> u64" where
  "lcg_step a c m x = (a * x + c) mod m"

text \<open>The do-while loop of \<open>next()\<close> ("cycle walking"), from LCG state \<open>x\<close>.\<close>

partial_function (option) covgen_walk :: "u64 \<Rightarrow> u64 \<Rightarrow> u64 \<Rightarrow> u64 \<Rightarrow> u64 \<Rightarrow> u64 option" where
  "covgen_walk a c m rangeSize x =
     (let x' = lcg_step a c m x
      in if rangeSize \<le> x' then covgen_walk a c m rangeSize x' else Some x')"

definition covgen_next :: "u32 \<Rightarrow> covgen \<Rightarrow> (u64 \<times> covgen) option" where
  "covgen_next rd g0 =
     (let g = (if \<not> covgen_has_next g0 then covgen_reset rd g0 else g0)
      in case covgen_walk (a_lcg g) (c_lcg g) (m_lcg g) (range_size g) (current_lcg_state g) of
           None \<Rightarrow> None
         | Some v \<Rightarrow>
             Some (min_value g + v,
                   g\<lparr>current_lcg_state := v, current_count := current_count g + 1\<rparr>))"

text \<open>A sequence of calls of \<open>next()\<close>, one for each value the random device has ready.\<close>

fun covgen_take :: "u32 list \<Rightarrow> covgen \<Rightarrow> (u64 list \<times> covgen) option" where
  "covgen_take [] g = Some ([], g)"
| "covgen_take (rd # rds) g =
     (case covgen_next rd g of
        None \<Rightarrow> None
      | Some (v, g') \<Rightarrow>
          (case covgen_take rds g' of
             None \<Rightarrow> None
           | Some (vs, g'') \<Rightarrow> Some (v # vs, g'')))"

subsection \<open>The modulus: the next power of two\<close>

text \<open>
  Each line \<open>n |= n >> d\<close> doubles the window of higher bits that a bit collects, so after
  the six lines a bit is set when any bit at its position or above was set.
\<close>

definition smeared :: "nat \<Rightarrow> u64 \<Rightarrow> u64 \<Rightarrow> bool" where
  "smeared w x y \<longleftrightarrow> (\<forall>i. bit y i \<longleftrightarrow> i < 64 \<and> (\<exists>j. i \<le> j \<and> j < i + w \<and> bit x j))"

lemma smeared_1: "smeared 1 x x"
  by (auto simp: smeared_def less_Suc_eq dest: bit_imp_le_length)

lemma smeared_step:
  assumes y: "smeared w x y" and w': "w' = w + w"
  shows "smeared w' x (y OR drop_bit w y)"
proof -
  have "bit (y OR drop_bit w y) i \<longleftrightarrow> i < 64 \<and> (\<exists>j. i \<le> j \<and> j < i + (w + w) \<and> bit x j)" for i
  proof -
    have "bit (y OR drop_bit w y) i \<longleftrightarrow> bit y i \<or> bit y (w + i)"
      by (simp add: bit_simps)
    also have "\<dots> \<longleftrightarrow> i < 64 \<and> (\<exists>j. i \<le> j \<and> j < i + w \<and> bit x j) \<or>
        w + i < 64 \<and> (\<exists>j. w + i \<le> j \<and> j < w + i + w \<and> bit x j)"
      using y by (simp add: smeared_def)
    also have "\<dots> \<longleftrightarrow> i < 64 \<and> (\<exists>j. i \<le> j \<and> j < i + (w + w) \<and> bit x j)" (is "?l \<longleftrightarrow> ?r")
    proof
      assume ?l
      then show ?r
      proof (elim disjE conjE exE)
        fix j
        assume "w + i < 64" "w + i \<le> j" "j < w + i + w" "bit x j"
        then show ?r by (intro conjI exI [of _ j]) auto
      qed (auto intro: less_le_trans)
    next
      assume ?r
      then obtain j where j: "i < 64" "i \<le> j" "j < i + (w + w)" "bit x j" by blast
      then have "j < 64" by (auto dest: bit_imp_le_length)
      with j show ?l by (cases "j < i + w") (auto intro!: exI [of _ j])
    qed
    finally show ?thesis .
  qed
  then show ?thesis by (simp add: smeared_def w')
qed

lemma smeared_64_mask:
  assumes y: "smeared 64 x y" and h: "bit x h" "\<forall>j. bit x j \<longrightarrow> j \<le> h"
  shows "y = mask (Suc h)"
proof (rule bit_word_eqI)
  fix i :: nat
  assume "i < LENGTH(64)"
  then have "i < 64" by simp
  have "h < 64" using h(1) by (auto dest: bit_imp_le_length)
  have "bit y i \<longleftrightarrow> (\<exists>j. i \<le> j \<and> j < i + 64 \<and> bit x j)"
    using y \<open>i < 64\<close> by (simp add: smeared_def)
  also have "\<dots> \<longleftrightarrow> i \<le> h"
    using h \<open>h < 64\<close> by (auto intro!: exI [of _ h] dest: le_trans)
  finally show "bit y i \<longleftrightarrow> bit (mask (Suc h) :: u64) i"
    using \<open>i < 64\<close> by (simp add: bit_simps less_Suc_eq_le)
qed

lemma next_power_of_two_as_mask:
  assumes "n \<noteq> 0" "bit (n - 1) h" "\<forall>j. bit (n - 1) j \<longrightarrow> j \<le> h"
  shows "next_power_of_two n = mask (Suc h) + 1"
proof -
  let ?s = "\<lambda>w x. x OR drop_bit w (x :: u64)"
  have "smeared 2 (n - 1) (?s 1 (n - 1))"
    by (rule smeared_step [OF smeared_1]) simp
  then have "smeared 4 (n - 1) (?s 2 (?s 1 (n - 1)))"
    by (rule smeared_step) simp
  then have "smeared 8 (n - 1) (?s 4 (?s 2 (?s 1 (n - 1))))"
    by (rule smeared_step) simp
  then have "smeared 16 (n - 1) (?s 8 (?s 4 (?s 2 (?s 1 (n - 1)))))"
    by (rule smeared_step) simp
  then have "smeared 32 (n - 1) (?s 16 (?s 8 (?s 4 (?s 2 (?s 1 (n - 1))))))"
    by (rule smeared_step) simp
  then have "smeared 64 (n - 1) (?s 32 (?s 16 (?s 8 (?s 4 (?s 2 (?s 1 (n - 1)))))))"
    by (rule smeared_step) simp
  from smeared_64_mask [OF this assms(2,3)] show ?thesis
    using assms(1) unfolding next_power_of_two_def Let_def by (simp only: if_False)
qed

lemma exists_top_bit:
  assumes "(x :: u64) \<noteq> 0"
  obtains h where "bit x h" "h < 64" "\<forall>j. bit x j \<longrightarrow> j \<le> h"
    and "2 ^ h \<le> unat x" "unat x < 2 ^ Suc h"
proof -
  have fin: "finite {j. bit x j}"
    by (rule finite_subset [of _ "{..<64}"]) (auto dest: bit_imp_le_length)
  have ne: "{j. bit x j} \<noteq> {}"
    using assms by (auto intro: bit_word_eqI)
  define h where "h = Max {j. bit x j}"
  have h: "bit x h" using Max_in [OF fin ne] by (simp add: h_def)
  have le: "j \<le> h" if "bit x j" for j using Max_ge [OF fin] that by (simp add: h_def)
  have "h < 64" using h by (auto dest: bit_imp_le_length)
  have "2 ^ h \<le> unat x"
  proof -
    have "bit (unat x) h" using h by (simp add: bit_unsigned_iff)
    then have "0 < unat x div 2 ^ h" by (simp add: bit_iff_odd odd_pos)
    then show ?thesis by (simp add: div_greater_zero_iff)
  qed
  moreover have "take_bit (Suc h) x = x"
    by (rule bit_word_eqI) (auto simp: bit_simps less_Suc_eq_le dest: le)
  then have "unat x = take_bit (Suc h) (unat x)" by (metis unsigned_take_bit_eq)
  then have "unat x < 2 ^ Suc h" by (metis take_bit_nat_less_exp)
  ultimately show thesis using that h \<open>h < 64\<close> le by blast
qed

text \<open>
  For every range size up to \<open>2 ^ 63\<close> the modulus is the least power of two that is not
  below it; beyond that the expression wraps to zero, which the constructor tests for.
\<close>

lemma next_power_of_two_spec:
  assumes "n \<noteq> 0" "unat n \<le> 2 ^ 63"
  obtains k where "k < 64" "next_power_of_two n = 2 ^ k" "unat (next_power_of_two n) = 2 ^ k"
    and "unat n \<le> 2 ^ k" "2 ^ k < 2 * unat n"
proof (cases "n = 1")
  case True
  then show thesis by (intro that [of 0]) (simp_all add: next_power_of_two_def)
next
  case False
  with assms have "n - 1 \<noteq> 0" by simp
  then obtain h where h: "bit (n - 1) h" "h < 64" "\<forall>j. bit (n - 1) j \<longrightarrow> j \<le> h"
    and b: "2 ^ h \<le> unat (n - 1)" "unat (n - 1) < 2 ^ Suc h"
    by (rule exists_top_bit)
  have n1: "unat (n - 1) = unat n - 1" using assms by (simp add: unat_minus_one)
  have "(2::nat) ^ h < 2 ^ 63"
  proof -
    have "0 < unat n" using assms(1) by (simp add: unat_gt_0)
    then have "2 ^ h < unat n" using b(1) n1 by linarith
    then show ?thesis using assms(2) by linarith
  qed
  then have "h < 63" by (rule power_less_imp_less_exp [rotated]) simp
  then have "Suc h < 64" by simp
  have eq: "next_power_of_two n = 2 ^ Suc h"
    using next_power_of_two_as_mask [OF assms(1) h(1,3)] by (simp add: mask_eq_decr_exp)
  have "unat (2 ^ Suc h :: u64) = 2 ^ Suc h"
    using \<open>Suc h < 64\<close> by (rule unat_two_power)
  with eq \<open>Suc h < 64\<close> b n1 show thesis
    by (intro that [of "Suc h"]) (auto simp: unat_gt_0)
qed

lemma next_power_of_two_overflow:
  assumes "2 ^ 63 < unat n"
  shows "next_power_of_two n = 0"
proof -
  have "n \<noteq> 0" "n - 1 \<noteq> 0" using assms by auto
  from this(2) obtain h where h: "bit (n - 1) h" "h < 64" "\<forall>j. bit (n - 1) j \<longrightarrow> j \<le> h"
    and b: "2 ^ h \<le> unat (n - 1)" "unat (n - 1) < 2 ^ Suc h"
    by (rule exists_top_bit)
  have "unat (n - 1) = unat n - 1" using \<open>n \<noteq> 0\<close> by (simp add: unat_minus_one)
  then have "(2::nat) ^ 63 < 2 ^ Suc h" using assms b(2) by linarith
  then have "63 < Suc h" by (rule power_less_imp_less_exp [rotated]) simp
  then have "h = 63" using h(2) by simp
  then show ?thesis
    using next_power_of_two_as_mask [OF \<open>n \<noteq> 0\<close> h(1,3)] by (simp add: mask_eq_decr_exp)
qed

subsection \<open>The invariant\<close>

definition covgen_inv :: "covgen \<Rightarrow> bool" where
  "covgen_inv g \<longleftrightarrow>
     (\<exists>k < 64. unat (m_lcg g) = 2 ^ k) \<and>
     a_lcg g = 6364136223846793005 \<and> c_lcg g = 1442695040888963407 \<and>
     min_value g \<le> max_value g \<and> range_size g = max_value g - min_value g + 1 \<and>
     range_size g \<noteq> 0 \<and> range_size g \<le> m_lcg g \<and>
     current_count g \<le> range_size g"

lemma covgen_new_ok:
  assumes "lo \<le> hi" "hi - lo + 1 \<noteq> 0" "unat (hi - lo + 1) \<le> 2 ^ 63"
  shows "covgen_new lo hi rd = Inr
    \<lparr>min_value = lo, max_value = hi, range_size = hi - lo + 1, current_count = 0,
     m_lcg = next_power_of_two (hi - lo + 1), a_lcg = 6364136223846793005,
     c_lcg = 1442695040888963407,
     current_lcg_state = ucast rd mod next_power_of_two (hi - lo + 1)\<rparr>"
proof -
  obtain k where "unat (next_power_of_two (hi - lo + 1)) = 2 ^ k"
    using next_power_of_two_spec [OF assms(2,3)] by metis
  then have "next_power_of_two (hi - lo + 1) \<noteq> 0" by (auto simp flip: unat_0_iff)
  with assms show ?thesis by (simp add: covgen_new_def Let_def not_less [symmetric])
qed

lemma bit_63_if_large: "2 ^ 63 \<le> unat (x :: u64) \<Longrightarrow> bit x 63"
proof -
  assume x: "2 ^ 63 \<le> unat x"
  then have "x \<noteq> 0" by auto
  then obtain h where h: "bit x h" "h < 64" "unat x < 2 ^ Suc h" by (rule exists_top_bit)
  with x have "(2::nat) ^ 63 < 2 ^ Suc h" by linarith
  then have "63 < Suc h" by (rule power_less_imp_less_exp [rotated]) simp
  with h have "h = 63" by simp
  with h show ?thesis by simp
qed

lemma covgen_new_too_large:
  assumes "lo \<le> hi" "2 ^ 63 < unat (hi - lo + 1)"
  shows "covgen_new lo hi rd
    = Inl (WorkerException ''Range size too large for this LCG implementation'')"
proof -
  let ?r = "hi - lo + 1"
  have nz: "?r \<noteq> 0" using assms(2) by (metis not_less_zero unat_0)
  have "unat (?r - 1) = unat ?r - 1" using nz by (rule unat_minus_one)
  with assms have "bit ?r 63" "bit (?r - 1) 63" by (auto intro!: bit_63_if_large)
  then have "bit (?r AND (?r - 1)) 63" by (simp add: bit_and_iff)
  then have "?r AND (?r - 1) \<noteq> 0" by (metis bit_0_eq bot_apply bot_bool_def)
  moreover have "push_bit 63 1 < ?r"
    using assms(2) unat_two_power [of 63] by (simp add: word_less_nat_alt push_bit_eq_mult)
  moreover have "0 < ?r" using nz by (simp add: word_gt_0)
  ultimately show ?thesis
    using assms(1) nz next_power_of_two_overflow [OF assms(2)]
    by (simp add: covgen_new_def Let_def not_less [symmetric])
qed

lemma covgen_new_inv:
  assumes "covgen_new lo hi rd = Inr g"
  shows "covgen_inv g \<and> min_value g = lo \<and> max_value g = hi \<and> current_count g = 0"
proof -
  let ?r = "hi - lo + 1"
  have r: "lo \<le> hi" "?r \<noteq> 0"
    using assms by (auto simp: covgen_new_def Let_def split: if_splits)
  have le: "unat ?r \<le> 2 ^ 63"
    using covgen_new_too_large [OF r(1), of rd] assms by (metis Inl_Inr_False not_less)
  obtain k where "k < 64" "unat (next_power_of_two ?r) = 2 ^ k" "unat ?r \<le> 2 ^ k"
    using next_power_of_two_spec [OF r(2) le] by metis
  with assms r show ?thesis
    unfolding covgen_new_ok [OF r le] covgen_inv_def
    by (auto simp: word_le_nat_alt intro: exI [of _ k])
qed

subsection \<open>One cycle covers the range\<close>

text \<open>
  The states that the recurrence goes through from \<open>x\<close>, and what a call of \<open>next()\<close> does
  to them: it drops the ones outside the range and takes the first one inside.
\<close>

fun orbit :: "(u64 \<Rightarrow> u64) \<Rightarrow> nat \<Rightarrow> u64 \<Rightarrow> u64 list" where
  "orbit f 0 x = []"
| "orbit f (Suc n) x = f x # orbit f n (f x)"

lemma orbit_conv: "orbit f n x = map (\<lambda>i. (f ^^ Suc i) x) [0..<n]"
proof (induction n arbitrary: x)
  case (Suc n)
  have "map (\<lambda>i. (f ^^ Suc i) x) [0..<Suc n] = f x # map (\<lambda>i. (f ^^ Suc (Suc i)) x) [0..<n]"
    by (simp add: upt_conv_Cons map_Suc_upt [symmetric] comp_def del: upt_Suc)
  also have "\<dots> = orbit f (Suc n) x"
    by (simp add: Suc funpow_swap1)
  finally show ?case by simp
qed simp

lemma uint_lcg_step:
  assumes "k \<le> 64" "uint m = 2 ^ k"
  shows "uint (lcg_step a c m x) = lcg (uint a) (uint c) k (uint x)"
proof -
  have "(2::int) ^ k dvd 2 ^ 64" using assms(1) by (rule le_imp_power_dvd)
  then show ?thesis
    by (simp add: lcg_step_def lcg_def uint_mod assms(2) uint_word_ariths mod_mod_cancel mod_simps)
qed

lemma uint_lcg_step_pow:
  assumes "k \<le> 64" "uint m = 2 ^ k"
  shows "uint ((lcg_step a c m ^^ n) x) = (lcg (uint a) (uint c) k ^^ n) (uint x)"
  by (induction n) (simp_all add: uint_lcg_step [OF assms])

lemma orbit_full_period:
  assumes k: "k < 64" and m: "unat m = 2 ^ k" and a: "uint a mod 4 = 1" and c: "odd (uint c)"
  shows "distinct (orbit (lcg_step a c m) (2 ^ k) x)"
    and "set (orbit (lcg_step a c m) (2 ^ k) x) = {v. v < m}"
proof -
  let ?f = "lcg_step a c m"
  have um: "uint m = 2 ^ k" using m by (simp add: uint_nat)
  have pow: "uint ((?f ^^ n) x) = (lcg (uint a) (uint c) k ^^ n) (uint x)" for n
    using k um by (simp add: uint_lcg_step_pow)
  have "inj_on (uint \<circ> (\<lambda>i. (?f ^^ Suc i) x)) {..<2 ^ k}"
    using lcg_full_period(1) [OF a c, of k "uint x"] by (simp add: comp_def pow del: funpow.simps)
  then have "inj_on (\<lambda>i. (?f ^^ Suc i) x) {..<2 ^ k}"
    by (rule inj_on_imageI2)
  then show "distinct (orbit ?f (2 ^ k) x)"
    by (simp add: orbit_conv distinct_map lessThan_atLeast0 del: funpow.simps)
  have "uint ` (\<lambda>i. (?f ^^ Suc i) x) ` {..<2 ^ k} = {0..<2 ^ k}"
    using lcg_full_period(2) [OF a c, of k "uint x"] by (simp add: image_image pow del: funpow.simps)
  also have "\<dots> = uint ` {v :: u64. v < m}"
  proof (intro set_eqI iffI)
    fix y :: int assume y: "y \<in> {0..<2 ^ k}"
    have "(2::int) ^ k < 2 ^ 64" using k by (rule power_strict_increasing) simp
    with y have "uint (word_of_int y :: u64) = y" by (simp add: uint_word_of_int)
    with y show "y \<in> uint ` {v :: u64. v < m}"
      by (intro image_eqI [of _ _ "word_of_int y"]) (simp_all add: word_less_def um)
  qed (auto simp: word_less_def um)
  finally have "(\<lambda>i. (?f ^^ Suc i) x) ` {..<2 ^ k} = {v. v < m}"
    by (rule inj_image_eq_iff [THEN iffD1, rotated]) (simp add: inj_def flip: word_uint_eq_iff)
  then show "set (orbit ?f (2 ^ k) x) = {v. v < m}"
    by (simp add: orbit_conv lessThan_atLeast0 del: funpow.simps)
qed

lemma covgen_walk_hit: "lcg_step a c m x < r \<Longrightarrow> covgen_walk a c m r x = Some (lcg_step a c m x)"
  by (subst covgen_walk.simps) (auto simp: Let_def dest: leD)

lemma covgen_walk_miss:
  "r \<le> lcg_step a c m x \<Longrightarrow> covgen_walk a c m r x = covgen_walk a c m r (lcg_step a c m x)"
  by (subst covgen_walk.simps) (simp add: Let_def)

abbreviation covgen_hits :: "covgen \<Rightarrow> nat \<Rightarrow> u64 list" where
  "covgen_hits g n \<equiv>
     filter (\<lambda>v. v < range_size g)
       (orbit (lcg_step (a_lcg g) (c_lcg g) (m_lcg g)) n (current_lcg_state g))"

lemma covgen_take_orbit:
  assumes "length rds \<le> length (covgen_hits g n)"
    and "unat (current_count g) + length rds \<le> unat (range_size g)"
  shows "\<exists>st. covgen_take rds g =
    Some (map ((+) (min_value g)) (take (length rds) (covgen_hits g n)),
          g\<lparr>current_lcg_state := st, current_count := current_count g + of_nat (length rds)\<rparr>)"
  using assms
proof (induction n arbitrary: rds g)
  case 0
  then show ?case by (simp add: exI [of _ "current_lcg_state g"])
next
  case (Suc n)
  let ?y = "lcg_step (a_lcg g) (c_lcg g) (m_lcg g) (current_lcg_state g)"
  show ?case
  proof (cases rds)
    case Nil
    then show ?thesis by (simp add: exI [of _ "current_lcg_state g"])
  next
    case (Cons rd rds')
    with Suc.prems have hn: "covgen_has_next g"
      by (simp add: covgen_has_next_def word_less_nat_alt)
    have c1: "unat (current_count g + 1) = unat (current_count g) + 1"
    proof -
      have "unat (current_count g) + unat (1 :: u64) < W64"
        using hn unat_less_W64 [of "range_size g"]
        by (simp add: covgen_has_next_def word_less_nat_alt)
      then show ?thesis by (simp add: unat_add_no)
    qed
    show ?thesis
    proof (cases "?y < range_size g")
      case True
      let ?g1 = "g\<lparr>current_lcg_state := ?y, current_count := current_count g + 1\<rparr>"
      have nx: "covgen_next rd g = Some (min_value g + ?y, ?g1)"
        using hn True by (simp add: covgen_next_def covgen_walk_hit)
      obtain st where "covgen_take rds' ?g1 =
          Some (map ((+) (min_value g)) (take (length rds') (covgen_hits ?g1 n)),
            ?g1\<lparr>current_lcg_state := st, current_count := current_count ?g1 + of_nat (length rds')\<rparr>)"
        using Suc.IH [of rds' ?g1] Suc.prems True Cons c1 by auto
      then show ?thesis using nx True Cons by (auto simp: add.assoc intro!: exI [of _ st])
    next
      case False
      let ?g1 = "g\<lparr>current_lcg_state := ?y\<rparr>"
      have "covgen_next rd g = covgen_next rd ?g1"
        using hn False
        by (simp add: covgen_next_def covgen_has_next_def covgen_walk_miss split: option.split)
      then have "covgen_take rds g = covgen_take rds ?g1" by (simp add: Cons)
      then show ?thesis using Suc.IH [of rds ?g1] Suc.prems False by auto
    qed
  qed
qed

lemma covgen_hits_cycle:
  assumes "covgen_inv g"
  obtains n where "distinct (covgen_hits g n)" "set (covgen_hits g n) = {v. v < range_size g}"
    and "length (covgen_hits g n) = unat (range_size g)"
proof -
  obtain k where k: "k < 64" "unat (m_lcg g) = 2 ^ k"
    using assms by (auto simp: covgen_inv_def)
  have a: "uint (a_lcg g) mod 4 = 1" and c: "odd (uint (c_lcg g))"
    using assms unfolding covgen_inv_def by simp_all
  note per = orbit_full_period [OF k a c, of "current_lcg_state g"]
  have d: "distinct (covgen_hits g (2 ^ k))" using per(1) by simp
  have rm: "range_size g \<le> m_lcg g" using assms unfolding covgen_inv_def by blast
  have s: "set (covgen_hits g (2 ^ k)) = {v. v < range_size g}"
    unfolding set_filter per(2) using rm by (auto intro: less_le_trans)
  have "{v. v < range_size g} = of_nat ` {..<unat (range_size g)}"
  proof (intro set_eqI iffI)
    fix v :: u64 assume "v \<in> {v. v < range_size g}"
    then show "v \<in> of_nat ` {..<unat (range_size g)}"
      by (intro image_eqI [of _ _ "unat v"]) (simp_all add: word_less_nat_alt)
  next
    fix v :: u64 assume "v \<in> of_nat ` {..<unat (range_size g)}"
    then obtain i where "v = of_nat i" "i < unat (range_size g)" by auto
    moreover from this(2) have "i < W64" using unat_less_W64 [of "range_size g"] by linarith
    ultimately show "v \<in> {v. v < range_size g}"
      by (simp add: word_less_nat_alt unat_of_nat_no)
  qed
  moreover have "inj_on (of_nat :: nat \<Rightarrow> u64) {..<unat (range_size g)}"
  proof (rule inj_onI)
    fix i j assume ij: "i \<in> {..<unat (range_size g)}" "j \<in> {..<unat (range_size g)}"
      and eq: "(of_nat i :: u64) = of_nat j"
    then have "i < W64" "j < W64" using unat_less_W64 [of "range_size g"] by auto
    with eq show "i = j" by (metis unat_of_nat_no)
  qed
  ultimately have "card {v. v < range_size g} = unat (range_size g)"
    by (simp add: card_image)
  then have "length (covgen_hits g (2 ^ k)) = unat (range_size g)"
    using distinct_card [OF d] s by simp
  with d s show thesis by (rule that)
qed

lemma covgen_image:
  "covgen_inv g \<Longrightarrow> (+) (min_value g) ` {v. v < range_size g} = {min_value g..max_value g}"
  unfolding covgen_inv_def by (intro image_add_range) auto

text \<open>
  A full cycle of calls from a generator whose count is at zero, and also from one whose
  cycle is used up: there the first call draws a new starting state and the next cycle
  covers the range again.
\<close>

lemma covgen_inv_used_up:
  assumes "covgen_inv g" "n = unat (range_size g)"
  shows "covgen_inv (g\<lparr>current_lcg_state := st, current_count := of_nat n\<rparr>)"
  using assms unfolding covgen_inv_def by clarsimp

lemma covgen_take_cycle:
  assumes inv: "covgen_inv g" and c0: "current_count g = 0"
    and len: "length rds = unat (range_size g)"
  shows "\<exists>vs g'. covgen_take rds g = Some (vs, g') \<and> distinct vs \<and>
    set vs = {min_value g..max_value g} \<and> \<not> covgen_has_next g' \<and> covgen_inv g' \<and>
    min_value g' = min_value g \<and> max_value g' = max_value g \<and> range_size g' = range_size g"
proof -
  obtain n where n: "distinct (covgen_hits g n)" "set (covgen_hits g n) = {v. v < range_size g}"
      "length (covgen_hits g n) = unat (range_size g)"
    using covgen_hits_cycle [OF inv] by blast
  obtain st where t: "covgen_take rds g =
      Some (map ((+) (min_value g)) (take (length rds) (covgen_hits g n)),
            g\<lparr>current_lcg_state := st, current_count := current_count g + of_nat (length rds)\<rparr>)"
    using covgen_take_orbit [of rds g n] n(3) len c0 by auto
  have "distinct (map ((+) (min_value g)) (covgen_hits g n))"
    using n(1) by (simp add: distinct_map inj_on_def)
  then show ?thesis
    using t n(2,3) len covgen_image [OF inv] c0 covgen_inv_used_up [OF inv len, of st]
    by (auto simp: covgen_has_next_def image_set [symmetric] simp del: set_filter)
qed

lemma covgen_reset_inv: "covgen_inv g \<Longrightarrow> covgen_inv (covgen_reset rd g)"
  unfolding covgen_inv_def covgen_reset_def by clarsimp

lemma covgen_reset_fields [simp]:
  "current_count (covgen_reset rd g) = 0" "range_size (covgen_reset rd g) = range_size g"
  "min_value (covgen_reset rd g) = min_value g" "max_value (covgen_reset rd g) = max_value g"
  by (simp_all add: covgen_reset_def)

lemma covgen_reset_has_next: "covgen_inv g \<Longrightarrow> covgen_has_next (covgen_reset rd g)"
  unfolding covgen_has_next_def covgen_inv_def by (metis covgen_reset_fields(1,2) word_gt_0)

lemma covgen_take_exhausted:
  assumes "covgen_inv g" "\<not> covgen_has_next g"
  shows "covgen_take (rd # rds) g = covgen_take (rd # rds) (covgen_reset rd g)"
  using assms covgen_reset_has_next [OF assms(1)] by (simp add: covgen_next_def)

lemma covgen_next_step:
  assumes inv: "covgen_inv g"
  shows "\<exists>v g'. covgen_next rd g = Some (v, g') \<and> v \<in> {min_value g..max_value g} \<and>
    covgen_inv g' \<and> min_value g' = min_value g \<and> max_value g' = max_value g"
proof -
  define h where "h = (if covgen_has_next g then g else covgen_reset rd g)"
  have h: "covgen_inv h" "covgen_has_next h" "min_value h = min_value g" "max_value h = max_value g"
      "range_size h = range_size g"
    using inv by (simp_all add: h_def covgen_reset_inv covgen_reset_has_next)
  have eq: "covgen_next rd g = covgen_next rd h"
    using h(2) by (simp add: h_def covgen_next_def split: if_splits)
  obtain n where n: "set (covgen_hits h n) = {v. v < range_size h}"
      "length (covgen_hits h n) = unat (range_size h)"
    using covgen_hits_cycle [OF h(1)] by blast
  have lt: "unat (current_count h) + 1 \<le> unat (range_size h)"
    using h(2) by (simp add: covgen_has_next_def word_less_nat_alt)
  obtain st where t: "covgen_take [rd] h =
      Some (map ((+) (min_value h)) (take 1 (covgen_hits h n)),
            h\<lparr>current_lcg_state := st, current_count := current_count h + 1\<rparr>)"
    using covgen_take_orbit [of "[rd]" h n] n(2) lt by auto
  obtain v vs where v: "covgen_hits h n = v # vs"
    using n(2) lt by (cases "covgen_hits h n") auto
  have "v < range_size h" using n(1) v by (metis list.set_intros(1) mem_Collect_eq)
  then have mem: "min_value h + v \<in> {min_value h..max_value h}"
    unfolding covgen_image [OF h(1), symmetric] by simp
  have c1: "unat (current_count h + 1) = unat (current_count h) + 1"
    using lt unat_less_W64 [of "range_size h"] by (simp add: unat_add_no)
  have cle: "current_count h + 1 \<le> range_size h"
    using lt c1 by (simp only: word_le_nat_alt)
  have nx: "covgen_next rd h = Some (min_value h + v,
      h\<lparr>current_lcg_state := st, current_count := current_count h + 1\<rparr>)"
    using t v by (auto split: option.splits prod.splits)
  have "covgen_inv (h\<lparr>current_lcg_state := st, current_count := current_count h + 1\<rparr>)"
    using h(1) cle unfolding covgen_inv_def by clarsimp
  then show ?thesis using eq nx mem h by simp
qed

lemma covgen_take_append:
  "covgen_take (xs @ ys) g =
     (case covgen_take xs g of
        None \<Rightarrow> None
      | Some (vs, g') \<Rightarrow> map_option (map_prod ((@) vs) id) (covgen_take ys g'))"
proof (induction xs arbitrary: g)
  case Nil
  then show ?case by (simp add: id_def map_prod_def option.map_ident)
next
  case (Cons rd xs)
  then show ?case by (auto split: option.splits prod.splits)
qed

lemma covgen_take_cycle_again:
  assumes "covgen_inv g" "current_count g = 0 \<or> \<not> covgen_has_next g"
    and "length rds = unat (range_size g)"
  shows "\<exists>vs g'. covgen_take rds g = Some (vs, g') \<and> distinct vs \<and>
    set vs = {min_value g..max_value g} \<and> \<not> covgen_has_next g' \<and> covgen_inv g' \<and>
    min_value g' = min_value g \<and> max_value g' = max_value g \<and> range_size g' = range_size g"
proof (cases "current_count g = 0")
  case True
  with assms show ?thesis by (intro covgen_take_cycle) auto
next
  case False
  have "unat (range_size g) \<noteq> 0" using assms(1) unfolding covgen_inv_def unat_0_iff by blast
  with assms(3) obtain rd rds' where rds: "rds = rd # rds'" by (cases rds) auto
  have "covgen_take rds g = covgen_take rds (covgen_reset rd g)"
    using assms False unfolding rds by (intro covgen_take_exhausted) auto
  then show ?thesis
    using covgen_take_cycle [OF covgen_reset_inv [OF assms(1)], of rd rds] assms(3) by auto
qed

lemma covgen_take_cycles:
  assumes "covgen_inv g" "current_count g = 0 \<or> \<not> covgen_has_next g"
    and "\<forall>rds \<in> set rdss. length rds = unat (range_size g)"
  shows "\<exists>vss g'. covgen_take (concat rdss) g = Some (concat vss, g') \<and>
    length vss = length rdss \<and>
    (\<forall>vs \<in> set vss. distinct vs \<and> set vs = {min_value g..max_value g})"
  using assms
proof (induction rdss arbitrary: g)
  case (Cons rds rdss)
  then obtain vs g' where c: "covgen_take rds g = Some (vs, g')" "distinct vs"
      "set vs = {min_value g..max_value g}" "\<not> covgen_has_next g'" "covgen_inv g'"
      "min_value g' = min_value g" "max_value g' = max_value g" "range_size g' = range_size g"
    using covgen_take_cycle_again [of g rds] by auto
  then obtain vss g'' where "covgen_take (concat rdss) g' = Some (concat vss, g'')"
      "length vss = length rdss" "\<forall>vs \<in> set vss. distinct vs \<and> set vs = {min_value g..max_value g}"
    using Cons.IH [of g'] Cons.prems by auto
  with c show ?case
    by (intro exI [of _ "vs # vss"]) (auto simp: covgen_take_append)
qed auto

lemma chunks_exist: "length xs = m * k \<Longrightarrow> \<exists>xss. concat xss = xs \<and> length xss = m \<and> (\<forall>x \<in> set xss. length x = k)"
proof (induction m arbitrary: xs)
  case (Suc m)
  have "length (drop k xs) = m * k" using Suc.prems by simp
  from Suc.IH [OF this] obtain xss where "concat xss = drop k xs" "length xss = m" "\<forall>x \<in> set xss. length x = k" by blast
  then show ?case using Suc.prems by (intro exI [of _ "take k xs # xss"]) simp
qed simp

lemma chunk_of_concat:
  "\<forall>x \<in> set xss. length x = k \<Longrightarrow> take k (drop (j * k) (concat xss)) = (if j < length xss then xss ! j else [])"
proof (induction xss arbitrary: j)
  case (Cons x xss)
  then show ?case by (cases j) auto
qed simp

lemma covgen_take_length: "covgen_take rds g = Some (vs, g') \<Longrightarrow> length vs = length rds"
  by (induction rds arbitrary: g vs) (auto split: option.splits prod.splits)

lemma covgen_range_card:
  assumes "covgen_inv g"
  shows "card {min_value g..max_value g} = unat (range_size g)"
proof -
  let ?h = "g\<lparr>current_count := 0\<rparr>" and ?rds = "replicate (unat (range_size g)) (0 :: u32)"
  have "covgen_inv ?h" using assms unfolding covgen_inv_def by clarsimp
  then obtain vs g' where "covgen_take ?rds ?h = Some (vs, g')" "distinct vs" "set vs = {min_value g..max_value g}"
    using covgen_take_cycle [of ?h ?rds] by auto
  then show ?thesis using covgen_take_length [of ?rds ?h vs g'] distinct_card [of vs] by simp
qed

text \<open>Any number of calls: each run of as many calls as the range has numbers returns no number twice.\<close>

lemma covgen_take_runs:
  assumes inv: "covgen_inv g" "current_count g = 0" and t: "covgen_take rds g = Some (vs, g')"
  defines "k \<equiv> unat (range_size g)"
  shows "distinct (take k (drop (j * k) vs))" "set (take k (drop (j * k) vs)) \<subseteq> {min_value g..max_value g}"
proof -
  have "range_size g \<noteq> 0" using inv(1) unfolding covgen_inv_def by blast
  then have k: "0 < k" by (simp add: k_def word_ne_0_pos)
  let ?n = "length rds"
  define pad where "pad = replicate (?n * k - ?n) (0 :: u32)"
  have "length (rds @ pad) = ?n * k" using k by (simp add: pad_def)
  then obtain rdss where r: "concat rdss = rds @ pad" "\<forall>x \<in> set rdss. length x = k" using chunks_exist by metis
  then obtain vss g2 where v: "covgen_take (rds @ pad) g = Some (concat vss, g2)"
      "\<forall>vs \<in> set vss. distinct vs \<and> set vs = {min_value g..max_value g}"
    using covgen_take_cycles [OF inv(1), of rdss] inv(2) by (auto simp: k_def)
  have "\<exists>ws. concat vss = vs @ ws" using v(1) t by (auto simp: covgen_take_append intro: sym)
  then obtain ws where w: "concat vss = vs @ ws" by blast
  have "length x = k" if "x \<in> set vss" for x
  proof -
    have "length x = card {min_value g..max_value g}" using v(2) that by (metis distinct_card)
    also have "\<dots> = k" using inv(1) by (simp add: k_def covgen_range_card)
    finally show ?thesis .
  qed
  then have c: "take k (drop (j * k) (concat vss)) = (if j < length vss then vss ! j else [])" by (intro chunk_of_concat) blast
  have "distinct (take k (drop (j * k) (concat vss)))" "set (take k (drop (j * k) (concat vss))) \<subseteq> {min_value g..max_value g}"
    unfolding c using v(2) by auto
  moreover have "\<exists>us. take k (drop (j * k) (concat vss)) = take k (drop (j * k) vs) @ us" unfolding w by simp
  ultimately show "distinct (take k (drop (j * k) vs))" "set (take k (drop (j * k) vs)) \<subseteq> {min_value g..max_value g}"
    by fastforce+
qed

subsection \<open>Properties\<close>



text \<open>
  \<open>next_power_of_two\<close> returns the least power of two that is not below its argument, for
  every argument from 1 up to \<open>2^63\<close>, and 0 above that, where the result does not fit.
\<close>

theorem next_power_of_two_least:
  assumes "n \<noteq> 0"
  shows "if unat n \<le> 2 ^ 63
    then \<exists>k < 64. unat (next_power_of_two n) = 2 ^ k \<and> unat n \<le> 2 ^ k \<and>
           (\<forall>j < k. 2 ^ j < unat n)
    else next_power_of_two n = 0"
proof (cases "unat n \<le> 2 ^ 63")
  case True
  obtain k where k: "k < 64" "unat (next_power_of_two n) = 2 ^ k" "unat n \<le> 2 ^ k" "2 ^ k < 2 * unat n"
    using next_power_of_two_spec [OF assms True] by metis
  have "2 ^ j < unat n" if "j < k" for j :: nat
  proof -
    have "2 * 2 ^ j \<le> (2 :: nat) ^ k" using that power_increasing [of "Suc j" k "2 :: nat"] by simp
    with k(4) show ?thesis by linarith
  qed
  with k True show ?thesis by auto
next
  case False
  then show ?thesis by (simp add: next_power_of_two_overflow)
qed

theorem next_power_of_two_least_witness:
  "\<exists>k < 64. unat (next_power_of_two 1000) = 2 ^ k \<and> 1000 \<le> (2 :: nat) ^ k \<and> (\<forall>j < k. 2 ^ j < (1000 :: nat))"
  using next_power_of_two_least [of 1000] by simp

text \<open>
  The constructor of the generator accepts exactly the nonempty ranges of at most \<open>2^63\<close>
  values; the generator it builds satisfies the invariant. A reversed range, a range of all
  \<open>2^64\<close> values and a range of more than \<open>2^63\<close> values each raise their own exception.
\<close>

theorem covgen_new_cases:
  "case covgen_new lo hi rd of
     Inr g \<Rightarrow> lo \<le> hi \<and> unat hi - unat lo < 2 ^ 63 \<and> covgen_inv g \<and>
             min_value g = lo \<and> max_value g = hi
   | Inl e \<Rightarrow>
       e = WorkerException
         (if hi < lo then ''OffsetGenFullCov: Minimum value cannot be greater than maximum value.''
          else if lo = 0 \<and> hi = -1 then ''OffsetGenFullCov: Range cannot be empty.''
          else ''Range size too large for this LCG implementation'') \<and>
       (hi < lo \<or> 2 ^ 63 \<le> unat hi - unat lo)"
proof -
  consider "hi < lo" | "lo \<le> hi" "hi - lo + 1 = 0" | "lo \<le> hi" "hi - lo + 1 \<noteq> 0"
    by fastforce
  then show ?thesis
  proof cases
    case 1
    then show ?thesis by (simp add: covgen_new_def)
  next
    case 2
    then show ?thesis
      using range_wraps_iff [OF 2(1)] by (auto simp: covgen_new_def not_less [symmetric])
  next
    case 3
    note u = unat_range_size [OF 3]
    show ?thesis
    proof (cases "unat (hi - lo + 1) \<le> 2 ^ 63")
      case True
      then show ?thesis
        using 3 u covgen_new_ok [OF 3 True, of rd] covgen_new_inv [of lo hi rd] by simp
    next
      case False
      then show ?thesis
        using 3 u covgen_new_too_large [of lo hi rd] range_wraps_iff [OF 3(1)] by auto
    qed
  qed
qed

end
