(* ===== verification/Decimal.thy ===== *)
theory Decimal
  imports Prelude
begin

text \<open>
  The conversions of the C++ standard library between numbers and decimal strings that the
  sources use: \<open>std::to_string\<close>, \<open>std::stoull\<close> and the character classes of the C locale.
\<close>

subsection \<open>Definitions\<close>

definition code :: "char \<Rightarrow> nat" where
  "code c = of_char c"

definition isdigit :: "char \<Rightarrow> bool" where
  "isdigit c \<longleftrightarrow> 48 \<le> code c \<and> code c \<le> 57"

definition isspace :: "char \<Rightarrow> bool" where
  "isspace c \<longleftrightarrow> code c = 32 \<or> (9 \<le> code c \<and> code c \<le> 13)"

definition digit_char :: "nat \<Rightarrow> char" where
  "digit_char d = char_of (48 + d)"

fun to_string :: "nat \<Rightarrow> string" where
  "to_string n =
     (if n < 10 then [digit_char n] else to_string (n div 10) @ [digit_char (n mod 10)])"

declare to_string.simps [simp del]

definition digits_value :: "string \<Rightarrow> nat" where
  "digits_value = foldl (\<lambda>v c. 10 * v + (code c - 48)) 0"

text \<open>\<open>strtoull\<close> in base 10 with the error reporting of \<open>std::stoull\<close>.\<close>

definition strip_sign :: "string \<Rightarrow> bool \<times> string" where
  "strip_sign s =
     (case s of
        [] \<Rightarrow> (False, [])
      | c # r \<Rightarrow> if c = CHR ''-'' then (True, r) else if c = CHR ''+'' then (False, r) else (False, s))"

definition stoull :: "string \<Rightarrow> u64 result" where
  "stoull s =
     (let (neg, r) = strip_sign (dropWhile isspace s);
          ds = takeWhile isdigit r
      in if ds = [] then Inl (InvalidArgument ''stoull'')
         else if W64 \<le> digits_value ds then Inl (OutOfRange ''stoull'')
         else Inr (if neg then - of_nat (digits_value ds) else of_nat (digits_value ds)))"

subsection \<open>Reading back what was printed\<close>

lemma code_char_of [simp]: "n < 256 \<Longrightarrow> code (char_of n) = n"
  by (simp add: code_def)

lemma digit_char_numerals [simp]:
  "digit_char 0 = CHR ''0''" "digit_char 1 = CHR ''1''" "digit_char (Suc 0) = CHR ''1''"
  "digit_char 2 = CHR ''2''" "digit_char 3 = CHR ''3''" "digit_char 4 = CHR ''4''"
  "digit_char 5 = CHR ''5''" "digit_char 6 = CHR ''6''" "digit_char 7 = CHR ''7''"
  "digit_char 8 = CHR ''8''" "digit_char 9 = CHR ''9''"
  by (simp_all add: digit_char_def char_of_def bit_0)

lemma isdigit_digit_char [simp]: "d < 10 \<Longrightarrow> isdigit (digit_char d)"
  by (simp add: isdigit_def digit_char_def)

lemma code_digit_char [simp]: "d < 10 \<Longrightarrow> code (digit_char d) = 48 + d"
  by (simp add: digit_char_def)

lemma to_string_digits: "\<forall>c \<in> set (to_string n). isdigit c"
proof (induction n rule: to_string.induct)
  case (1 n)
  then show ?case by (subst to_string.simps) auto
qed

lemma to_string_nonempty [simp]: "to_string n \<noteq> []"
  by (subst to_string.simps) simp

lemma digits_value_snoc: "digits_value (ds @ [c]) = 10 * digits_value ds + (code c - 48)"
  by (simp add: digits_value_def)

lemma digits_value_to_string [simp]: "digits_value (to_string n) = n"
proof (induction n rule: to_string.induct)
  case (1 n)
  show ?case
  proof (cases "n < 10")
    case True
    then show ?thesis by (subst to_string.simps) (simp add: digits_value_def)
  next
    case False
    with 1 show ?thesis by (subst to_string.simps) (simp add: digits_value_snoc)
  qed
qed

lemma takeWhile_to_string:
  assumes "r = [] \<or> \<not> isdigit (hd r)"
  shows "takeWhile isdigit (to_string n @ r) = to_string n"
  using assms to_string_digits [of n] by (cases r) (auto simp: takeWhile_append2)

lemma isdigit_not_space: "isdigit c \<Longrightarrow> \<not> isspace c"
  by (auto simp: isdigit_def isspace_def)

lemma isdigit_not_sign: "isdigit c \<Longrightarrow> c \<noteq> CHR ''-'' \<and> c \<noteq> CHR ''+''"
  by (auto simp: isdigit_def code_def)

lemma to_string_Cons: "\<exists>c cs. to_string n = c # cs \<and> isdigit c"
  using to_string_digits [of n] by (cases "to_string n") auto

theorem stoull_to_string:
  assumes "n < W64" "r = [] \<or> \<not> isdigit (hd r)"
  shows "stoull (to_string n @ r) = Inr (of_nat n)"
proof -
  obtain c cs where c: "to_string n = c # cs" "isdigit c" using to_string_Cons by blast
  then have "dropWhile isspace (to_string n @ r) = to_string n @ r"
    by (simp add: isdigit_not_space)
  moreover have "strip_sign (to_string n @ r) = (False, to_string n @ r)"
    using c isdigit_not_sign [OF c(2)] by (simp add: strip_sign_def)
  ultimately show ?thesis
    using assms(1) takeWhile_to_string [OF assms(2), of n] by (simp add: stoull_def)
qed

lemma to_string_inj [simp]: "to_string m = to_string n \<longleftrightarrow> m = n"
  by (metis digits_value_to_string)

end
