(* ===== verification/UnitTk.thy ===== *)
theory UnitTk
  imports Decimal
begin

text \<open>
  The conversions of \<open>toolkits/UnitTk.cpp\<close> between numbers and human-readable strings that
  need no floating point: sizes with a unit suffix to bytes, and elapsed times to strings.
\<close>

subsection \<open>Definitions\<close>

text \<open>\<open>std::atoll\<close>: the leading number of a string, saturating at the limits of the type.\<close>

definition atoll :: "string \<Rightarrow> int" where
  "atoll s =
     (let (neg, r) = strip_sign (dropWhile isspace s);
          v = int (digits_value (takeWhile isdigit r))
      in if neg then max (- v) (- (2 ^ 63)) else min v (2 ^ 63 - 1))"

definition toupper :: "char \<Rightarrow> char" where
  "toupper c = (if 97 \<le> code c \<and> code c \<le> 122 then char_of (code c - 32) else c)"

definition numHumanToBytesBinary :: "string \<Rightarrow> bool \<Rightarrow> u64 result" where
  "numHumanToBytesBinary numHuman throwOnEmpty =
     (if numHuman = [] then
        if throwOnEmpty then Inl (ProgException ''Unable to parse empty string'') else Inr 0
      else if CHR ''.'' \<in> set numHuman then
        Inl (ProgException ''Unable to parse number string containing '.' character: '')
      else if CHR '','' \<in> set numHuman then
        Inl (ProgException ''Unable to parse number string containing ',' character: '')
      else if CHR ''-'' \<in> set numHuman then
        Inl (ProgException ''Unable to parse value: '')
      else
        let bytesRes = of_int (atoll numHuman) :: u64;
            lastChar = numHuman ! (length numHuman - 1)
        in if isdigit lastChar then Inr bytesRes
           else
             let u = toupper lastChar in
             if u = CHR ''K'' then Inr (bytesRes * push_bit 10 1)
             else if u = CHR ''M'' then Inr (bytesRes * push_bit 20 1)
             else if u = CHR ''G'' then Inr (bytesRes * push_bit 30 1)
             else if u = CHR ''T'' then Inr (bytesRes * push_bit 40 1)
             else if u = CHR ''P'' then Inr (bytesRes * push_bit 50 1)
             else if u = CHR ''E'' then Inr (bytesRes * push_bit 60 1)
             else Inl (ProgException ''Unable to parse string for unit conversion: ''))"

definition elapsedSecToHumanStr :: "u64 \<Rightarrow> string" where
  "elapsedSecToHumanStr elapsedSec =
     (let numHours = elapsedSec div 3600;
          numMin = (elapsedSec mod 3600) div 60;
          numSec = elapsedSec mod 60
      in if numHours \<noteq> 0 then
           to_string (unat numHours) @ ''h'' @ to_string (unat numMin) @ ''m'' @
           to_string (unat numSec) @ ''s''
         else if numMin \<noteq> 0 then
           to_string (unat numMin) @ ''m'' @ to_string (unat numSec) @ ''s''
         else to_string (unat numSec) @ ''s'')"

text \<open>\<open>std::setw(3) << std::setfill('0')\<close>\<close>

definition setw3_0 :: "string \<Rightarrow> string" where
  "setw3_0 s = replicate (3 - length s) (CHR ''0'') @ s"

definition elapsedMSToHumanStr :: "u64 \<Rightarrow> string" where
  "elapsedMSToHumanStr elapsedMS =
     (let elapsedSec = elapsedMS div 1000;
          numHours = elapsedSec div 3600;
          numMin = (elapsedSec mod 3600) div 60;
          numSec = elapsedSec mod 60;
          numMS = elapsedMS mod 1000
      in if numHours \<noteq> 0 then
           to_string (unat numHours) @ ''h'' @ to_string (unat numMin) @ ''m'' @
           to_string (unat numSec) @ ''s''
         else if numMin \<noteq> 0 then
           to_string (unat numMin) @ ''m'' @ to_string (unat numSec) @ ''.'' @
           setw3_0 (to_string (unat numMS)) @ ''s''
         else if numSec \<noteq> 0 then
           to_string (unat numSec) @ ''.'' @ setw3_0 (to_string (unat numMS)) @ ''s''
         else to_string (unat numMS) @ ''ms'')"

subsection \<open>Sizes\<close>

lemma atoll_to_string:
  assumes "r = [] \<or> \<not> isdigit (hd r)"
  shows "atoll (to_string n @ r) = min (int n) (2 ^ 63 - 1)"
proof -
  obtain c cs where c: "to_string n = c # cs" "isdigit c" using to_string_Cons by blast
  then have "dropWhile isspace (to_string n @ r) = to_string n @ r"
    by (simp add: isdigit_not_space)
  moreover have "strip_sign (to_string n @ r) = (False, to_string n @ r)"
    using c isdigit_not_sign [OF c(2)] by (simp add: strip_sign_def)
  ultimately show ?thesis
    using takeWhile_to_string [OF assms, of n] by (simp add: atoll_def)
qed

lemma digits_no_punctuation:
  "CHR ''.'' \<notin> set (to_string n)" "CHR '','' \<notin> set (to_string n)" "CHR ''-'' \<notin> set (to_string n)"
  "CHR '':'' \<notin> set (to_string n)"
  using to_string_digits [of n] by (auto simp: isdigit_def code_def)

lemma numHumanToBytesBinary_plain:
  assumes "n < 2 ^ 63"
  shows "numHumanToBytesBinary (to_string n) t = Inr (of_nat n)"
proof -
  have "isdigit (to_string n ! (length (to_string n) - 1))"
    using to_string_digits [of n] by simp
  moreover have "atoll (to_string n) = int n"
    using atoll_to_string [of "[]" n] assms by simp
  ultimately show ?thesis
    by (simp add: numHumanToBytesBinary_def digits_no_punctuation)
qed

text \<open>The exponent of each unit letter.\<close>

definition unit_exponent :: "char \<Rightarrow> nat option" where
  "unit_exponent u = map_of (zip ''KMGTPE'' [10, 20, 30, 40, 50, 60]) (toupper u)"

lemma numHumanToBytesBinary_unit:
  assumes "n < 2 ^ 63" "unit_exponent u = Some e"
  shows "numHumanToBytesBinary (to_string n @ [u]) t = Inr (of_nat n * 2 ^ e)"
proof -
  have u: "\<not> isdigit u" "u \<noteq> CHR ''.''" "u \<noteq> CHR '',''" "u \<noteq> CHR ''-''"
    using assms(2) by (auto simp: unit_exponent_def toupper_def isdigit_def code_def split: if_splits)
  have a: "atoll (to_string n @ [u]) = int n"
    using atoll_to_string [of "[u]" n] u(1) assms(1) by simp
  show ?thesis
    using assms(2) u a
    by (auto simp: numHumanToBytesBinary_def digits_no_punctuation Let_def nth_append
        unit_exponent_def push_bit_eq_mult split: if_splits)
qed

subsection \<open>Elapsed times\<close>

lemma to_string_prefix_eq:
  assumes "\<not> isdigit c" "\<not> isdigit d" "to_string a @ c # r = to_string b @ d # q"
  shows "a = b \<and> c = d \<and> r = q"
proof -
  have "to_string a = to_string b"
    using takeWhile_to_string [of "c # r" a] takeWhile_to_string [of "d # q" b] assms by simp
  with assms(3) show ?thesis by simp
qed

lemma to_string_append_eq:
  assumes "\<not> isdigit c" "\<not> isdigit d"
  shows "to_string a @ c # r = to_string b @ d # q \<longleftrightarrow> a = b \<and> c = d \<and> r = q"
  by (rule iffI, rule to_string_prefix_eq [OF assms], assumption) simp

lemma unit_letters_not_digits [simp]:
  "\<not> isdigit (CHR ''h'')" "\<not> isdigit (CHR ''m'')" "\<not> isdigit (CHR ''s'')" "\<not> isdigit (CHR ''.'')"
  by (simp_all add: isdigit_def code_def)

lemma hms_unique:
  assumes "n div 3600 = k div 3600" "(n mod 3600) div 60 = (k mod 3600) div 60" "n mod 60 = k mod (60 :: nat)"
  shows "n = k"
proof -
  have d: "(60 :: nat) dvd 3600" by simp
  have "x = 3600 * (x div 3600) + (60 * (x mod 3600 div 60) + x mod 60)" for x :: nat
    using div_mult_mod_eq [of x 3600] div_mult_mod_eq [of "x mod 3600" 60] mod_mod_cancel [OF d, of x]
    by linarith
  from this [of n] this [of k] show ?thesis using assms by simp
qed

lemma elapsedSec_fields:
  "unat (x div 3600 :: u64) = unat x div 3600" "unat ((x mod 3600) div 60 :: u64) = (unat x mod 3600) div 60"
  "unat (x mod 60 :: u64) = unat x mod 60"
  by (simp_all add: nat_of_word)

definition hms_string :: "nat \<Rightarrow> nat \<Rightarrow> nat \<Rightarrow> string" where
  "hms_string h m s =
     (if h \<noteq> 0 then to_string h @ ''h'' @ to_string m @ ''m'' @ to_string s @ ''s''
      else if m \<noteq> 0 then to_string m @ ''m'' @ to_string s @ ''s''
      else to_string s @ ''s'')"

lemma hms_string_inj:
  "hms_string h m s = hms_string h' m' s' \<Longrightarrow> h = h' \<and> m = m' \<and> s = s'"
  unfolding hms_string_def
  by (cases "h = 0"; cases "h' = 0"; cases "m = 0"; cases "m' = 0")
    (simp_all add: to_string_append_eq)

lemma elapsedSecToHumanStr_hms:
  "elapsedSecToHumanStr x =
     hms_string (unat x div 3600) ((unat x mod 3600) div 60) (unat x mod 60)"
  by (simp only: elapsedSecToHumanStr_def Let_def hms_string_def elapsedSec_fields
      unat_eq_zero [symmetric])

subsection \<open>Properties\<close>

text \<open>
  A decimal number below \<open>2^63\<close> followed by no unit or by one of the letters K, M, G, T, P,
  E in either case is parsed to that number of bytes times the power of 1024 of the unit,
  reduced modulo \<open>2^64\<close> where the product does not fit.
\<close>

theorem numHumanToBytesBinary_value:
  assumes "n < 2 ^ 63"
  shows "numHumanToBytesBinary (to_string n) t = Inr (of_nat n) \<and>
    (\<forall>u e. unit_exponent u = Some e \<longrightarrow>
       (\<exists>r. numHumanToBytesBinary (to_string n @ [u]) t = Inr r \<and> unat r = n * 2 ^ e mod W64))"
proof -
  have "unat (of_nat n * 2 ^ e :: u64) = n * 2 ^ e mod W64" for e
  proof -
    have "of_nat n * 2 ^ e = (of_nat (n * 2 ^ e) :: u64)" by simp
    then show ?thesis by (simp only: unat_of_nat) simp
  qed
  then show ?thesis
    using numHumanToBytesBinary_plain [OF assms] numHumanToBytesBinary_unit [OF assms] by simp
qed

theorem numHumanToBytesBinary_value_witness:
  "numHumanToBytesBinary ''4096'' True = Inr 4096 \<and>
   (\<exists>r. numHumanToBytesBinary ''4096k'' True = Inr r \<and> unat r = 4194304)"
proof -
  have s: "to_string 4096 = ''4096''" by (simp add: to_string.simps)
  have u: "unit_exponent (CHR ''k'') = Some 10" by code_simp
  show ?thesis
    using numHumanToBytesBinary_value [of 4096 True, THEN conjunct1]
      numHumanToBytesBinary_value [of 4096 True, THEN conjunct2, rule_format, OF _ u] s
    by simp
qed

text \<open>
  The elapsed-time string of a number of seconds determines that number: no two different
  durations are shown with the same string.
\<close>

theorem elapsedSecToHumanStr_inj: "inj elapsedSecToHumanStr"
proof (rule injI)
  fix x y
  assume "elapsedSecToHumanStr x = elapsedSecToHumanStr y"
  then have "unat x div 3600 = unat y div 3600 \<and>
      (unat x mod 3600) div 60 = (unat y mod 3600) div 60 \<and> unat x mod 60 = unat y mod 60"
    unfolding elapsedSecToHumanStr_hms by (rule hms_string_inj)
  then have "unat x = unat y" using hms_unique [of "unat x" "unat y"] by blast
  then show "x = y" by (rule unat_eq_iff_u64 [THEN iffD2])
qed

end
