(* ===== verification/RandAlgo.thy ===== *)
theory RandAlgo
  imports Prelude
begin

text \<open>
  The random number generators of \<open>toolkits/random\<close>: xoshiro256**, the N-way xoshiro256++,
  the golden-prime generator, the Mersenne Twister wrapper (with the standard library's
  \<open>std::mt19937_64\<close>), the virtual interface \<open>RandAlgoInterface\<close> over them, the selector and
  the range wrapper. The values of \<open>std::random_device\<close> are an argument \<open>rd\<close>: \<open>rd i\<close> is the
  i-th value drawn. A buffer that \<open>fillBuf\<close> writes is returned as the list of its bytes.
\<close>

subsection \<open>Buffers of 64-bit values\<close>

text \<open>The bytes of a 64-bit value in memory, on a little-endian machine.\<close>

definition le_bytes :: "u64 \<Rightarrow> u8 list" where
  "le_bytes x = map (\<lambda>i. ucast (drop_bit (8 * i) x)) [0..<8]"

text \<open>The loop that stores \<open>n\<close> successive values, for a generator with step \<open>nx\<close>.\<close>

fun fill_u64s :: "('s \<Rightarrow> u64 \<times> 's) \<Rightarrow> nat \<Rightarrow> 's \<Rightarrow> u8 list \<times> 's" where
  "fill_u64s nx 0 s = ([], s)"
| "fill_u64s nx (Suc n) s =
     (let (x, s') = nx s; (bs, s'') = fill_u64s nx n s' in (le_bytes x @ bs, s''))"

definition fill_remainder :: "('s \<Rightarrow> u64 \<times> 's) \<Rightarrow> u64 \<Rightarrow> u8 list \<Rightarrow> 's \<Rightarrow> u8 list \<times> 's" where
  "fill_remainder nx bufLen bs s =
     (let numBytesDone = of_nat (length bs) in
      if numBytesDone = bufLen then (bs, s)
      else let (x, s') = nx s in (bs @ take (unat (bufLen - numBytesDone)) (le_bytes x), s'))"

definition fill_sequential :: "('s \<Rightarrow> u64 \<times> 's) \<Rightarrow> u64 \<Rightarrow> 's \<Rightarrow> u8 list \<times> 's" where
  "fill_sequential nx bufLen s =
     (let (bs, s') = fill_u64s nx (unat (bufLen div 8)) s in fill_remainder nx bufLen bs s')"

subsection \<open>xoshiro256**\<close>

definition rol64 :: "u64 \<Rightarrow> nat \<Rightarrow> u64" where
  "rol64 x k = push_bit k x OR drop_bit (64 - k) x"

record xoshiro256ss =
  ss0 :: u64
  ss1 :: u64
  ss2 :: u64
  ss3 :: u64

definition seed64 :: "u32 \<Rightarrow> u32 \<Rightarrow> u64" where
  "seed64 a b = push_bit 32 (ucast a) OR ucast b"

definition xoshiro256ss_new :: "(nat \<Rightarrow> u32) \<Rightarrow> xoshiro256ss" where
  "xoshiro256ss_new rd =
     \<lparr>ss0 = seed64 (rd 0) (rd 1), ss1 = seed64 (rd 2) (rd 3),
      ss2 = seed64 (rd 4) (rd 5), ss3 = seed64 (rd 6) (rd 7)\<rparr>"

definition xoshiro256ss_next :: "xoshiro256ss \<Rightarrow> u64 \<times> xoshiro256ss" where
  "xoshiro256ss_next st =
     (let result = rol64 (ss1 st * 5) 7 * 9;
          t = push_bit 17 (ss1 st);
          st = st\<lparr>ss2 := ss2 st XOR ss0 st\<rparr>;
          st = st\<lparr>ss3 := ss3 st XOR ss1 st\<rparr>;
          st = st\<lparr>ss1 := ss1 st XOR ss2 st\<rparr>;
          st = st\<lparr>ss0 := ss0 st XOR ss3 st\<rparr>;
          st = st\<lparr>ss2 := ss2 st XOR t\<rparr>;
          st = st\<lparr>ss3 := rol64 (ss3 st) 45\<rparr>
      in (result, st))"

definition xoshiro256ss_fillBuf :: "u64 \<Rightarrow> xoshiro256ss \<Rightarrow> u8 list \<times> xoshiro256ss" where
  "xoshiro256ss_fillBuf = fill_sequential xoshiro256ss_next"

subsection \<open>N-way xoshiro256++\<close>

text \<open>\<open>state.s[i][j]\<close> is entry \<open>j\<close> of the row \<open>sv<i>\<close>.\<close>

record xoshiro256pp =
  sv0 :: "u64 list"
  sv1 :: "u64 list"
  sv2 :: "u64 list"
  sv3 :: "u64 list"

definition xoshiro256pp_new :: "nat \<Rightarrow> (nat \<Rightarrow> u32) \<Rightarrow> xoshiro256pp" where
  "xoshiro256pp_new nway rd =
     (let row = (\<lambda>i. map (\<lambda>j. seed64 (rd (2 * (i * nway + j))) (rd (2 * (i * nway + j) + 1))) [0..<nway])
      in \<lparr>sv0 = row 0, sv1 = row 1, sv2 = row 2, sv3 = row 3\<rparr>)"

text \<open>A loop \<open>for(i < n) a[i] = f(a[i], b[i])\<close>: the entries from \<open>n\<close> on keep their value.\<close>

fun lanes :: "nat \<Rightarrow> (u64 \<Rightarrow> u64 \<Rightarrow> u64) \<Rightarrow> u64 list \<Rightarrow> u64 list \<Rightarrow> u64 list" where
  "lanes (Suc n) f (a # as) (b # bs) = f a b # lanes n f as bs"
| "lanes n f as bs = as"

definition xoshiro256pp_nextNway :: "nat \<Rightarrow> xoshiro256pp \<Rightarrow> u64 list \<times> xoshiro256pp" where
  "xoshiro256pp_nextNway n st =
     (let x = take n (lanes n (+) (sv0 st) (sv3 st));
          r = lanes n (\<lambda>x s. (push_bit 23 x OR drop_bit 41 x) + s) x (sv0 st);
          t = lanes n (\<lambda>_ s. push_bit 17 s) (replicate n 0) (sv1 st);
          st = st\<lparr>sv2 := lanes n (XOR) (sv2 st) (sv0 st)\<rparr>;
          st = st\<lparr>sv3 := lanes n (XOR) (sv3 st) (sv1 st)\<rparr>;
          st = st\<lparr>sv1 := lanes n (XOR) (sv1 st) (sv2 st)\<rparr>;
          st = st\<lparr>sv0 := lanes n (XOR) (sv0 st) (sv3 st)\<rparr>;
          st = st\<lparr>sv2 := lanes n (XOR) (sv2 st) t\<rparr>;
          st = st\<lparr>sv3 := lanes n (\<lambda>s _. push_bit 45 s OR drop_bit 19 s) (sv3 st) (sv3 st)\<rparr>
      in (r, st))"

definition xoshiro256pp_next :: "xoshiro256pp \<Rightarrow> u64 \<times> xoshiro256pp" where
  "xoshiro256pp_next st = (let (r, st') = xoshiro256pp_nextNway 1 st in (hd r, st'))"

fun xoshiro256pp_fill_Nway :: "nat \<Rightarrow> nat \<Rightarrow> xoshiro256pp \<Rightarrow> u8 list \<times> xoshiro256pp" where
  "xoshiro256pp_fill_Nway nway 0 st = ([], st)"
| "xoshiro256pp_fill_Nway nway (Suc k) st =
     (let (r, st') = xoshiro256pp_nextNway nway st;
          (bs, st'') = xoshiro256pp_fill_Nway nway k st'
      in (concat (map le_bytes r) @ bs, st''))"

definition xoshiro256pp_fillBuf :: "nat \<Rightarrow> u64 \<Rightarrow> xoshiro256pp \<Rightarrow> u8 list \<times> xoshiro256pp" where
  "xoshiro256pp_fillBuf nway bufLen st =
     (let (bs, st1) = xoshiro256pp_fill_Nway nway (unat (bufLen div (8 * of_nat nway))) st in
      if of_nat (length bs) = bufLen then (bs, st1)
      else
        let (bs', st2) = fill_u64s xoshiro256pp_next
                           (unat (bufLen div 8) - unat (of_nat (length bs) div 8 :: u64)) st1
        in fill_remainder xoshiro256pp_next bufLen (bs @ bs') st2)"

subsection \<open>Golden primes\<close>

definition RandAlgoGoldenPrimes :: "u64 list" where
  "RandAlgoGoldenPrimes =
     [0x9e37fffffffc0001, 0x9e3779b97f4a7c15, 0xbf58476d1ce4e5b9, 0x94d049bb133111eb]"

definition RANDALGO_GOLDEN_RESEED_SIZE :: u64 where
  "RANDALGO_GOLDEN_RESEED_SIZE = 256 * 1024"

record goldenprime =
  stateSeeder :: xoshiro256ss
  gp_state :: u64
  currentGoldenPrimeIdx :: u32

definition goldenprime_new :: "(nat \<Rightarrow> u32) \<Rightarrow> goldenprime" where
  "goldenprime_new rd =
     (let (state, seeder) = xoshiro256ss_next (xoshiro256ss_new rd)
      in \<lparr>stateSeeder = seeder, gp_state = state, currentGoldenPrimeIdx = ucast (state mod 4)\<rparr>)"

definition goldenprime_new_seeded :: "(nat \<Rightarrow> u32) \<Rightarrow> u64 \<Rightarrow> goldenprime" where
  "goldenprime_new_seeded rd seed =
     \<lparr>stateSeeder = xoshiro256ss_new rd, gp_state = seed,
      currentGoldenPrimeIdx = ucast (seed mod 4)\<rparr>"

definition goldenprime_next :: "goldenprime \<Rightarrow> u64 \<times> goldenprime" where
  "goldenprime_next st =
     (let s = gp_state st * RandAlgoGoldenPrimes ! unat (currentGoldenPrimeIdx st);
          s = drop_bit 3 s
      in (s, st\<lparr>gp_state := s\<rparr>))"

definition goldenprime_reseed :: "goldenprime \<Rightarrow> goldenprime" where
  "goldenprime_reseed st =
     (let (state, seeder) = xoshiro256ss_next (stateSeeder st)
      in st\<lparr>stateSeeder := seeder, gp_state := state,
            currentGoldenPrimeIdx := (currentGoldenPrimeIdx st + 1) mod 4\<rparr>)"

definition goldenprime_fillBufNoReseed :: "u64 \<Rightarrow> goldenprime \<Rightarrow> u8 list \<times> goldenprime" where
  "goldenprime_fillBufNoReseed = fill_sequential goldenprime_next"

text \<open>The loop of \<open>fillBuf\<close>, on the number of bytes that are still to be filled.\<close>

function goldenprime_fillBuf :: "u64 \<Rightarrow> goldenprime \<Rightarrow> u8 list \<times> goldenprime" where
  "goldenprime_fillBuf left st =
     (if RANDALGO_GOLDEN_RESEED_SIZE \<le> left
      then
        let (bs, st') = goldenprime_fillBufNoReseed RANDALGO_GOLDEN_RESEED_SIZE (goldenprime_reseed st);
            (bs', st'') = goldenprime_fillBuf (left - RANDALGO_GOLDEN_RESEED_SIZE) st'
        in (bs @ bs', st'')
      else goldenprime_fillBufNoReseed left (goldenprime_reseed st))"
  by pat_completeness auto
termination
  by (relation "measure (\<lambda>(n, _). unat n)")
    (auto simp: RANDALGO_GOLDEN_RESEED_SIZE_def word_le_nat_alt nat_of_word)

subsection \<open>Mersenne Twister\<close>

text \<open>
  \<open>std::mt19937_64\<close> as the C++ standard defines it; the state is the list of the last 312
  values of the recurrence, oldest first.
\<close>

type_synonym mt19937_64 = "u64 list"

fun mt_seed_values :: "nat \<Rightarrow> u64 \<Rightarrow> nat \<Rightarrow> u64 list" where
  "mt_seed_values i x 0 = []"
| "mt_seed_values i x (Suc n) =
     (let x' = 6364136223846793005 * (x XOR drop_bit 62 x) + of_nat i
      in x' # mt_seed_values (Suc i) x' n)"

definition mt_new :: "u64 \<Rightarrow> mt19937_64" where
  "mt_new seed = seed # mt_seed_values 1 seed 311"

definition mt_temper :: "u64 \<Rightarrow> u64" where
  "mt_temper z =
     (let z = z XOR (drop_bit 29 z AND 0x5555555555555555);
          z = z XOR (push_bit 17 z AND 0x71D67FFFEDA60000);
          z = z XOR (push_bit 37 z AND 0xFFF7EEE000000000)
      in z XOR drop_bit 43 z)"

definition mt_next :: "mt19937_64 \<Rightarrow> u64 \<times> mt19937_64" where
  "mt_next st =
     (let y = (st ! 0 AND 0xFFFFFFFF80000000) OR (st ! 1 AND 0x7FFFFFFF);
          x = st ! 156 XOR drop_bit 1 y XOR (if bit y 0 then 0xB5026F5AA96619E9 else 0)
      in (mt_temper x, tl st @ [x]))"

definition mt19937_new :: "(nat \<Rightarrow> u32) \<Rightarrow> mt19937_64" where
  "mt19937_new rd = mt_new (ucast (rd 0))"

definition mt19937_fillBuf :: "u64 \<Rightarrow> mt19937_64 \<Rightarrow> u8 list \<times> mt19937_64" where
  "mt19937_fillBuf = fill_sequential mt_next"

subsection \<open>The interface and the selector\<close>

text \<open>The classes behind a reference to \<open>RandAlgoInterface\<close>, and the virtual calls.\<close>

datatype rand_algo =
    RandAlgoMT19937 mt19937_64
  | RandAlgoXoshiro256ss xoshiro256ss
  | RandAlgoXoshiro256ppSIMD xoshiro256pp
  | RandAlgoGoldenPrime goldenprime

fun rand_next :: "rand_algo \<Rightarrow> u64 \<times> rand_algo" where
  "rand_next (RandAlgoMT19937 s) = map_prod id RandAlgoMT19937 (mt_next s)"
| "rand_next (RandAlgoXoshiro256ss s) = map_prod id RandAlgoXoshiro256ss (xoshiro256ss_next s)"
| "rand_next (RandAlgoXoshiro256ppSIMD s) = map_prod id RandAlgoXoshiro256ppSIMD (xoshiro256pp_next s)"
| "rand_next (RandAlgoGoldenPrime s) = map_prod id RandAlgoGoldenPrime (goldenprime_next s)"

text \<open>The template parameter \<open>Nway\<close> has its default value 4 wherever the class is used.\<close>

abbreviation Nway :: nat where "Nway \<equiv> 4"

fun rand_fillBuf :: "u64 \<Rightarrow> rand_algo \<Rightarrow> u8 list \<times> rand_algo" where
  "rand_fillBuf n (RandAlgoMT19937 s) = map_prod id RandAlgoMT19937 (mt19937_fillBuf n s)"
| "rand_fillBuf n (RandAlgoXoshiro256ss s) =
     map_prod id RandAlgoXoshiro256ss (xoshiro256ss_fillBuf n s)"
| "rand_fillBuf n (RandAlgoXoshiro256ppSIMD s) =
     map_prod id RandAlgoXoshiro256ppSIMD (xoshiro256pp_fillBuf Nway n s)"
| "rand_fillBuf n (RandAlgoGoldenPrime s) =
     map_prod id RandAlgoGoldenPrime (goldenprime_fillBuf n s)"

datatype rand_algo_type =
    RandAlgo_INVALID
  | RandAlgo_MT19937
  | RandAlgo_XOSHIRO256SS
  | RandAlgo_XOSHIRO256PP8XSIMD
  | RandAlgo_GOLDENRATIOPRIME

definition rand_stringToEnum :: "string \<Rightarrow> rand_algo_type" where
  "rand_stringToEnum algoString =
     (if algoString = ''strong'' then RandAlgo_MT19937
      else if algoString = ''balanced'' then RandAlgo_XOSHIRO256PP8XSIMD
      else if algoString = ''balanced_single'' then RandAlgo_XOSHIRO256SS
      else if algoString = ''fast'' then RandAlgo_GOLDENRATIOPRIME
      else RandAlgo_INVALID)"

definition rand_stringToAlgo :: "string \<Rightarrow> (nat \<Rightarrow> u32) \<Rightarrow> rand_algo result" where
  "rand_stringToAlgo algoString rd =
     (if algoString = ''strong'' then Inr (RandAlgoMT19937 (mt19937_new rd))
      else if algoString = ''balanced_single'' then Inr (RandAlgoXoshiro256ss (xoshiro256ss_new rd))
      else if algoString = ''balanced'' then Inr (RandAlgoXoshiro256ppSIMD (xoshiro256pp_new Nway rd))
      else if algoString = ''fast'' then Inr (RandAlgoGoldenPrime (goldenprime_new rd))
      else Inl (ProgException ''Invalid random algo: ''))"

subsection \<open>Random values in a range\<close>

record rand_range =
  rr_start :: u64
  lengthPlusOne :: u64

definition rand_range_reset :: "u64 \<Rightarrow> u64 \<Rightarrow> rand_range result" where
  "rand_range_reset lo hi =
     (if hi < lo then Inl (ProgException ''RandAlgoRange: max < min not allowed. '')
      else Inr \<lparr>rr_start = lo, lengthPlusOne = hi - lo + 1\<rparr>)"

definition rand_range_new :: "u64 \<Rightarrow> u64 \<Rightarrow> rand_range result" where
  "rand_range_new lo hi =
     (let r = \<lparr>rr_start = lo, lengthPlusOne = hi - lo + 1\<rparr>
      in if hi < lo then Inl (ProgException ''RandAlgoRange: max < min not allowed. '') else Inr r)"

definition rand_range_next :: "rand_range \<Rightarrow> rand_algo \<Rightarrow> (u64 \<times> rand_algo) result" where
  "rand_range_next r ra =
     (let (v, ra') = rand_next ra
      in if lengthPlusOne r = 0 then Inl (Fault ''division by zero'')
         else Inr (v mod lengthPlusOne r + rr_start r, ra'))"

subsection \<open>What a filled buffer holds\<close>

text \<open>The first \<open>n\<close> values of a generator, and its state after them.\<close>

fun outputs :: "('s \<Rightarrow> u64 \<times> 's) \<Rightarrow> nat \<Rightarrow> 's \<Rightarrow> u64 list \<times> 's" where
  "outputs nx 0 s = ([], s)"
| "outputs nx (Suc n) s = (let (x, s') = nx s; (xs, s'') = outputs nx n s' in (x # xs, s''))"

lemma length_le_bytes [simp]: "length (le_bytes x) = 8"
  by (simp add: le_bytes_def)

lemma length_outputs [simp]: "length (fst (outputs nx n s)) = n"
  by (induction n arbitrary: s) (auto simp: split_beta)

lemma outputs_Suc_snoc:
  "outputs nx (Suc n) s =
     (let (xs, s') = outputs nx n s; (x, s'') = nx s' in (xs @ [x], s''))"
  by (induction n arbitrary: s) (simp_all add: split_beta Let_def)

lemma outputs_add:
  "outputs nx (a + b) s = (let (xs, s') = outputs nx a s; (ys, s'') = outputs nx b s' in (xs @ ys, s''))"
  by (induction a arbitrary: s) (simp_all add: split_beta Let_def)

lemma fill_u64s_outputs:
  "fill_u64s nx n s = map_prod (\<lambda>xs. concat (map le_bytes xs)) id (outputs nx n s)"
  by (induction n arbitrary: s) (auto simp: split_beta)

lemma length_concat_le_bytes [simp]: "length (concat (map le_bytes xs)) = 8 * length xs"
  by (induction xs) auto

lemma length_fill_u64s [simp]: "length (fst (fill_u64s nx n s)) = 8 * n"
  by (simp add: fill_u64s_outputs)

text \<open>
  When the stored bytes fill the buffer up to less than one more value, the remainder step
  completes it.
\<close>

lemma fill_remainder_length:
  assumes "length bs \<le> unat n" "unat n < length bs + 8"
  shows "length (fst (fill_remainder nx n bs s)) = unat n"
proof -
  have u: "unat (of_nat (length bs) :: u64) = length bs"
    using assms(1) unat_less_W64 [of n] by (intro unat_of_nat_no) linarith
  then have "unat (n - of_nat (length bs)) = unat n - length bs"
    using assms(1) by (simp add: nat_of_word)
  moreover have "of_nat (length bs) = n \<longleftrightarrow> length bs = unat n"
    using u by auto
  ultimately show ?thesis
    using assms by (auto simp: fill_remainder_def Let_def split_beta)
qed

text \<open>
  The loop over whole values followed by the remainder writes the bytes of the successive
  values of the generator, cut at the length of the buffer.
\<close>

lemma fill_sequential_outputs:
  "fill_sequential nx n s =
     map_prod (\<lambda>xs. take (unat n) (concat (map le_bytes xs))) id (outputs nx ((unat n + 7) div 8) s)"
proof -
  define q where "q = unat n div 8"
  have q8: "8 * q \<le> unat n" "unat n < 8 * q + 8" by (simp_all add: q_def)
  have u: "unat (of_nat (8 * q) :: u64) = 8 * q"
    using q8(1) unat_less_W64 [of n] by (intro unat_of_nat_no) linarith
  obtain xs s' where o: "outputs nx q s = (xs, s')" by fastforce
  then have xs: "length xs = q" using length_outputs [of nx q s] by simp
  have f: "fill_u64s nx (unat (n div 8)) s = (concat (map le_bytes xs), s')"
    using o by (simp add: fill_u64s_outputs nat_of_word q_def)
  show ?thesis
  proof (cases "8 * q = unat n")
    case True
    then have "(unat n + 7) div 8 = q" "n = of_nat (8 * q)"
      by (simp_all add: q_def)
    with True show ?thesis
      using f o xs by (simp add: fill_sequential_def fill_remainder_def)
  next
    case False
    then have suc: "(unat n + 7) div 8 = Suc q" using q8 by (simp add: div_nat_eqI)
    have ne: "of_nat (8 * q) \<noteq> n" using False u by metis
    have "unat (n - of_nat (8 * q)) = unat n - 8 * q"
      using q8(1) u by (simp add: nat_of_word)
    with ne f o xs suc q8(1) show ?thesis
      by (simp add: fill_sequential_def fill_remainder_def outputs_Suc_snoc split_beta Let_def
          del: outputs.simps)
  qed
qed

subsection \<open>The lanes of the N-way generator\<close>

text \<open>
  The scalar xoshiro256++ generator that each lane of the N-way state is meant to run.
\<close>

definition xoshiro256pp_step :: "xoshiro256ss \<Rightarrow> u64 \<times> xoshiro256ss" where
  "xoshiro256pp_step s =
     (rol64 (ss0 s + ss3 s) 23 + ss0 s,
      \<lparr>ss0 = ss0 s XOR (ss3 s XOR ss1 s), ss1 = ss1 s XOR (ss2 s XOR ss0 s),
       ss2 = (ss2 s XOR ss0 s) XOR push_bit 17 (ss1 s), ss3 = rol64 (ss3 s XOR ss1 s) 45\<rparr>)"

definition lane :: "xoshiro256pp \<Rightarrow> nat \<Rightarrow> xoshiro256ss" where
  "lane st i = \<lparr>ss0 = sv0 st ! i, ss1 = sv1 st ! i, ss2 = sv2 st ! i, ss3 = sv3 st ! i\<rparr>"

definition xoshiro256pp_wf :: "nat \<Rightarrow> xoshiro256pp \<Rightarrow> bool" where
  "xoshiro256pp_wf nway st \<longleftrightarrow> length (sv0 st) = nway \<and> length (sv1 st) = nway \<and>
     length (sv2 st) = nway \<and> length (sv3 st) = nway"

lemma length_lanes [simp]: "length (lanes n f as bs) = length as"
  by (induction n f as bs rule: lanes.induct) simp_all

lemma nth_lanes:
  "i < length as \<Longrightarrow> n \<le> length bs \<Longrightarrow>
   lanes n f as bs ! i = (if i < n then f (as ! i) (bs ! i) else as ! i)"
  by (induction n f as bs arbitrary: i rule: lanes.induct) (auto simp: nth_Cons split: nat.splits)

lemma xoshiro256pp_nextNway_wf:
  "xoshiro256pp_wf nway st \<Longrightarrow> n \<le> nway \<Longrightarrow>
   xoshiro256pp_wf nway (snd (xoshiro256pp_nextNway n st)) \<and>
   length (fst (xoshiro256pp_nextNway n st)) = n"
  by (simp add: xoshiro256pp_wf_def xoshiro256pp_nextNway_def Let_def)

lemma xoshiro256pp_nextNway_lane:
  assumes "xoshiro256pp_wf nway st" "n \<le> nway" "i < nway"
  shows "lane (snd (xoshiro256pp_nextNway n st)) i =
      (if i < n then snd (xoshiro256pp_step (lane st i)) else lane st i)"
    and "i < n \<Longrightarrow> fst (xoshiro256pp_nextNway n st) ! i = fst (xoshiro256pp_step (lane st i))"
  using assms
  by (simp_all add: xoshiro256pp_wf_def xoshiro256pp_nextNway_def Let_def lane_def nth_lanes
      xoshiro256pp_step_def rol64_def)

lemma xoshiro256pp_new_wf [simp]: "xoshiro256pp_wf nway (xoshiro256pp_new nway rd)"
  by (simp add: xoshiro256pp_wf_def xoshiro256pp_new_def Let_def)

lemma xoshiro256pp_fill_Nway_wf:
  "xoshiro256pp_wf nway st \<Longrightarrow>
   xoshiro256pp_wf nway (snd (xoshiro256pp_fill_Nway nway k st)) \<and>
   length (fst (xoshiro256pp_fill_Nway nway k st)) = 8 * nway * k"
  by (induction k arbitrary: st)
    (auto simp: split_beta xoshiro256pp_nextNway_wf algebra_simps)

lemma outputs_inv:
  assumes "\<And>s. P s \<Longrightarrow> P (snd (nx s))" "P s"
  shows "P (snd (outputs nx n s))"
  using assms(2) by (induction n arbitrary: s) (simp_all add: split_beta assms(1))

lemma fill_remainder_inv:
  assumes "\<And>s. P s \<Longrightarrow> P (snd (nx s))" "P s"
  shows "P (snd (fill_remainder nx n bs s))"
  using assms by (simp add: fill_remainder_def Let_def split_beta)

lemma xoshiro256pp_next_wf:
  "xoshiro256pp_wf nway st \<Longrightarrow> 0 < nway \<Longrightarrow> xoshiro256pp_wf nway (snd (xoshiro256pp_next st))"
  using xoshiro256pp_nextNway_wf [of nway st 1]
  by (simp add: xoshiro256pp_next_def split_beta)

lemma xoshiro256pp_fillBuf_wf:
  assumes wf: "xoshiro256pp_wf nway st" and nway: "0 < nway" "8 * nway < W64"
  shows "length (fst (xoshiro256pp_fillBuf nway n st)) = unat n \<and>
    xoshiro256pp_wf nway (snd (xoshiro256pp_fillBuf nway n st))"
proof -
  define k where "k = unat (n div (8 * of_nat nway))"
  obtain bs st1 where b: "xoshiro256pp_fill_Nway nway k st = (bs, st1)" by fastforce
  have st1: "xoshiro256pp_wf nway st1" and lb: "length bs = 8 * nway * k"
    using xoshiro256pp_fill_Nway_wf [OF wf, of k] b by auto
  have "unat (8 * of_nat nway :: u64) = 8 * nway"
    using unat_of_nat_no [OF nway(2)] by simp
  then have "k = unat n div (8 * nway)" by (simp add: k_def nat_of_word)
  then have le: "length bs \<le> unat n" by (simp add: lb)
  have u: "unat (of_nat (length bs) :: u64) = length bs"
    using le unat_less_W64 [of n] by (intro unat_of_nat_no) linarith
  define m where "m = unat n div 8 - nway * k"
  have m: "unat (n div 8) - unat (of_nat (length bs) div 8 :: u64) = m"
    using u lb by (simp add: m_def nat_of_word)
  obtain bs' st2 where b': "fill_u64s xoshiro256pp_next m st1 = (bs', st2)" by fastforce
  have lb': "length bs' = 8 * m" using length_fill_u64s [of xoshiro256pp_next m st1] b' by simp
  have nx: "xoshiro256pp_wf nway s \<Longrightarrow> xoshiro256pp_wf nway (snd (xoshiro256pp_next s))" for s
    by (rule xoshiro256pp_next_wf [OF _ nway(1)])
  have st2: "xoshiro256pp_wf nway st2"
    using outputs_inv [of "xoshiro256pp_wf nway" xoshiro256pp_next st1 m, OF nx st1] b'
    by (cases "outputs xoshiro256pp_next m st1") (simp add: fill_u64s_outputs)
  have "length (bs @ bs') = 8 * (unat n div 8)"
    using lb lb' le by (simp add: m_def)
  then have "length (fst (fill_remainder xoshiro256pp_next n (bs @ bs') st2)) = unat n"
    by (intro fill_remainder_length) simp_all
  moreover have "of_nat (length bs) = n \<Longrightarrow> length bs = unat n" using u by auto
  moreover have "xoshiro256pp_wf nway (snd (fill_remainder xoshiro256pp_next n (bs @ bs') st2))"
    using nx st2 by (rule fill_remainder_inv)
  ultimately show ?thesis
    using b b' m st1 st2 by (simp add: xoshiro256pp_fillBuf_def k_def Let_def)
qed

lemma xoshiro256pp_fill_Nway_lanes:
  assumes "xoshiro256pp_wf nway st"
  shows "fst (xoshiro256pp_fill_Nway nway k st) =
    concat (map (\<lambda>j. concat (map (\<lambda>i.
      le_bytes (fst (outputs xoshiro256pp_step k (lane st i)) ! j)) [0..<nway])) [0..<k])"
  using assms
proof (induction k arbitrary: st)
  case (Suc k)
  obtain r st' where n: "xoshiro256pp_nextNway nway st = (r, st')" by fastforce
  have wf': "xoshiro256pp_wf nway st'" and lr: "length r = nway"
    using xoshiro256pp_nextNway_wf [OF Suc.prems, of nway] n by auto
  have l: "r ! i = fst (xoshiro256pp_step (lane st i))"
      "lane st' i = snd (xoshiro256pp_step (lane st i))" if "i < nway" for i
    using xoshiro256pp_nextNway_lane [OF Suc.prems, of nway i] n that by auto
  have "map le_bytes r = map (\<lambda>i. le_bytes (fst (xoshiro256pp_step (lane st i)))) [0..<nway]"
    using lr l by (auto intro!: nth_equalityI)
  moreover have "[0..<Suc k] = 0 # map Suc [0..<k]"
    by (metis map_Suc_upt upt_conv_Cons zero_less_Suc)
  moreover have "concat (map (\<lambda>j. concat (map (\<lambda>i.
        le_bytes (fst (outputs xoshiro256pp_step k (lane st' i)) ! j)) [0..<nway])) [0..<k]) =
      concat (map (\<lambda>j. concat (map (\<lambda>i. le_bytes (fst (outputs xoshiro256pp_step k
        (snd (xoshiro256pp_step (lane st i)))) ! j)) [0..<nway])) [0..<k])"
    by (intro arg_cong [of _ _ concat] map_cong refl) (simp add: l(2))
  ultimately show ?case
    using Suc.IH [OF wf'] n by (simp add: split_beta comp_def del: upt_Suc)
qed simp

subsection \<open>The golden-prime generator\<close>

definition goldenprime_wf :: "goldenprime \<Rightarrow> bool" where
  "goldenprime_wf st \<longleftrightarrow> currentGoldenPrimeIdx st < 4"

lemma mod_4_less: "(x :: u32) mod 4 < 4" "(y :: u64) mod 4 < 4"
  by (simp_all add: word_mod_less_divisor)

lemma goldenprime_next_wf: "goldenprime_wf st \<Longrightarrow> goldenprime_wf (snd (goldenprime_next st))"
  by (simp add: goldenprime_wf_def goldenprime_next_def Let_def)

lemma goldenprime_reseed_wf: "goldenprime_wf (goldenprime_reseed st)"
  by (simp add: goldenprime_wf_def goldenprime_reseed_def split_beta mod_4_less)

lemma fill_sequential_length [simp]: "length (fst (fill_sequential nx n s)) = unat n"
  by (simp add: fill_sequential_outputs)

lemma fill_sequential_inv:
  assumes "\<And>s. P s \<Longrightarrow> P (snd (nx s))" "P s"
  shows "P (snd (fill_sequential nx n s))"
  unfolding fill_sequential_outputs
  using outputs_inv [of P nx s "(unat n + 7) div 8", OF assms] by simp

declare goldenprime_fillBuf.simps [simp del]

lemma goldenprime_fillBuf_wf:
  "length (fst (goldenprime_fillBuf n st)) = unat n \<and> goldenprime_wf (snd (goldenprime_fillBuf n st))"
proof (induction n st rule: goldenprime_fillBuf.induct)
  case (1 n st)
  have wf: "goldenprime_wf (snd (goldenprime_fillBufNoReseed m (goldenprime_reseed st)))" for m
    unfolding goldenprime_fillBufNoReseed_def
    by (rule fill_sequential_inv [OF goldenprime_next_wf goldenprime_reseed_wf])
  have len: "length (fst (goldenprime_fillBufNoReseed m s)) = unat m" for m s
    by (simp add: goldenprime_fillBufNoReseed_def)
  show ?case
  proof (cases "RANDALGO_GOLDEN_RESEED_SIZE \<le> n")
    case True
    then have "unat (n - RANDALGO_GOLDEN_RESEED_SIZE) = unat n - unat RANDALGO_GOLDEN_RESEED_SIZE"
        "unat RANDALGO_GOLDEN_RESEED_SIZE \<le> unat n"
      by (simp_all add: nat_of_word)
    moreover have "length (fst (goldenprime_fillBuf (n - RANDALGO_GOLDEN_RESEED_SIZE) s)) =
          unat (n - RANDALGO_GOLDEN_RESEED_SIZE) \<and>
        goldenprime_wf (snd (goldenprime_fillBuf (n - RANDALGO_GOLDEN_RESEED_SIZE) s))"
      if "s = snd (goldenprime_fillBufNoReseed RANDALGO_GOLDEN_RESEED_SIZE (goldenprime_reseed st))"
      for s
      using 1 [OF True refl prod.collapse] that by simp
    ultimately show ?thesis
      using True len by (subst (1 2) goldenprime_fillBuf.simps) (simp add: split_beta)
  next
    case False
    with wf len show ?thesis by (subst (1 2) goldenprime_fillBuf.simps) simp
  qed
qed

subsection \<open>The contracts\<close>

text \<open>
  What the callers of \<open>RandAlgoInterface\<close> rely on: a call of \<open>fillBuf\<close> writes the whole buffer
  and nothing else, and the object stays usable. \<open>wf\<close> is the class invariant.
\<close>

locale rand_interface =
  fixes nx :: "'s \<Rightarrow> u64 \<times> 's"
    and fb :: "u64 \<Rightarrow> 's \<Rightarrow> u8 list \<times> 's"
    and wf :: "'s \<Rightarrow> bool"
  assumes nx_wf: "wf s \<Longrightarrow> wf (snd (nx s))"
    and fb_wf: "wf s \<Longrightarrow> wf (snd (fb n s))"
    and fb_length: "wf s \<Longrightarrow> length (fst (fb n s)) = unat n"
begin

lemma values_wf: "wf s \<Longrightarrow> wf (snd (outputs nx n s))"
  by (rule outputs_inv [of wf nx, OF nx_wf])

lemma fill_after_values: "wf s \<Longrightarrow> length (fst (fb n (snd (outputs nx k s)))) = unat n"
  by (intro fb_length values_wf)

end

text \<open>
  The stronger contract of the generators that fill a buffer with the very values that
  \<open>next()\<close> would return one by one.
\<close>

locale rand_stream =
  fixes nx :: "'s \<Rightarrow> u64 \<times> 's"
    and fb :: "u64 \<Rightarrow> 's \<Rightarrow> u8 list \<times> 's"
  assumes fb_outputs: "fb n s =
    map_prod (\<lambda>xs. take (unat n) (concat (map le_bytes xs))) id (outputs nx ((unat n + 7) div 8) s)"
begin

lemma fb_length: "length (fst (fb n s)) = unat n"
  by (simp add: fb_outputs)

text \<open>Filling whole values first and the rest afterwards is filling the buffer at once.\<close>

lemma fb_in_two_parts:
  assumes "unat n = 8 * a" "unat n + unat m < W64"
  shows "fb (n + m) s = (let (xs, s') = fb n s; (ys, s'') = fb m s' in (xs @ ys, s''))"
proof -
  have "unat (n + m) = 8 * a + unat m" "(8 * a + unat m + 7) div 8 = a + (unat m + 7) div 8"
    using assms by (simp_all add: nat_of_word)
  then show ?thesis
    using assms(1) by (simp add: fb_outputs outputs_add split_beta Let_def)
qed

end

interpretation xss: rand_stream xoshiro256ss_next xoshiro256ss_fillBuf
  by unfold_locales (simp add: xoshiro256ss_fillBuf_def fill_sequential_outputs)

interpretation mtw: rand_stream mt_next mt19937_fillBuf
  by unfold_locales (simp add: mt19937_fillBuf_def fill_sequential_outputs)

interpretation gpn: rand_stream goldenprime_next goldenprime_fillBufNoReseed
  by unfold_locales (simp add: goldenprime_fillBufNoReseed_def fill_sequential_outputs)

text \<open>The class invariant of the object behind a \<open>RandAlgoInterface\<close> reference.\<close>

definition mt_wf :: "mt19937_64 \<Rightarrow> bool" where
  "mt_wf st \<longleftrightarrow> length st = 312"

fun rand_wf :: "rand_algo \<Rightarrow> bool" where
  "rand_wf (RandAlgoMT19937 s) = mt_wf s"
| "rand_wf (RandAlgoXoshiro256ss s) = True"
| "rand_wf (RandAlgoXoshiro256ppSIMD s) = xoshiro256pp_wf Nway s"
| "rand_wf (RandAlgoGoldenPrime s) = goldenprime_wf s"

lemma mt_next_wf: "mt_wf s \<Longrightarrow> mt_wf (snd (mt_next s))"
  by (simp add: mt_wf_def mt_next_def Let_def)

lemma length_mt_seed_values [simp]: "length (mt_seed_values i x n) = n"
  by (induction i x n rule: mt_seed_values.induct) (simp_all add: Let_def)

lemma rand_next_wf: "rand_wf ra \<Longrightarrow> rand_wf (snd (rand_next ra))"
  by (cases ra) (simp_all add: mt_next_wf xoshiro256pp_next_wf goldenprime_next_wf)

lemma rand_fillBuf_ok:
  assumes "rand_wf ra"
  shows "rand_wf (snd (rand_fillBuf n ra)) \<and> length (fst (rand_fillBuf n ra)) = unat n"
proof (cases ra)
  case (RandAlgoMT19937 s)
  with assms show ?thesis
    using fill_sequential_inv [of mt_wf mt_next s n, OF mt_next_wf]
    by (simp add: mtw.fb_length mt19937_fillBuf_def)
next
  case (RandAlgoXoshiro256ss s)
  then show ?thesis by (simp add: xss.fb_length)
next
  case (RandAlgoXoshiro256ppSIMD s)
  with assms show ?thesis using xoshiro256pp_fillBuf_wf [of Nway s n] by simp
next
  case (RandAlgoGoldenPrime s)
  then show ?thesis using goldenprime_fillBuf_wf [of n s] by simp
qed

interpretation ra: rand_interface rand_next rand_fillBuf rand_wf
  by unfold_locales (simp_all add: rand_next_wf rand_fillBuf_ok)

lemma goldenprime_new_wf: "goldenprime_wf (goldenprime_new rd)"
proof -
  have "unat (ucast (x mod 4 :: u64) :: u32) < 4" for x
  proof -
    have "unat (x mod 4) < 4" using mod_4_less(2) [of x] by (simp add: nat_of_word)
    then show ?thesis by (simp add: unsigned_ucast_eq take_bit_nat_def)
  qed
  then show ?thesis by (simp add: goldenprime_new_def goldenprime_wf_def split_beta word_less_nat_alt)
qed

lemma rand_stringToAlgo_wf: "rand_stringToAlgo str rd = Inr ra \<Longrightarrow> rand_wf ra"
  by (auto simp: rand_stringToAlgo_def mt19937_new_def mt_new_def mt_wf_def goldenprime_new_wf
      split: if_splits)

subsection \<open>Properties\<close>

text \<open>
  C17: Whichever algorithm the selector built, \<open>fillBuf\<close> through the interface writes exactly
  the requested number of bytes, keeps the generator's class invariant, and does so after any
  number of values drawn before.
\<close>

theorem rand_fillBuf_writes_whole_buffer:
  assumes "rand_stringToAlgo algoString rd = Inr ra"
  shows "rand_wf ra \<and> length (fst (rand_fillBuf n (snd (outputs rand_next k ra)))) = unat n \<and>
    rand_wf (snd (rand_fillBuf n (snd (outputs rand_next k ra))))"
  using rand_stringToAlgo_wf [OF assms] ra.fill_after_values ra.fb_wf ra.values_wf by simp

theorem rand_fillBuf_writes_whole_buffer_witness:
  "\<exists>ra. rand_stringToAlgo ''balanced'' (\<lambda>i. of_nat i) = Inr ra \<and>
     length (fst (rand_fillBuf 77 (snd (outputs rand_next 3 ra)))) = 77"
  using rand_fillBuf_writes_whole_buffer
    [of "''balanced''" "\<lambda>i. of_nat i" "RandAlgoXoshiro256ppSIMD (xoshiro256pp_new Nway (\<lambda>i. of_nat i))" 77 3]
  by (simp add: rand_stringToAlgo_def)

text \<open>
  C37: The buffers of xoshiro256**, of the Mersenne Twister and of the golden-prime generator
  between two reseeds hold the little-endian bytes of the values that \<open>next()\<close> returns in
  turn, cut at the buffer's length; filling a buffer in two parts, the first a whole number of
  values, gives the same bytes as filling it at once.
\<close>

theorem sequential_fill_is_value_stream:
  assumes "unat n = 8 * a" "unat n + unat m < W64"
  shows "xoshiro256ss_fillBuf m s =
      map_prod (\<lambda>xs. take (unat m) (concat (map le_bytes xs))) id
        (outputs xoshiro256ss_next ((unat m + 7) div 8) s) \<and>
    mt19937_fillBuf m t =
      map_prod (\<lambda>xs. take (unat m) (concat (map le_bytes xs))) id
        (outputs mt_next ((unat m + 7) div 8) t) \<and>
    goldenprime_fillBufNoReseed m g =
      map_prod (\<lambda>xs. take (unat m) (concat (map le_bytes xs))) id
        (outputs goldenprime_next ((unat m + 7) div 8) g) \<and>
    xoshiro256ss_fillBuf (n + m) s =
      (let (xs, s') = xoshiro256ss_fillBuf n s; (ys, s'') = xoshiro256ss_fillBuf m s' in (xs @ ys, s'')) \<and>
    mt19937_fillBuf (n + m) t =
      (let (xs, t') = mt19937_fillBuf n t; (ys, t'') = mt19937_fillBuf m t' in (xs @ ys, t''))"
  by (intro conjI xss.fb_outputs mtw.fb_outputs gpn.fb_outputs xss.fb_in_two_parts [OF assms]
      mtw.fb_in_two_parts [OF assms])

theorem sequential_fill_is_value_stream_witness:
  "xoshiro256ss_fillBuf (16 + 5) \<lparr>ss0 = 1, ss1 = 2, ss2 = 3, ss3 = 4\<rparr> =
     (let (xs, s') = xoshiro256ss_fillBuf 16 \<lparr>ss0 = 1, ss1 = 2, ss2 = 3, ss3 = 4\<rparr>;
          (ys, s'') = xoshiro256ss_fillBuf 5 s'
      in (xs @ ys, s''))"
  using sequential_fill_is_value_stream [of 16 2 5 "\<lparr>ss0 = 1, ss1 = 2, ss2 = 3, ss3 = 4\<rparr>"] by simp

text \<open>
  C38: The N-way generator runs \<open>nway\<close> independent scalar xoshiro256++ generators: after
  \<open>k\<close> rounds its buffer is the interleaving of their first \<open>k\<close> values, lane by lane within a
  round and round after round.
\<close>

theorem xoshiro256pp_fill_interleaves_lanes:
  "fst (xoshiro256pp_fill_Nway nway k (xoshiro256pp_new nway rd)) =
    concat (map (\<lambda>j. concat (map (\<lambda>i.
      le_bytes (fst (outputs xoshiro256pp_step k (lane (xoshiro256pp_new nway rd) i)) ! j))
        [0..<nway])) [0..<k])"
  by (rule xoshiro256pp_fill_Nway_lanes) simp

text \<open>
  A value drawn from a \<open>RandAlgoRange\<close> made for \<open>lo\<close> to \<open>hi\<close> lies in that range, for every
  accepted range but the one of all \<open>2^64\<close> values, where the modulus wraps to 0 and the
  division traps.
\<close>

theorem rand_range_next_in_range:
  assumes "rand_range_new lo hi = Inr r"
  shows "lo \<le> hi \<and>
    (if lo = 0 \<and> hi = - 1 then rand_range_next r ra = Inl (Fault ''division by zero'')
     else \<exists>v. rand_range_next r ra = Inr (v, snd (rand_next ra)) \<and> lo \<le> v \<and> v \<le> hi)"
proof -
  let ?n = "hi - lo + 1"
  have r: "lo \<le> hi" "r = \<lparr>rr_start = lo, lengthPlusOne = ?n\<rparr>"
    using assms by (auto simp: rand_range_new_def Let_def split: if_splits)
  show ?thesis
  proof (cases "?n = 0")
    case True
    then show ?thesis using r range_wraps_iff [OF r(1)] by (simp add: rand_range_next_def split_beta)
  next
    case False
    then have "x mod ?n < ?n" for x by (simp add: word_mod_less_divisor word_gt_0)
    then show ?thesis
      using r False range_wraps_iff [OF r(1)] range_member [OF r(1) False]
      by (simp add: rand_range_next_def split_beta)
  qed
qed

theorem rand_range_next_in_range_witness:
  "\<exists>r v. rand_range_new 10 19 = Inr r \<and>
     rand_range_next r (RandAlgoXoshiro256ss \<lparr>ss0 = 1, ss1 = 2, ss2 = 3, ss3 = 4\<rparr>) =
       Inr (v, snd (rand_next (RandAlgoXoshiro256ss \<lparr>ss0 = 1, ss1 = 2, ss2 = 3, ss3 = 4\<rparr>))) \<and>
     10 \<le> v \<and> v \<le> 19"
proof -
  have "rand_range_new 10 19 = Inr \<lparr>rr_start = 10, lengthPlusOne = 10\<rparr>" by code_simp
  then show ?thesis
    using rand_range_next_in_range [of 10 19 "\<lparr>rr_start = 10, lengthPlusOne = 10\<rparr>"
        "RandAlgoXoshiro256ss \<lparr>ss0 = 1, ss1 = 2, ss2 = 3, ss3 = 4\<rparr>"]
    by simp
qed

end
