(* ===== verification/BlockSizeMix.thy ===== *)
theory BlockSizeMix
  imports UnitTk RandAlgo
begin

text \<open>
  \<open>toolkits/BlockSizeMix\<close>: the weighted mix of block sizes, its parser and printer and the
  weighted draw. \<open>boost::split\<close> is a parameter \<open>split\<close> of the parser: \<open>split sep s\<close> are the
  parts of \<open>s\<close> between runs of the separator, as with \<open>token_compress_on\<close>.
\<close>

subsection \<open>Definitions\<close>

record block_size_mix =
  sizesAndWeights :: "(u64 \<times> u64) list"
  cumulativeWeights :: "u64 list"
  totalWeight :: u64
  maxSize :: u64
  minSize :: u64

text \<open>The loop over the entries, with the sizes seen so far.\<close>

definition mix_entry :: "(char \<Rightarrow> string \<Rightarrow> string list) \<Rightarrow> u64 set \<Rightarrow> string \<Rightarrow> (u64 \<times> u64) result" where
  "mix_entry split seenSizes entryStr =
     (let sizeAndWeightVec = split (CHR '':'') entryStr in
      if length sizeAndWeightVec \<noteq> 1 \<and> length sizeAndWeightVec \<noteq> 2
      then Inl (ProgException ''Invalid block size mix entry: '')
      else
        bindE (numHumanToBytesBinary (sizeAndWeightVec ! 0) True) (\<lambda>sz.
        bindE (if length sizeAndWeightVec = 2
               then (case stoull (sizeAndWeightVec ! 1) of
                       Inl _ \<Rightarrow> Inl (ProgException ''Invalid weight in block size mix entry: '')
                     | Inr w \<Rightarrow> Inr w)
               else Inr 1) (\<lambda>weight.
          if sz = 0 then Inl (ProgException ''Invalid block size mix entry: '')
          else if weight = 0 then Inl (ProgException ''Invalid block size mix entry: '')
          else if sz \<in> seenSizes
          then Inl (ProgException ''Invalid block size mix: duplicate block size in '')
          else Inr (sz, weight))))"

fun mix_entries :: "(char \<Rightarrow> string \<Rightarrow> string list) \<Rightarrow> u64 set \<Rightarrow> string list \<Rightarrow> (u64 \<times> u64) list result" where
  "mix_entries split seenSizes [] = Inr []"
| "mix_entries split seenSizes (entryStr # rest) =
     (if entryStr = [] then mix_entries split seenSizes rest
      else
        bindE (mix_entry split seenSizes entryStr) (\<lambda>(sz, weight).
        bindE (mix_entries split (insert sz seenSizes) rest) (\<lambda>sws.
          Inr ((sz, weight) # sws))))"

text \<open>The loop that sums the weights up: the total, and the running sums.\<close>

fun mix_cumulate :: "u64 \<Rightarrow> (u64 \<times> u64) list \<Rightarrow> u64 list \<times> u64" where
  "mix_cumulate tot [] = ([], tot)"
| "mix_cumulate tot ((sz, weight) # sws) =
     (let tot' = tot + weight; (cum, t) = mix_cumulate tot' sws in (tot' # cum, t))"

definition mix_build :: "(u64 \<times> u64) list \<Rightarrow> block_size_mix" where
  "mix_build sws =
     (let (cum, tot) = mix_cumulate 0 sws in
      \<lparr>sizesAndWeights = sws, cumulativeWeights = cum, totalWeight = tot,
       maxSize = foldl (\<lambda>m sw. max m (fst sw)) (fst (hd sws)) sws,
       minSize = foldl (\<lambda>m sw. min m (fst sw)) (fst (hd sws)) sws\<rparr>)"

definition mix_parse :: "(char \<Rightarrow> string \<Rightarrow> string list) \<Rightarrow> string \<Rightarrow> block_size_mix result" where
  "mix_parse split blockSizeStr =
     bindE (mix_entries split {} (split (CHR '','') blockSizeStr)) (\<lambda>sws.
       if sws = [] then Inl (ProgException ''Block size mix is empty after parsing: '')
       else Inr (mix_build sws))"

text \<open>The loop of \<open>toString\<close>; its result for the pairs from index \<open>i\<close> on.\<close>

fun mix_string_from :: "nat \<Rightarrow> (u64 \<times> u64) list \<Rightarrow> string" where
  "mix_string_from i [] = []"
| "mix_string_from i ((sz, weight) # sws) =
     (if i \<noteq> 0 then '','' else []) @ to_string (unat sz) @ '':'' @ to_string (unat weight) @
     mix_string_from (Suc i) sws"

definition mix_toString :: "block_size_mix \<Rightarrow> string" where
  "mix_toString mix = mix_string_from 0 (sizesAndWeights mix)"

definition mix_isMix :: "block_size_mix \<Rightarrow> bool" where
  "mix_isMix mix = (1 < length (sizesAndWeights mix))"

text \<open>The loop of \<open>getNextSize\<close> over the running sums, for a drawn weight.\<close>

fun mix_pick :: "u64 \<Rightarrow> u64 list \<Rightarrow> (u64 \<times> u64) list \<Rightarrow> u64 option" where
  "mix_pick drawn (c # cs) ((sz, weight) # sws) =
     (if drawn < c then Some sz else mix_pick drawn cs sws)"
| "mix_pick drawn _ _ = None"

definition mix_drawn_size :: "block_size_mix \<Rightarrow> u64 \<Rightarrow> u64" where
  "mix_drawn_size mix drawnWeight =
     (case mix_pick drawnWeight (cumulativeWeights mix) (sizesAndWeights mix) of
        Some sz \<Rightarrow> sz
      | None \<Rightarrow> fst (last (sizesAndWeights mix)))"

definition mix_getNextSize :: "block_size_mix \<Rightarrow> rand_algo \<Rightarrow> (u64 \<times> rand_algo) result" where
  "mix_getNextSize mix ra =
     (if \<not> mix_isMix mix then Inr (maxSize mix, ra)
      else
        let (v, ra') = rand_next ra in
        if totalWeight mix = 0 then Inl (Fault ''division by zero'')
        else Inr (mix_drawn_size mix (v mod totalWeight mix), ra'))"

subsection \<open>What the parser returns\<close>

lemma mix_entry_ok:
  "mix_entry split seen e = Inr (sz, weight) \<Longrightarrow> sz \<noteq> 0 \<and> weight \<noteq> 0 \<and> sz \<notin> seen"
  by (auto simp: mix_entry_def Let_def split: if_splits)

lemma mix_entries_ok:
  "mix_entries split seen es = Inr sws \<Longrightarrow>
   distinct (map fst sws) \<and> fst ` set sws \<inter> seen = {} \<and> (\<forall>(s, w) \<in> set sws. s \<noteq> 0 \<and> w \<noteq> 0)"
proof (induction split seen es arbitrary: sws rule: mix_entries.induct)
  case (2 split seen e rest)
  show ?case
  proof (cases "e = []")
    case True
    with 2 show ?thesis by simp
  next
    case False
    then obtain s w sws' where sw: "mix_entry split seen e = Inr (s, w)"
        "mix_entries split (insert s seen) rest = Inr sws'" "sws = (s, w) # sws'"
      using "2.prems" by auto
    then show ?thesis
      using "2.IH"(2) [OF False sw(2)] mix_entry_ok [OF sw(1)] by force
  qed
qed simp

text \<open>The invariant of a parsed mix.\<close>

definition mix_inv :: "block_size_mix \<Rightarrow> bool" where
  "mix_inv mix \<longleftrightarrow>
     sizesAndWeights mix \<noteq> [] \<and> distinct (map fst (sizesAndWeights mix)) \<and>
     (\<forall>(s, w) \<in> set (sizesAndWeights mix). s \<noteq> 0 \<and> w \<noteq> 0) \<and>
     mix = mix_build (sizesAndWeights mix)"

lemma mix_build_sws [simp]: "sizesAndWeights (mix_build sws) = sws"
  by (simp add: mix_build_def split_beta)

lemma mix_parse_inv:
  assumes "mix_parse split s = Inr mix"
  shows "mix_inv mix"
proof -
  obtain sws where "mix_entries split {} (split (CHR '','') s) = Inr sws" "sws \<noteq> []" "mix = mix_build sws"
    using assms by (auto simp: mix_parse_def split: if_splits)
  then show ?thesis using mix_entries_ok [of split "{}" _ sws] by (simp add: mix_inv_def)
qed

subsection \<open>The weighted draw\<close>

abbreviation mix_weight_sum :: "(u64 \<times> u64) list \<Rightarrow> nat" where
  "mix_weight_sum sws \<equiv> sum_list (map (\<lambda>sw. unat (snd sw)) sws)"

lemma mix_cumulate_total:
  "unat t + mix_weight_sum sws < W64 \<Longrightarrow> unat (snd (mix_cumulate t sws)) = unat t + mix_weight_sum sws"
  by (induction t sws rule: mix_cumulate.induct) (auto simp: split_beta Let_def nat_of_word)

lemma length_mix_cumulate [simp]: "length (fst (mix_cumulate t sws)) = length sws"
  by (induction t sws rule: mix_cumulate.induct) (auto simp: split_beta Let_def)

lemma mix_cumulate_sums:
  "unat t + mix_weight_sum sws < W64 \<Longrightarrow>
   map unat (fst (mix_cumulate t sws)) = map (\<lambda>i. unat t + mix_weight_sum (take (Suc i) sws)) [0..<length sws]"
proof (induction t sws rule: mix_cumulate.induct)
  case (2 t s w sws)
  then have "unat (t + w) = unat t + unat w" by (simp add: nat_of_word)
  with 2 show ?case
    by (simp add: split_beta Let_def map_upt_Suc add.assoc del: upt_Suc)
qed simp

lemma mix_pick_mem: "mix_pick d cs sws = Some s \<Longrightarrow> s \<in> fst ` set sws"
  by (induction d cs sws rule: mix_pick.induct) (auto split: if_splits)

lemma mix_pick_some:
  assumes "unat t + mix_weight_sum sws < W64" "unat d < unat t + mix_weight_sum sws" "unat t \<le> unat d"
  shows "mix_pick d (fst (mix_cumulate t sws)) sws \<noteq> None"
  using assms
proof (induction t sws rule: mix_cumulate.induct)
  case (2 t s w sws)
  then have "unat (t + w) = unat t + unat w" by (simp add: nat_of_word)
  with 2 show ?case by (auto simp: split_beta Let_def word_less_nat_alt)
qed simp

text \<open>
  Among the drawn values from \<open>t\<close> up to \<open>t\<close> plus the sum of the weights, as many select a size
  as its weight says.
\<close>

lemma mix_pick_count:
  assumes "unat t + mix_weight_sum sws < W64" "distinct (map fst sws)" "(s, w) \<in> set sws"
  shows "card {n. unat t \<le> n \<and> n < unat t + mix_weight_sum sws \<and>
      mix_pick (of_nat n) (fst (mix_cumulate t sws)) sws = Some s} = unat w"
  using assms
proof (induction t sws rule: mix_cumulate.induct)
  case (2 t s0 w0 sws)
  let ?P = "\<lambda>n. mix_pick (of_nat n) (fst (mix_cumulate (t + w0) sws)) sws = Some s"
  have t': "unat (t + w0) = unat t + unat w0" using "2.prems"(1) by (simp add: nat_of_word)
  have lt: "(of_nat n :: u64) < t + w0 \<longleftrightarrow> n < unat t + unat w0"
    if "n < unat t + (unat w0 + mix_weight_sum sws)" for n
    using that "2.prems"(1) t' by (simp add: nat_of_word)
  have set_eq: "{n. unat t \<le> n \<and> n < unat t + (unat w0 + mix_weight_sum sws) \<and>
        mix_pick (of_nat n) (fst (mix_cumulate t ((s0, w0) # sws))) ((s0, w0) # sws) = Some s} =
      (if s0 = s then {unat t..<unat t + unat w0} else {}) \<union>
      {n. unat (t + w0) \<le> n \<and> n < unat (t + w0) + mix_weight_sum sws \<and> ?P n}"
    using lt t' by (auto simp: split_beta Let_def split: if_splits)
  show ?case
  proof (cases "s0 = s")
    case True
    then have "s \<notin> fst ` set sws" "w = w0" using "2.prems"(2,3) by (auto simp: image_iff)
    then have "\<not> ?P n" for n using mix_pick_mem by blast
    then show ?thesis
      using set_eq True \<open>w = w0\<close> by simp
  next
    case False
    then have "(s, w) \<in> set sws" using "2.prems"(3) by auto
    then have "card {n. unat (t + w0) \<le> n \<and> n < unat (t + w0) + mix_weight_sum sws \<and> ?P n} = unat w"
      using 2 t' by simp
    then show ?thesis using set_eq False by simp
  qed
qed simp

lemma mix_build_draw:
  "totalWeight (mix_build sws) = snd (mix_cumulate 0 sws)"
  "cumulativeWeights (mix_build sws) = fst (mix_cumulate 0 sws)"
  by (simp_all add: mix_build_def split_beta)

lemma mix_inv_weights:
  assumes inv: "mix_inv mix" and W: "mix_weight_sum (sizesAndWeights mix) < W64"
  shows "map unat (cumulativeWeights mix) =
      map (\<lambda>i. mix_weight_sum (take (Suc i) (sizesAndWeights mix))) [0..<length (sizesAndWeights mix)]"
    "unat (totalWeight mix) = mix_weight_sum (sizesAndWeights mix)"
proof -
  let ?sws = "sizesAndWeights mix"
  have mix: "mix = mix_build ?sws" using inv by (simp add: mix_inv_def)
  have "cumulativeWeights mix = fst (mix_cumulate 0 ?sws)" "totalWeight mix = snd (mix_cumulate 0 ?sws)"
    by (subst mix, simp add: mix_build_draw)+
  then show "map unat (cumulativeWeights mix) = map (\<lambda>i. mix_weight_sum (take (Suc i) ?sws)) [0..<length ?sws]"
      "unat (totalWeight mix) = mix_weight_sum ?sws"
    using W mix_cumulate_sums [of 0 ?sws] mix_cumulate_total [of 0 ?sws] by simp_all
qed

lemma mix_drawn_count:
  assumes inv: "mix_inv mix" and W: "mix_weight_sum (sizesAndWeights mix) < W64"
    and mem: "(s, w) \<in> set (sizesAndWeights mix)"
  shows "card {n. n < unat (totalWeight mix) \<and> mix_drawn_size mix (of_nat n) = s} = unat w"
proof -
  let ?sws = "sizesAndWeights mix"
  have mix: "mix = mix_build ?sws" and d: "distinct (map fst ?sws)"
    using inv by (auto simp: mix_inv_def)
  have tot: "unat (totalWeight mix) = mix_weight_sum ?sws"
    using W mix_cumulate_total [of 0 ?sws] by (subst mix) (simp add: mix_build_draw)
  have cum: "cumulativeWeights mix = fst (mix_cumulate 0 ?sws)"
    by (subst mix) (simp add: mix_build_draw)
  have "mix_drawn_size mix (of_nat n) = s \<longleftrightarrow>
      mix_pick (of_nat n) (fst (mix_cumulate 0 ?sws)) ?sws = Some s"
    if "n < mix_weight_sum ?sws" for n
    using mix_pick_some [of 0 ?sws "of_nat n"] W that
    by (auto simp: mix_drawn_size_def cum nat_of_word)
  then have "{n. n < unat (totalWeight mix) \<and> mix_drawn_size mix (of_nat n) = s} =
      {n. unat (0 :: u64) \<le> n \<and> n < unat (0 :: u64) + mix_weight_sum ?sws \<and>
        mix_pick (of_nat n) (fst (mix_cumulate 0 ?sws)) ?sws = Some s}"
    by (auto simp: tot)
  then show ?thesis using mix_pick_count [of 0 ?sws s w] W d mem by simp
qed

lemma fold_max: "foldl (\<lambda>m sw. max m (fst sw)) (a :: u64) sws = Max (insert a (fst ` set sws))"
proof (induction sws arbitrary: a)
  case (Cons sw sws)
  then show ?case by (cases "sws = []") (simp_all add: max.assoc)
qed simp

lemma fold_min: "foldl (\<lambda>m sw. min m (fst sw)) (a :: u64) sws = Min (insert a (fst ` set sws))"
proof (induction sws arbitrary: a)
  case (Cons sw sws)
  then show ?case by (cases "sws = []") (simp_all add: min.assoc)
qed simp

lemma mix_min_max:
  assumes "mix_inv mix"
  shows "maxSize mix = Max (fst ` set (sizesAndWeights mix))"
    and "minSize mix = Min (fst ` set (sizesAndWeights mix))"
proof -
  let ?sws = "sizesAndWeights mix"
  have ne: "?sws \<noteq> []" and mix: "mix = mix_build ?sws" using assms by (auto simp: mix_inv_def)
  have "insert (fst (hd ?sws)) (fst ` set ?sws) = fst ` set ?sws"
    using ne by (intro insert_absorb imageI) simp
  then show "maxSize mix = Max (fst ` set ?sws)" "minSize mix = Min (fst ` set ?sws)"
    by (subst mix, simp add: mix_build_def split_beta fold_max fold_min)+
qed

lemma mix_drawn_mem:
  "sizesAndWeights mix \<noteq> [] \<Longrightarrow> mix_drawn_size mix d \<in> fst ` set (sizesAndWeights mix)"
  by (auto simp: mix_drawn_size_def dest: mix_pick_mem split: option.splits)

lemma mix_getNextSize_ok:
  assumes inv: "mix_inv mix" and W: "mix_weight_sum (sizesAndWeights mix) < W64"
  shows "\<exists>s ra'. mix_getNextSize mix ra = Inr (s, ra') \<and> s \<in> fst ` set (sizesAndWeights mix)"
proof (cases "mix_isMix mix")
  case False
  have "Max (fst ` set (sizesAndWeights mix)) \<in> fst ` set (sizesAndWeights mix)"
    using inv by (intro Max_in) (auto simp: mix_inv_def)
  then show ?thesis using False mix_min_max(1) [OF inv] by (simp add: mix_getNextSize_def)
next
  case True
  let ?sws = "sizesAndWeights mix"
  obtain s w where sw: "(s, w) \<in> set ?sws" "w \<noteq> 0"
    using inv by (cases ?sws) (auto simp: mix_inv_def)
  have "unat w \<le> mix_weight_sum ?sws"
    using sw(1) by (intro member_le_sum_list) (auto simp: image_iff intro: bexI [of _ "(s, w)"])
  moreover have "unat (totalWeight mix) = mix_weight_sum ?sws"
    using inv W mix_cumulate_total [of 0 ?sws] mix_build_draw(1) [of ?sws] by (simp add: mix_inv_def)
  ultimately have "totalWeight mix \<noteq> 0"
    using sw(2) by (metis le_zero_eq unat_0 unat_eq_zero)
  then show ?thesis
    using True inv mix_drawn_mem [of mix]
    by (simp add: mix_getNextSize_def split_beta mix_inv_def)
qed

subsection \<open>Reading back the canonical string\<close>

fun join :: "char \<Rightarrow> string list \<Rightarrow> string" where
  "join sep [] = []"
| "join sep [x] = x"
| "join sep (x # y # ys) = x @ sep # join sep (y # ys)"

text \<open>
  What the round trip relies on of \<open>boost::split\<close>: nonempty parts without the separator,
  joined with the separator, are the parts that come back.
\<close>

definition splits_joined :: "(char \<Rightarrow> string \<Rightarrow> string list) \<Rightarrow> bool" where
  "splits_joined split \<longleftrightarrow>
     (\<forall>sep xs. xs \<noteq> [] \<and> (\<forall>x \<in> set xs. x \<noteq> [] \<and> sep \<notin> set x) \<longrightarrow> split sep (join sep xs) = xs)"

abbreviation mix_entry_string :: "u64 \<times> u64 \<Rightarrow> string" where
  "mix_entry_string sw \<equiv> join (CHR '':'') [to_string (unat (fst sw)), to_string (unat (snd sw))]"

lemma mix_string_from_join:
  "mix_string_from i sws =
     (if i \<noteq> 0 \<and> sws \<noteq> [] then '','' else []) @ join (CHR '','') (map mix_entry_string sws)"
proof (induction i sws rule: mix_string_from.induct)
  case (2 i s w sws)
  then show ?case by (cases sws) simp_all
qed simp

lemma mix_entry_string_ok:
  "mix_entry_string sw \<noteq> []" "CHR '','' \<notin> set (mix_entry_string sw)"
  by (simp_all add: digits_no_punctuation)

lemma mix_entry_read:
  assumes sp: "splits_joined split" and s: "unat s < 2 ^ 63" "s \<noteq> 0" "s \<notin> seen" and w: "w \<noteq> 0"
  shows "mix_entry split seen (mix_entry_string (s, w)) = Inr (s, w)"
proof -
  have "split (CHR '':'') (mix_entry_string (s, w)) = [to_string (unat s), to_string (unat w)]"
    using sp unfolding splits_joined_def
    by (metis digits_no_punctuation(4) fst_conv list.distinct(1) list.set_cases set_ConsD snd_conv
        to_string_nonempty empty_iff list.set(1))
  moreover have "stoull (to_string (unat w)) = Inr w"
    using stoull_to_string [OF unat_less_W64 [of w], of "[]"] by simp
  ultimately show ?thesis
    using s w numHumanToBytesBinary_plain [OF s(1), of True] by (simp add: mix_entry_def)
qed

lemma mix_entries_read:
  assumes "splits_joined split" "distinct (map fst sws)" "fst ` set sws \<inter> seen = {}"
    and "\<forall>(s, w) \<in> set sws. s \<noteq> 0 \<and> w \<noteq> 0 \<and> unat s < 2 ^ 63"
  shows "mix_entries split seen (map mix_entry_string sws) = Inr sws"
  using assms(2-4)
proof (induction sws arbitrary: seen)
  case (Cons sw sws)
  obtain s w where sw: "sw = (s, w)" by fastforce
  have "mix_entry split seen (mix_entry_string (s, w)) = Inr (s, w)"
    using Cons.prems sw by (intro mix_entry_read [OF assms(1)]) auto
  moreover have "mix_entries split (insert s seen) (map mix_entry_string sws) = Inr sws"
    using Cons.prems sw by (intro Cons.IH) auto
  ultimately show ?case using sw mix_entry_string_ok(1) [of sw] by simp
qed simp

lemma mix_parse_toString_inv:
  assumes sp: "splits_joined split" and inv: "mix_inv mix"
    and lim: "\<forall>sw \<in> set (sizesAndWeights mix). unat (fst sw) < 2 ^ 63"
  shows "mix_parse split (mix_toString mix) = Inr mix"
proof -
  let ?sws = "sizesAndWeights mix"
  have ne: "?sws \<noteq> []" and mix: "mix_build ?sws = mix" and d: "distinct (map fst ?sws)"
      and nz: "\<forall>(s, w) \<in> set ?sws. s \<noteq> 0 \<and> w \<noteq> 0"
    using inv by (auto simp: mix_inv_def)
  have "split (CHR '','') (join (CHR '','') (map mix_entry_string ?sws)) = map mix_entry_string ?sws"
    using sp ne mix_entry_string_ok unfolding splits_joined_def by (simp del: join.simps)
  moreover have "mix_entries split {} (map mix_entry_string ?sws) = Inr ?sws"
    using lim nz d by (intro mix_entries_read [OF sp]) auto
  ultimately show ?thesis
    using ne mix by (simp add: mix_parse_def mix_toString_def mix_string_from_join del: join.simps)
qed

text \<open>A function that splits this way.\<close>

lemma split_compress_shorter:
  assumes "sep \<in> set s"
  shows "length (dropWhile (\<lambda>c. c = sep) (dropWhile (\<lambda>c. c \<noteq> sep) s)) < length s"
proof -
  let ?r = "dropWhile (\<lambda>c. c \<noteq> sep) s"
  have "?r \<noteq> []" "hd ?r = sep"
    using assms hd_dropWhile [of "\<lambda>c. c \<noteq> sep" s] by (auto simp: dropWhile_eq_Nil_conv)
  then obtain t where "?r = sep # t" by (cases ?r) auto
  then show ?thesis
    using length_dropWhile_le [of "\<lambda>c. c \<noteq> sep" s] length_dropWhile_le [of "\<lambda>c. c = sep" t] by simp
qed

function split_compress :: "char \<Rightarrow> string \<Rightarrow> string list" where
  "split_compress sep s =
     (let r = dropWhile (\<lambda>c. c \<noteq> sep) s in
      takeWhile (\<lambda>c. c \<noteq> sep) s #
        (if r = [] then [] else split_compress sep (dropWhile (\<lambda>c. c = sep) r)))"
  by pat_completeness auto
termination
  by (relation "measure (\<lambda>(sep, s). length s)") (auto simp: split_compress_shorter)

declare split_compress.simps [simp del]

lemma split_compress_join:
  "xs \<noteq> [] \<Longrightarrow> \<forall>x \<in> set xs. x \<noteq> [] \<and> sep \<notin> set x \<Longrightarrow> split_compress sep (join sep xs) = xs"
proof (induction sep xs rule: join.induct)
  case (2 sep x)
  then show ?case by (subst split_compress.simps) (auto simp: takeWhile_eq_all_conv)
next
  case (3 sep x y ys)
  obtain q where q: "join sep (y # ys) = y @ q" by (cases ys) auto
  obtain c cs where "y = c # cs" "c \<noteq> sep" using "3.prems" by (cases y) auto
  then have dw: "dropWhile (\<lambda>c. c = sep) (join sep (y # ys)) = join sep (y # ys)"
    unfolding q by simp
  have px: "\<forall>c \<in> set x. c \<noteq> sep" using "3.prems" by auto
  have x: "takeWhile (\<lambda>c. c \<noteq> sep) (x @ sep # r) = x"
      "dropWhile (\<lambda>c. c \<noteq> sep) (x @ sep # r) = sep # r" for r
    using px by (simp_all add: takeWhile_append2 dropWhile_append2)
  have "split_compress sep (join sep (y # ys)) = y # ys"
    using "3.prems" by (intro "3.IH") auto
  then show ?case
    unfolding join.simps by (subst split_compress.simps) (simp add: Let_def x dw del: join.simps)
qed simp

lemma splits_joined_split_compress: "splits_joined split_compress"
  by (simp add: splits_joined_def split_compress_join)

text \<open>A concrete string and the mix it stands for.\<close>

lemma mix_parse_example:
  "mix_parse split_compress ''4k:3,64k'' = Inr
    \<lparr>sizesAndWeights = [(4096, 3), (65536, 1)], cumulativeWeights = [3, 4], totalWeight = 4,
     maxSize = 65536, minSize = 4096\<rparr>"
proof -
  have "split_compress (CHR '','') ''4k:3,64k'' = [''4k:3'', ''64k'']"
    "split_compress (CHR '':'') ''4k:3'' = [''4k'', ''3'']"
    "split_compress (CHR '':'') ''64k'' = [''64k'']"
    by (simp_all add: split_compress.simps)
  moreover have "numHumanToBytesBinary ''4k'' True = Inr 4096"
    "numHumanToBytesBinary ''64k'' True = Inr 65536" "stoull ''3'' = Inr 3"
    by (simp_all add: numHumanToBytesBinary_def atoll_def stoull_def strip_sign_def digits_value_def
        isspace_def isdigit_def code_def toupper_def char_of_def bit_0 push_bit_eq_mult)
  ultimately show ?thesis
    by (simp add: mix_parse_def mix_entry_def mix_build_def Let_def)
qed

subsection \<open>Properties\<close>

text \<open>
  C28: The draw is exactly weighted: in a parsed mix whose weights sum to less than \<open>2^64\<close>, the
  number of the drawn values \<open>0, ..., totalWeight - 1\<close> that select a size is the weight
  the size was given.
\<close>

theorem mix_draw_is_weighted:
  assumes "mix_parse split str = Inr mix" "mix_weight_sum (sizesAndWeights mix) < W64"
    and "(s, w) \<in> set (sizesAndWeights mix)"
  shows "card {n. n < unat (totalWeight mix) \<and> mix_drawn_size mix (of_nat n) = s} = unat w"
  by (rule mix_drawn_count [OF mix_parse_inv [OF assms(1)] assms(2,3)])

theorem mix_draw_is_weighted_witness:
  "\<exists>mix. mix_parse split_compress ''4k:3,64k'' = Inr mix \<and>
     card {n. n < unat (totalWeight mix) \<and> mix_drawn_size mix (of_nat n) = 4096} = 3"
proof -
  note p = mix_parse_example
  show ?thesis using mix_draw_is_weighted [OF p, of 4096 3] p by simp
qed

text \<open>
  C29: A mix survives the trip through its canonical string, which the service protocol uses:
  parsing the printed form of a parsed mix gives the same mix, cumulative weights and size
  limits included, as long as every size is below \<open>2^63\<close>.
\<close>

theorem mix_parse_toString:
  assumes "splits_joined split" "mix_parse split str = Inr mix"
    and "\<forall>sw \<in> set (sizesAndWeights mix). unat (fst sw) < 2 ^ 63"
  shows "mix_parse split (mix_toString mix) = Inr mix"
  by (rule mix_parse_toString_inv [OF assms(1) mix_parse_inv [OF assms(2)] assms(3)])

theorem mix_parse_toString_witness:
  "\<exists>mix. mix_parse split_compress ''4k:3,64k'' = Inr mix \<and>
     mix_parse split_compress (mix_toString mix) = Inr mix"
proof -
  note p = mix_parse_example
  show ?thesis using mix_parse_toString [OF splits_joined_split_compress p] p by simp
qed

text \<open>
  C30: A parsed mix whose weights sum to less than \<open>2^64\<close> has pairwise different nonzero sizes with
  nonzero weights, its maximum and minimum are those of its sizes, cumulative weight \<open>i\<close> is the
  sum of the first \<open>i + 1\<close> weights and the total weight the sum of all of them, and a draw never
  faults and gives one of the sizes.
\<close>

theorem mix_parse_well_formed:
  assumes "mix_parse split str = Inr mix" "mix_weight_sum (sizesAndWeights mix) < W64"
  shows "distinct (map fst (sizesAndWeights mix)) \<and>
    (\<forall>(s, w) \<in> set (sizesAndWeights mix). s \<noteq> 0 \<and> w \<noteq> 0) \<and>
    maxSize mix = Max (fst ` set (sizesAndWeights mix)) \<and>
    minSize mix = Min (fst ` set (sizesAndWeights mix)) \<and>
    map unat (cumulativeWeights mix) =
      map (\<lambda>i. mix_weight_sum (take (Suc i) (sizesAndWeights mix))) [0..<length (sizesAndWeights mix)] \<and>
    unat (totalWeight mix) = mix_weight_sum (sizesAndWeights mix) \<and>
    (\<exists>s ra'. mix_getNextSize mix ra = Inr (s, ra') \<and> s \<in> fst ` set (sizesAndWeights mix))"
proof -
  have inv: "mix_inv mix" by (rule mix_parse_inv [OF assms(1)])
  then show ?thesis
    using mix_min_max [OF inv] mix_getNextSize_ok [OF inv assms(2), of ra] mix_inv_weights [OF inv assms(2)]
    unfolding mix_inv_def by blast
qed

theorem mix_parse_well_formed_witness:
  "\<exists>mix. mix_parse split_compress ''4k:3,64k'' = Inr mix \<and> maxSize mix = Max {4096, 65536} \<and>
     (\<exists>s ra'. mix_getNextSize mix (RandAlgoXoshiro256ss (xoshiro256ss_new (\<lambda>_. 7))) = Inr (s, ra') \<and>
        s \<in> {4096, 65536})"
  using mix_parse_well_formed [OF mix_parse_example,
      of "RandAlgoXoshiro256ss (xoshiro256ss_new (\<lambda>_. 7))"] mix_parse_example
  by simp

end
