(* ===== verification/OffsetGen.thy ===== *)
theory OffsetGen
  imports FullCoverage BlockSizeMix
begin

text \<open>
  The offset generators of \<open>toolkits/offsetgen\<close>: one record and one group of operations per
  class, the virtual calls through \<open>OffsetGenerator\<close> as functions on the datatype of the
  classes, and the loop with which a worker drains a generator. The generators that draw
  from the worker's random algorithm take it as an argument and return it; the values of
  \<open>std::random_device\<close> come from a stream.
\<close>

subsection \<open>Sequential\<close>

record seq_gen =
  sq_numBytesTotal :: u64
  sq_numBytesLeft :: u64
  sq_startOffset :: u64
  sq_currentOffset :: u64
  sq_blockSizeMix :: block_size_mix
  sq_maxBlockSize :: u64

definition seq_new :: "u64 \<Rightarrow> u64 \<Rightarrow> block_size_mix \<Rightarrow> seq_gen" where
  "seq_new len offset mix =
     \<lparr>sq_numBytesTotal = len, sq_numBytesLeft = len, sq_startOffset = offset,
      sq_currentOffset = offset, sq_blockSizeMix = mix, sq_maxBlockSize = maxSize mix\<rparr>"

definition seq_reset :: "seq_gen \<Rightarrow> seq_gen" where
  "seq_reset g = g\<lparr>sq_numBytesLeft := sq_numBytesTotal g, sq_currentOffset := sq_startOffset g\<rparr>"

definition seq_reset_to :: "u64 \<Rightarrow> u64 \<Rightarrow> seq_gen \<Rightarrow> seq_gen" where
  "seq_reset_to len offset g =
     g\<lparr>sq_numBytesTotal := len, sq_numBytesLeft := len, sq_startOffset := offset,
       sq_currentOffset := offset\<rparr>"

definition seq_getNextBlockSizeToSubmit :: "seq_gen \<Rightarrow> rand_algo \<Rightarrow> (u64 \<times> rand_algo) result" where
  "seq_getNextBlockSizeToSubmit g ra =
     bindE (mix_getNextSize (sq_blockSizeMix g) ra) (\<lambda>(n, ra'). Inr (min (sq_numBytesLeft g) n, ra'))"

definition seq_addBytesSubmitted :: "u64 \<Rightarrow> seq_gen \<Rightarrow> seq_gen" where
  "seq_addBytesSubmitted numBytes g =
     g\<lparr>sq_numBytesLeft := sq_numBytesLeft g - numBytes,
       sq_currentOffset := sq_currentOffset g + numBytes\<rparr>"

subsection \<open>Reverse sequential\<close>

record rev_gen =
  rv_numBytesTotal :: u64
  rv_numBytesLeft :: u64
  rv_startOffset :: u64
  rv_currentOffset :: u64
  rv_blockSize :: u64

text \<open>The division by a zero block size traps; with no bytes to submit it is not reached.\<close>

definition rev_reset :: "rev_gen \<Rightarrow> rev_gen result" where
  "rev_reset g =
     (let g = g\<lparr>rv_numBytesLeft := rv_numBytesTotal g\<rparr> in
      if rv_numBytesTotal g = 0 then Inr (g\<lparr>rv_currentOffset := 0\<rparr>)
      else if rv_blockSize g = 0 then Inl (Fault ''division by zero'')
      else
        let lastBlockRemainder = rv_numBytesTotal g mod rv_blockSize g in
        if lastBlockRemainder \<noteq> 0
        then Inr (g\<lparr>rv_currentOffset := rv_startOffset g + rv_numBytesTotal g - lastBlockRemainder\<rparr>)
        else Inr (g\<lparr>rv_currentOffset := rv_startOffset g + rv_numBytesTotal g - rv_blockSize g\<rparr>))"

definition rev_new :: "u64 \<Rightarrow> u64 \<Rightarrow> u64 \<Rightarrow> rev_gen result" where
  "rev_new len offset blockSize =
     rev_reset \<lparr>rv_numBytesTotal = len, rv_numBytesLeft = len, rv_startOffset = offset,
                rv_currentOffset = offset, rv_blockSize = blockSize\<rparr>"

definition rev_reset_to :: "u64 \<Rightarrow> u64 \<Rightarrow> rev_gen \<Rightarrow> rev_gen result" where
  "rev_reset_to len offset g =
     rev_reset (g\<lparr>rv_numBytesTotal := len, rv_numBytesLeft := len, rv_startOffset := offset,
                  rv_currentOffset := offset\<rparr>)"

definition rev_getNextBlockSizeToSubmit :: "rev_gen \<Rightarrow> u64" where
  "rev_getNextBlockSizeToSubmit g =
     min (rv_startOffset g + rv_numBytesTotal g - rv_currentOffset g) (rv_blockSize g)"

definition rev_addBytesSubmitted :: "u64 \<Rightarrow> rev_gen \<Rightarrow> rev_gen" where
  "rev_addBytesSubmitted numBytes g =
     g\<lparr>rv_numBytesLeft := rv_numBytesLeft g - numBytes,
       rv_currentOffset := rv_currentOffset g - rv_blockSize g\<rparr>"

subsection \<open>Random\<close>

record rnd_gen =
  rn_randRange :: rand_range
  rn_numBytesTotal :: u64
  rn_numBytesLeft :: u64
  rn_blockSizeMix :: block_size_mix
  rn_maxBlockSize :: u64

definition rnd_new :: "u64 \<Rightarrow> u64 \<Rightarrow> u64 \<Rightarrow> block_size_mix \<Rightarrow> rnd_gen result" where
  "rnd_new numBytesTotal len offset mix =
     bindE (rand_range_new offset (offset + len - min (maxSize mix) len)) (\<lambda>r.
       Inr \<lparr>rn_randRange = r, rn_numBytesTotal = numBytesTotal, rn_numBytesLeft = numBytesTotal,
            rn_blockSizeMix = mix, rn_maxBlockSize = maxSize mix\<rparr>)"

definition rnd_reset :: "rnd_gen \<Rightarrow> rnd_gen" where
  "rnd_reset g = g\<lparr>rn_numBytesLeft := rn_numBytesTotal g\<rparr>"

definition rnd_reset_to :: "u64 \<Rightarrow> u64 \<Rightarrow> rnd_gen \<Rightarrow> rnd_gen result" where
  "rnd_reset_to len offset g =
     (let minLenAndBlockSize = min (rn_maxBlockSize g) len;
          g = g\<lparr>rn_numBytesTotal := len, rn_numBytesLeft := len\<rparr>
      in bindE (rand_range_reset offset (offset + len - minLenAndBlockSize))
           (\<lambda>r. Inr (g\<lparr>rn_randRange := r\<rparr>)))"

definition rnd_getNextOffset :: "rnd_gen \<Rightarrow> rand_algo \<Rightarrow> (u64 \<times> rand_algo) result" where
  "rnd_getNextOffset g ra = rand_range_next (rn_randRange g) ra"

definition rnd_getNextBlockSizeToSubmit :: "rnd_gen \<Rightarrow> rand_algo \<Rightarrow> (u64 \<times> rand_algo) result" where
  "rnd_getNextBlockSizeToSubmit g ra =
     bindE (mix_getNextSize (rn_blockSizeMix g) ra) (\<lambda>(n, ra'). Inr (min (rn_numBytesLeft g) n, ra'))"

definition rnd_addBytesSubmitted :: "u64 \<Rightarrow> rnd_gen \<Rightarrow> rnd_gen" where
  "rnd_addBytesSubmitted numBytes g = g\<lparr>rn_numBytesLeft := rn_numBytesLeft g - numBytes\<rparr>"

subsection \<open>Random, aligned to the smallest block size\<close>

record ral_gen =
  ra_randRange :: rand_range
  ra_numBytesTotal :: u64
  ra_numBytesLeft :: u64
  ra_offset :: u64
  ra_blockSizeMix :: block_size_mix
  ra_maxBlockSize :: u64
  ra_alignGrid :: u64

definition ral_new :: "u64 \<Rightarrow> u64 \<Rightarrow> u64 \<Rightarrow> block_size_mix \<Rightarrow> ral_gen result" where
  "ral_new numBytesTotal len offset mix =
     bindE (rand_range_new 0
              (if min (minSize mix) len = 0 then 0
               else (len - min (maxSize mix) len) div min (minSize mix) len)) (\<lambda>r.
       Inr \<lparr>ra_randRange = r, ra_numBytesTotal = numBytesTotal, ra_numBytesLeft = numBytesTotal,
            ra_offset = offset, ra_blockSizeMix = mix, ra_maxBlockSize = maxSize mix,
            ra_alignGrid = minSize mix\<rparr>)"

definition ral_reset :: "ral_gen \<Rightarrow> ral_gen" where
  "ral_reset g = g\<lparr>ra_numBytesLeft := ra_numBytesTotal g\<rparr>"

definition ral_reset_to :: "u64 \<Rightarrow> u64 \<Rightarrow> ral_gen \<Rightarrow> ral_gen result" where
  "ral_reset_to len offset g =
     (let minLenAndBlockSize = min (ra_alignGrid g) len;
          minLenAndMaxBlockSize = min (ra_maxBlockSize g) len;
          g = g\<lparr>ra_numBytesTotal := len, ra_numBytesLeft := len, ra_offset := offset\<rparr>
      in bindE (if minLenAndBlockSize \<noteq> 0
                then rand_range_reset 0 ((len - minLenAndMaxBlockSize) div minLenAndBlockSize)
                else rand_range_reset 0 0)
           (\<lambda>r. Inr (g\<lparr>ra_randRange := r\<rparr>)))"

definition ral_getNextOffset :: "ral_gen \<Rightarrow> rand_algo \<Rightarrow> (u64 \<times> rand_algo) result" where
  "ral_getNextOffset g ra =
     bindE (rand_range_next (ra_randRange g) ra)
       (\<lambda>(v, ra'). Inr (ra_offset g + v * ra_alignGrid g, ra'))"

definition ral_getNextBlockSizeToSubmit :: "ral_gen \<Rightarrow> rand_algo \<Rightarrow> (u64 \<times> rand_algo) result" where
  "ral_getNextBlockSizeToSubmit g ra =
     bindE (mix_getNextSize (ra_blockSizeMix g) ra) (\<lambda>(n, ra'). Inr (min (ra_numBytesLeft g) n, ra'))"

definition ral_addBytesSubmitted :: "u64 \<Rightarrow> ral_gen \<Rightarrow> ral_gen" where
  "ral_addBytesSubmitted numBytes g = g\<lparr>ra_numBytesLeft := ra_numBytesLeft g - numBytes\<rparr>"

subsection \<open>Strided\<close>

record str_gen =
  st_numBytesTotal :: u64
  st_numBytesLeft :: u64
  st_startOffset :: u64
  st_currentOffset :: u64
  st_blockSize :: u64
  st_numDataSetThreads :: u64

definition str_new :: "u64 \<Rightarrow> u64 \<Rightarrow> u64 \<Rightarrow> u64 \<Rightarrow> str_gen" where
  "str_new len offset blockSize numDataSetThreads =
     \<lparr>st_numBytesTotal = len, st_numBytesLeft = len, st_startOffset = offset,
      st_currentOffset = offset, st_blockSize = blockSize,
      st_numDataSetThreads = numDataSetThreads\<rparr>"

definition str_reset :: "str_gen \<Rightarrow> str_gen" where
  "str_reset g = g\<lparr>st_numBytesLeft := st_numBytesTotal g, st_currentOffset := st_startOffset g\<rparr>"

definition str_reset_to :: "u64 \<Rightarrow> u64 \<Rightarrow> str_gen \<Rightarrow> str_gen" where
  "str_reset_to len offset g =
     g\<lparr>st_numBytesTotal := len, st_numBytesLeft := len, st_startOffset := offset,
       st_currentOffset := offset\<rparr>"

definition str_getNextBlockSizeToSubmit :: "str_gen \<Rightarrow> u64" where
  "str_getNextBlockSizeToSubmit g = min (st_numBytesLeft g) (st_blockSize g)"

definition str_addBytesSubmitted :: "u64 \<Rightarrow> str_gen \<Rightarrow> str_gen" where
  "str_addBytesSubmitted numBytes g =
     g\<lparr>st_numBytesLeft := st_numBytesLeft g - numBytes,
       st_currentOffset := st_currentOffset g + st_blockSize g * st_numDataSetThreads g\<rparr>"

subsection \<open>Random, aligned, each block once\<close>

record fcv_gen =
  fc_numBytesTotal :: u64
  fc_numBytesLeft :: u64
  fc_rangeLen :: u64
  fc_blockSize :: u64
  fc_randomGen :: covgen

definition calcStartBlockIdx :: "u64 \<Rightarrow> u64 \<Rightarrow> u64" where
  "calcStartBlockIdx offset blockSize = (if blockSize \<noteq> 0 then offset div blockSize else 0)"

definition calcEndBlockIdx :: "u64 \<Rightarrow> u64 \<Rightarrow> u64 \<Rightarrow> u64" where
  "calcEndBlockIdx offset rangeLen blockSize =
     calcStartBlockIdx offset blockSize +
     (if blockSize \<noteq> 0 \<and> rangeLen div blockSize \<noteq> 0 then rangeLen div blockSize - 1 else 0)"

definition fcv_new :: "u64 \<Rightarrow> u64 \<Rightarrow> u64 \<Rightarrow> u64 \<Rightarrow> u32 \<Rightarrow> fcv_gen result" where
  "fcv_new numBytesTotal len offset blockSize rd =
     bindE (covgen_new (calcStartBlockIdx offset blockSize) (calcEndBlockIdx offset len blockSize) rd)
       (\<lambda>gen. Inr \<lparr>fc_numBytesTotal = numBytesTotal, fc_numBytesLeft = numBytesTotal,
                   fc_rangeLen = len, fc_blockSize = blockSize, fc_randomGen = gen\<rparr>)"

definition fcv_reset :: "u32 \<Rightarrow> fcv_gen \<Rightarrow> fcv_gen" where
  "fcv_reset rd g =
     g\<lparr>fc_numBytesLeft := fc_numBytesTotal g, fc_randomGen := covgen_reset rd (fc_randomGen g)\<rparr>"

definition fcv_reset_to :: "u64 \<Rightarrow> u64 \<Rightarrow> u32 \<Rightarrow> fcv_gen \<Rightarrow> fcv_gen result" where
  "fcv_reset_to len offset rd g =
     (let g = g\<lparr>fc_numBytesTotal := len, fc_numBytesLeft := len, fc_rangeLen := len\<rparr>
      in bindE (covgen_new (calcStartBlockIdx offset (fc_blockSize g))
                  (calcEndBlockIdx offset len (fc_blockSize g)) rd)
           (\<lambda>gen. Inr (g\<lparr>fc_randomGen := gen\<rparr>)))"

definition fcv_getNextOffset :: "u32 \<Rightarrow> fcv_gen \<Rightarrow> (u64 \<times> fcv_gen) option" where
  "fcv_getNextOffset rd g =
     (case covgen_next rd (fc_randomGen g) of
        None \<Rightarrow> None
      | Some (v, gen) \<Rightarrow> Some (v * fc_blockSize g, g\<lparr>fc_randomGen := gen\<rparr>))"

definition fcv_getNextBlockSizeToSubmit :: "fcv_gen \<Rightarrow> u64" where
  "fcv_getNextBlockSizeToSubmit g = min (fc_numBytesLeft g) (fc_blockSize g)"

definition fcv_addBytesSubmitted :: "u64 \<Rightarrow> fcv_gen \<Rightarrow> fcv_gen" where
  "fcv_addBytesSubmitted numBytes g = g\<lparr>fc_numBytesLeft := fc_numBytesLeft g - numBytes\<rparr>"

subsection \<open>The virtual interface\<close>

datatype offset_gen =
    OffsetGenSequential seq_gen
  | OffsetGenReverseSeq rev_gen
  | OffsetGenRandom rnd_gen
  | OffsetGenRandomAligned ral_gen
  | OffsetGenStrided str_gen
  | OffsetGenRandomAlignedFullCoverageV2 fcv_gen

text \<open>
  The sources of randomness a worker hands to its generator: its random algorithm, and the
  values the random device will deliver.
\<close>

record rand_src =
  rs_algo :: rand_algo
  rs_dev :: "nat \<Rightarrow> u32"

definition rs_draw :: "rand_src \<Rightarrow> u32 \<times> rand_src" where
  "rs_draw rs = (rs_dev rs 0, rs\<lparr>rs_dev := \<lambda>i. rs_dev rs (Suc i)\<rparr>)"

definition with_algo :: "rand_src \<Rightarrow> (u64 \<times> rand_algo) result \<Rightarrow> (u64 \<times> rand_src) result" where
  "with_algo rs r = bindE r (\<lambda>(v, ra). Inr (v, rs\<lparr>rs_algo := ra\<rparr>))"

fun gen_getNumBytesTotal :: "offset_gen \<Rightarrow> u64" where
  "gen_getNumBytesTotal (OffsetGenSequential g) = sq_numBytesTotal g"
| "gen_getNumBytesTotal (OffsetGenReverseSeq g) = rv_numBytesTotal g"
| "gen_getNumBytesTotal (OffsetGenRandom g) = rn_numBytesTotal g"
| "gen_getNumBytesTotal (OffsetGenRandomAligned g) = ra_numBytesTotal g"
| "gen_getNumBytesTotal (OffsetGenStrided g) = st_numBytesTotal g"
| "gen_getNumBytesTotal (OffsetGenRandomAlignedFullCoverageV2 g) = fc_numBytesTotal g"

fun gen_getNumBytesLeftToSubmit :: "offset_gen \<Rightarrow> u64" where
  "gen_getNumBytesLeftToSubmit (OffsetGenSequential g) = sq_numBytesLeft g"
| "gen_getNumBytesLeftToSubmit (OffsetGenReverseSeq g) = rv_numBytesLeft g"
| "gen_getNumBytesLeftToSubmit (OffsetGenRandom g) = rn_numBytesLeft g"
| "gen_getNumBytesLeftToSubmit (OffsetGenRandomAligned g) = ra_numBytesLeft g"
| "gen_getNumBytesLeftToSubmit (OffsetGenStrided g) = st_numBytesLeft g"
| "gen_getNumBytesLeftToSubmit (OffsetGenRandomAlignedFullCoverageV2 g) = fc_numBytesLeft g"

fun gen_getBlockSize :: "offset_gen \<Rightarrow> u64" where
  "gen_getBlockSize (OffsetGenSequential g) = sq_maxBlockSize g"
| "gen_getBlockSize (OffsetGenReverseSeq g) = rv_blockSize g"
| "gen_getBlockSize (OffsetGenRandom g) = rn_maxBlockSize g"
| "gen_getBlockSize (OffsetGenRandomAligned g) = ra_maxBlockSize g"
| "gen_getBlockSize (OffsetGenStrided g) = st_blockSize g"
| "gen_getBlockSize (OffsetGenRandomAlignedFullCoverageV2 g) = fc_blockSize g"

fun gen_getNextOffset :: "offset_gen \<Rightarrow> rand_src \<Rightarrow> (u64 \<times> offset_gen \<times> rand_src) result option" where
  "gen_getNextOffset (OffsetGenSequential g) rs =
     Some (Inr (sq_currentOffset g, OffsetGenSequential g, rs))"
| "gen_getNextOffset (OffsetGenReverseSeq g) rs =
     Some (Inr (rv_currentOffset g, OffsetGenReverseSeq g, rs))"
| "gen_getNextOffset (OffsetGenRandom g) rs =
     Some (bindE (with_algo rs (rnd_getNextOffset g (rs_algo rs)))
       (\<lambda>(v, rs'). Inr (v, OffsetGenRandom g, rs')))"
| "gen_getNextOffset (OffsetGenRandomAligned g) rs =
     Some (bindE (with_algo rs (ral_getNextOffset g (rs_algo rs)))
       (\<lambda>(v, rs'). Inr (v, OffsetGenRandomAligned g, rs')))"
| "gen_getNextOffset (OffsetGenStrided g) rs =
     Some (Inr (st_currentOffset g, OffsetGenStrided g, rs))"
| "gen_getNextOffset (OffsetGenRandomAlignedFullCoverageV2 g) rs =
     (let (rd, rs') = (if covgen_has_next (fc_randomGen g) then (0, rs) else rs_draw rs) in
      case fcv_getNextOffset rd g of
        None \<Rightarrow> None
      | Some (v, g') \<Rightarrow> Some (Inr (v, OffsetGenRandomAlignedFullCoverageV2 g', rs')))"

fun gen_getNextBlockSizeToSubmit :: "offset_gen \<Rightarrow> rand_src \<Rightarrow> (u64 \<times> rand_src) result" where
  "gen_getNextBlockSizeToSubmit (OffsetGenSequential g) rs =
     with_algo rs (seq_getNextBlockSizeToSubmit g (rs_algo rs))"
| "gen_getNextBlockSizeToSubmit (OffsetGenReverseSeq g) rs =
     Inr (rev_getNextBlockSizeToSubmit g, rs)"
| "gen_getNextBlockSizeToSubmit (OffsetGenRandom g) rs =
     with_algo rs (rnd_getNextBlockSizeToSubmit g (rs_algo rs))"
| "gen_getNextBlockSizeToSubmit (OffsetGenRandomAligned g) rs =
     with_algo rs (ral_getNextBlockSizeToSubmit g (rs_algo rs))"
| "gen_getNextBlockSizeToSubmit (OffsetGenStrided g) rs =
     Inr (str_getNextBlockSizeToSubmit g, rs)"
| "gen_getNextBlockSizeToSubmit (OffsetGenRandomAlignedFullCoverageV2 g) rs =
     Inr (fcv_getNextBlockSizeToSubmit g, rs)"

fun gen_addBytesSubmitted :: "u64 \<Rightarrow> offset_gen \<Rightarrow> offset_gen" where
  "gen_addBytesSubmitted n (OffsetGenSequential g) = OffsetGenSequential (seq_addBytesSubmitted n g)"
| "gen_addBytesSubmitted n (OffsetGenReverseSeq g) = OffsetGenReverseSeq (rev_addBytesSubmitted n g)"
| "gen_addBytesSubmitted n (OffsetGenRandom g) = OffsetGenRandom (rnd_addBytesSubmitted n g)"
| "gen_addBytesSubmitted n (OffsetGenRandomAligned g) =
     OffsetGenRandomAligned (ral_addBytesSubmitted n g)"
| "gen_addBytesSubmitted n (OffsetGenStrided g) = OffsetGenStrided (str_addBytesSubmitted n g)"
| "gen_addBytesSubmitted n (OffsetGenRandomAlignedFullCoverageV2 g) =
     OffsetGenRandomAlignedFullCoverageV2 (fcv_addBytesSubmitted n g)"

fun gen_reset_to :: "u64 \<Rightarrow> u64 \<Rightarrow> offset_gen \<Rightarrow> rand_src \<Rightarrow> (offset_gen \<times> rand_src) result" where
  "gen_reset_to len offset (OffsetGenSequential g) rs =
     Inr (OffsetGenSequential (seq_reset_to len offset g), rs)"
| "gen_reset_to len offset (OffsetGenReverseSeq g) rs =
     bindE (rev_reset_to len offset g) (\<lambda>g. Inr (OffsetGenReverseSeq g, rs))"
| "gen_reset_to len offset (OffsetGenRandom g) rs =
     bindE (rnd_reset_to len offset g) (\<lambda>g. Inr (OffsetGenRandom g, rs))"
| "gen_reset_to len offset (OffsetGenRandomAligned g) rs =
     bindE (ral_reset_to len offset g) (\<lambda>g. Inr (OffsetGenRandomAligned g, rs))"
| "gen_reset_to len offset (OffsetGenStrided g) rs =
     Inr (OffsetGenStrided (str_reset_to len offset g), rs)"
| "gen_reset_to len offset (OffsetGenRandomAlignedFullCoverageV2 g) rs =
     (let (rd, rs') = rs_draw rs in
      bindE (fcv_reset_to len offset rd g) (\<lambda>g. Inr (OffsetGenRandomAlignedFullCoverageV2 g, rs')))"

subsection \<open>Draining a generator\<close>

text \<open>
  The loop of the block-wise I/O functions of \<open>LocalWorker\<close> reduced to its calls of the
  generator, when every I/O transfers its whole block: the offsets and sizes in order. It is
  a partial function of the operations, so that it can be used with any generator.
\<close>

partial_function (option) drain ::
  "('g \<Rightarrow> u64) \<Rightarrow> ('g \<Rightarrow> 'r \<Rightarrow> (u64 \<times> 'g \<times> 'r) result option) \<Rightarrow> ('g \<Rightarrow> 'r \<Rightarrow> (u64 \<times> 'r) result) \<Rightarrow>
   (u64 \<Rightarrow> 'g \<Rightarrow> 'g) \<Rightarrow> 'g \<Rightarrow> 'r \<Rightarrow> ((u64 \<times> u64) list \<times> 'g \<times> 'r) result option" where
  "drain left nx sz add g rs =
     (if left g = 0 then Some (Inr ([], g, rs))
      else
        Option.bind (nx g rs) (\<lambda>x. case x of
          Inl e \<Rightarrow> Some (Inl e)
        | Inr (off, g1, rs1) \<Rightarrow>
            (case sz g1 rs1 of
               Inl e \<Rightarrow> Some (Inl e)
             | Inr (n, rs2) \<Rightarrow>
                 Option.bind (drain left nx sz add (add n g1) rs2) (\<lambda>y.
                   Some (bindE y (\<lambda>(ios, g', rs'). Inr ((off, n) # ios, g', rs')))))))"

abbreviation gen_drain where
  "gen_drain \<equiv> drain gen_getNumBytesLeftToSubmit gen_getNextOffset gen_getNextBlockSizeToSubmit
     gen_addBytesSubmitted"

text \<open>What a block-wise loop relies on of the generator behind its pointer.\<close>

locale offset_generator =
  fixes left :: "'g \<Rightarrow> u64"
    and nx :: "'g \<Rightarrow> 'r \<Rightarrow> (u64 \<times> 'g \<times> 'r) result option"
    and sz :: "'g \<Rightarrow> 'r \<Rightarrow> (u64 \<times> 'r) result"
    and add :: "u64 \<Rightarrow> 'g \<Rightarrow> 'g"
    and inv :: "'g \<Rightarrow> bool"
    and io_ok :: "'g \<Rightarrow> u64 \<Rightarrow> u64 \<Rightarrow> bool"
  assumes step: "inv g \<Longrightarrow> left g \<noteq> 0 \<Longrightarrow>
    \<exists>off g1 rs1 n rs2. nx g rs = Some (Inr (off, g1, rs1)) \<and> sz g1 rs1 = Inr (n, rs2) \<and>
      0 < n \<and> n \<le> left g \<and> left (add n g1) = left g - n \<and> inv (add n g1) \<and>
      io_ok g off n \<and> (\<forall>o' n'. io_ok (add n g1) o' n' \<longrightarrow> io_ok g o' n')"
begin

text \<open>
  The loop ends; it submits exactly the bytes that were left; every I/O satisfies what the
  generator guarantees of its I/Os.
\<close>

lemma drain_total:
  assumes "inv g"
  shows "\<exists>ios g' rs'. drain left nx sz add g rs = Some (Inr (ios, g', rs')) \<and> left g' = 0 \<and> inv g' \<and>
    sum_list (map (\<lambda>io. unat (snd io)) ios) = unat (left g) \<and>
    (\<forall>(off, n) \<in> set ios. 0 < n \<and> io_ok g off n)"
  using assms
proof (induction "unat (left g)" arbitrary: g rs rule: less_induct)
  case less
  show ?case
  proof (cases "left g = 0")
    case True
    with less.prems show ?thesis by (subst drain.simps) simp
  next
    case False
    obtain off g1 rs1 n rs2 where st: "nx g rs = Some (Inr (off, g1, rs1))" "sz g1 rs1 = Inr (n, rs2)"
        "0 < n" "n \<le> left g" "left (add n g1) = left g - n" "inv (add n g1)" "io_ok g off n"
        "\<forall>o' n'. io_ok (add n g1) o' n' \<longrightarrow> io_ok g o' n'"
      using step [OF less.prems False] by meson
    have u: "unat (left (add n g1)) = unat (left g) - unat n" "unat n \<le> unat (left g)" "0 < unat n"
      using st(3-5) by (simp_all add: nat_of_word)
    then obtain ios g' rs' where ih: "drain left nx sz add (add n g1) rs2 = Some (Inr (ios, g', rs'))"
        "left g' = 0" "inv g'" "sum_list (map (\<lambda>io. unat (snd io)) ios) = unat (left g) - unat n"
        "\<forall>(o', n') \<in> set ios. 0 < n' \<and> io_ok (add n g1) o' n'"
      using less.hyps [of "add n g1" rs2] st(6) by auto
    show ?thesis
      using False st(1-3,7,8) u ih by (subst drain.simps) auto
  qed
qed

text \<open>A relation between a generator and its I/Os that each round extends holds of the loop.\<close>

lemma drain_induct:
  assumes "inv g" "drain left nx sz add g rs = Some (Inr (ios, g', rs'))"
    and base: "\<And>g. inv g \<Longrightarrow> left g = 0 \<Longrightarrow> R g []"
    and round: "\<And>g rs off g1 rs1 n rs2 ios. inv g \<Longrightarrow> left g \<noteq> 0 \<Longrightarrow>
      nx g rs = Some (Inr (off, g1, rs1)) \<Longrightarrow> sz g1 rs1 = Inr (n, rs2) \<Longrightarrow> inv (add n g1) \<Longrightarrow>
      R (add n g1) ios \<Longrightarrow> R g ((off, n) # ios)"
  shows "R g ios"
  using assms(1,2)
proof (induction "unat (left g)" arbitrary: g rs ios rule: less_induct)
  case less
  show ?case
  proof (cases "left g = 0")
    case True
    then have "ios = []" using less.prems(2) by (simp add: drain.simps [of left])
    with True less.prems(1) show ?thesis using base by simp
  next
    case False
    obtain off g1 rs1 n rs2 where st: "nx g rs = Some (Inr (off, g1, rs1))" "sz g1 rs1 = Inr (n, rs2)"
        "0 < n" "n \<le> left g" "left (add n g1) = left g - n" "inv (add n g1)"
      using step [OF less.prems(1) False] by meson
    have u: "unat (left (add n g1)) < unat (left g)"
      using st(3-5) by (simp add: nat_of_word)
    obtain y where y: "drain left nx sz add (add n g1) rs2 = Some y"
        "bindE y (\<lambda>(ios, g', rs'). Inr ((off, n) # ios, g', rs')) = Inr (ios, g', rs')"
      using less.prems(2) False st(1,2)
      by (subst (asm) drain.simps) (auto simp: bind_eq_Some_conv simp del: bindE_eq_Inr)
    then obtain ios' where ios: "ios = (off, n) # ios'"
        "drain left nx sz add (add n g1) rs2 = Some (Inr (ios', g', rs'))"
      by auto
    have "R (add n g1) ios'" using less.hyps [OF u st(6) ios(2)] .
    then show ?thesis using round [OF less.prems(1) False st(1,2,6)] ios(1) by simp
  qed
qed

end

subsection \<open>The invariants of the generators\<close>

text \<open>A mix whose draw is defined.\<close>

definition mix_ok :: "block_size_mix \<Rightarrow> bool" where
  "mix_ok mix \<longleftrightarrow> mix_inv mix \<and> mix_weight_sum (sizesAndWeights mix) < W64"

text \<open>
  The reverse generator stands at the last block that is left; after the first I/O, which
  takes the partial block at the end, whole blocks are left.
\<close>

definition rev_inv :: "rev_gen \<Rightarrow> bool" where
  "rev_inv g \<longleftrightarrow>
     (let tot = unat (rv_numBytesTotal g); lft = unat (rv_numBytesLeft g);
          bs = unat (rv_blockSize g)
      in lft \<le> tot \<and> (tot \<noteq> 0 \<longrightarrow> 0 < bs) \<and> unat (rv_startOffset g) + tot < W64 \<and>
         (lft \<noteq> 0 \<longrightarrow> unat (rv_currentOffset g) = unat (rv_startOffset g) + (lft - 1) div bs * bs \<and>
                    (lft = tot \<or> bs dvd lft)))"

definition range_ok :: "rand_range \<Rightarrow> bool" where
  "range_ok r \<longleftrightarrow> lengthPlusOne r \<noteq> 0 \<and> unat (rr_start r) + unat (lengthPlusOne r) \<le> W64"

fun gen_inv :: "offset_gen \<Rightarrow> bool" where
  "gen_inv (OffsetGenSequential g) = mix_ok (sq_blockSizeMix g)"
| "gen_inv (OffsetGenReverseSeq g) = rev_inv g"
| "gen_inv (OffsetGenRandom g) =
     (mix_ok (rn_blockSizeMix g) \<and> rn_maxBlockSize g = maxSize (rn_blockSizeMix g) \<and>
      range_ok (rn_randRange g))"
| "gen_inv (OffsetGenRandomAligned g) =
     (mix_ok (ra_blockSizeMix g) \<and> ra_maxBlockSize g = maxSize (ra_blockSizeMix g) \<and>
      range_ok (ra_randRange g))"
| "gen_inv (OffsetGenStrided g) = (st_blockSize g \<noteq> 0)"
| "gen_inv (OffsetGenRandomAlignedFullCoverageV2 g) =
     (fc_blockSize g \<noteq> 0 \<and> covgen_inv (fc_randomGen g))"

text \<open>What each class guarantees of the offset and the size of an I/O.\<close>

fun gen_io_ok :: "offset_gen \<Rightarrow> u64 \<Rightarrow> u64 \<Rightarrow> bool" where
  "gen_io_ok (OffsetGenSequential g) off n = (n \<le> maxSize (sq_blockSizeMix g))"
| "gen_io_ok (OffsetGenReverseSeq g) off n = (n \<le> rv_blockSize g)"
| "gen_io_ok (OffsetGenRandom g) off n =
     (rr_start (rn_randRange g) \<le> off \<and>
      unat off < unat (rr_start (rn_randRange g)) + unat (lengthPlusOne (rn_randRange g)) \<and>
      n \<le> rn_maxBlockSize g \<and> n \<le> rn_numBytesLeft g)"
| "gen_io_ok (OffsetGenRandomAligned g) off n =
     ((\<exists>v. rr_start (ra_randRange g) \<le> v \<and>
         unat v < unat (rr_start (ra_randRange g)) + unat (lengthPlusOne (ra_randRange g)) \<and>
         off = ra_offset g + v * ra_alignGrid g) \<and>
      n \<le> ra_maxBlockSize g \<and> n \<le> ra_numBytesLeft g)"
| "gen_io_ok (OffsetGenStrided g) off n = (n \<le> st_blockSize g)"
| "gen_io_ok (OffsetGenRandomAlignedFullCoverageV2 g) off n =
     ((\<exists>v \<in> {min_value (fc_randomGen g)..max_value (fc_randomGen g)}. off = v * fc_blockSize g) \<and>
      n \<le> fc_blockSize g)"

lemma mix_getNextSize_bounds:
  assumes "mix_ok mix"
  shows "\<exists>n ra'. mix_getNextSize mix ra = Inr (n, ra') \<and> n \<noteq> 0 \<and> minSize mix \<le> n \<and> n \<le> maxSize mix"
proof -
  have inv: "mix_inv mix" using assms by (simp add: mix_ok_def)
  obtain n ra' where n: "mix_getNextSize mix ra = Inr (n, ra')" "n \<in> fst ` set (sizesAndWeights mix)"
    using mix_getNextSize_ok [OF inv, of ra] assms unfolding mix_ok_def by blast
  moreover have "n \<noteq> 0" using n(2) inv by (auto simp: mix_inv_def)
  ultimately show ?thesis using mix_min_max [OF inv] by auto
qed

lemma rand_range_next_ok:
  assumes "range_ok r"
  shows "\<exists>v. rand_range_next r ra = Inr (v, snd (rand_next ra)) \<and> rr_start r \<le> v \<and>
    unat v < unat (rr_start r) + unat (lengthPlusOne r)"
proof -
  let ?x = "fst (rand_next ra) mod lengthPlusOne r"
  have "unat ?x < unat (lengthPlusOne r)"
    using assms by (simp add: range_ok_def nat_of_word word_ne_0_pos)
  then have "unat (?x + rr_start r) = unat ?x + unat (rr_start r)"
    using assms by (simp add: range_ok_def nat_of_word)
  then show ?thesis
    using assms \<open>unat ?x < unat (lengthPlusOne r)\<close>
    by (simp add: rand_range_next_def split_beta range_ok_def nat_of_word)
qed

lemma min_left_size:
  assumes "l \<noteq> (0 :: u64)" "n \<noteq> 0"
  shows "0 < min l n" "min l n \<le> l" "l - min l n \<le> l"
  using assms by (auto simp: word_gt_0 min_def intro: word_sub_le)

text \<open>One round of the reverse generator, read in natural numbers.\<close>

lemma rev_step:
  assumes inv: "rev_inv g" and l: "rv_numBytesLeft g \<noteq> 0"
  defines "n \<equiv> rev_getNextBlockSizeToSubmit g"
  shows "0 < n" "n \<le> rv_numBytesLeft g" "n \<le> rv_blockSize g" "rev_inv (rev_addBytesSubmitted n g)"
    and "unat (rv_currentOffset g) + unat n = unat (rv_startOffset g) + unat (rv_numBytesLeft g)"
proof -
  define tot lft bs st where d: "tot = unat (rv_numBytesTotal g)" "lft = unat (rv_numBytesLeft g)"
    "bs = unat (rv_blockSize g)" "st = unat (rv_startOffset g)"
  have lft: "0 < lft" "lft \<le> tot" using inv l by (simp_all add: d rev_inv_def Let_def word_ne_0_pos)
  then have bs: "0 < bs" and small: "st + tot < W64"
      and cur: "unat (rv_currentOffset g) = st + (lft - 1) div bs * bs"
      and full: "lft = tot \<or> bs dvd lft"
    using inv by (auto simp: d rev_inv_def Let_def)
  define q where "q = (lft - 1) div bs"
  have q: "q * bs \<le> lft - 1" "lft - 1 < q * bs + bs"
    using dividend_less_div_times [OF bs, of "lft - 1"] by (simp_all add: q_def)
  have "unat (rv_startOffset g + rv_numBytesTotal g) = st + tot"
    using small by (simp add: d nat_of_word)
  moreover have le: "st + q * bs \<le> st + tot" using q(1) lft by linarith
  ultimately have room: "unat (rv_startOffset g + rv_numBytesTotal g - rv_currentOffset g) = tot - q * bs"
    using cur by (simp add: nat_of_word q_def)
  have qb: "lft - q * bs = bs" if dv: "bs dvd lft"
  proof -
    obtain k where k: "lft = k * bs" using dv by (metis dvdE mult.commute)
    have "q * bs < k * bs" "k * bs \<le> q * bs + bs" using q lft(1) unfolding k by linarith+
    then have "q * bs < k * bs" "k * bs \<le> Suc q * bs" by simp_all
    then have "k = Suc q" using bs unfolding mult_less_cancel2 mult_le_cancel2 by auto
    then show ?thesis using k by simp
  qed
  have n: "unat n = lft - q * bs"
  proof (cases "lft = tot")
    case True
    then show ?thesis using room q lft by (simp add: n_def rev_getNextBlockSizeToSubmit_def unat_min d(3) [symmetric])
  next
    case False
    then have "lft - q * bs = bs" "lft < tot" using full qb lft by auto
    then show ?thesis using room q lft by (simp add: n_def rev_getNextBlockSizeToSubmit_def unat_min d(3) [symmetric])
  qed
  show "0 < n" "n \<le> rv_numBytesLeft g" "n \<le> rv_blockSize g"
    using n q lft by (simp_all add: nat_of_word d [symmetric])
  show "unat (rv_currentOffset g) + unat n = unat (rv_startOffset g) + unat (rv_numBytesLeft g)"
    using n q lft cur unfolding d [symmetric] q_def [symmetric] by linarith
  have l': "unat (rv_numBytesLeft g - n) = q * bs"
    using n q lft by (simp add: nat_of_word d [symmetric])
  have c': "unat (rv_currentOffset g - rv_blockSize g) = st + (q * bs - 1) div bs * bs" if q0: "q \<noteq> 0"
  proof -
    obtain p where "q = Suc p" using q0 by (cases q) auto
    then have c: "unat (rv_currentOffset g) = st + p * bs + bs" and qb: "q * bs = p * bs + bs"
      using cur unfolding q_def [symmetric] by simp_all
    have "p * bs + bs - 1 = (bs - 1) + p * bs" using bs by simp
    then have "(q * bs - 1) div bs = p" unfolding qb using bs by (simp only: div_mult_self1) simp
    then show ?thesis using c by (simp add: nat_of_word d [symmetric])
  qed
  show "rev_inv (rev_addBytesSubmitted n g)"
    using l' c' bs small q lft by (auto simp: rev_inv_def rev_addBytesSubmitted_def Let_def d [symmetric])
qed

text \<open>One round of the loop, for each class.\<close>

abbreviation gen_round_ok :: "offset_gen \<Rightarrow> rand_src \<Rightarrow> bool" where
  "gen_round_ok g rs \<equiv>
     \<exists>off g1 rs1 n rs2. gen_getNextOffset g rs = Some (Inr (off, g1, rs1)) \<and>
       gen_getNextBlockSizeToSubmit g1 rs1 = Inr (n, rs2) \<and>
       0 < n \<and> n \<le> gen_getNumBytesLeftToSubmit g \<and>
       gen_getNumBytesLeftToSubmit (gen_addBytesSubmitted n g1) = gen_getNumBytesLeftToSubmit g - n \<and>
       gen_inv (gen_addBytesSubmitted n g1) \<and> gen_io_ok g off n \<and>
       (\<forall>o' n'. gen_io_ok (gen_addBytesSubmitted n g1) o' n' \<longrightarrow> gen_io_ok g o' n')"

lemma seq_round:
  assumes "mix_ok (sq_blockSizeMix g)" "sq_numBytesLeft g \<noteq> 0"
  shows "gen_round_ok (OffsetGenSequential g) rs"
  using mix_getNextSize_bounds [OF assms(1), of "rs_algo rs"] assms min_left_size [OF assms(2)]
  by (auto simp: seq_getNextBlockSizeToSubmit_def with_algo_def seq_addBytesSubmitted_def min.coboundedI2)

lemma rev_round:
  assumes "rev_inv g" "rv_numBytesLeft g \<noteq> 0"
  shows "gen_round_ok (OffsetGenReverseSeq g) rs"
  using rev_step [OF assms] by (simp add: rev_addBytesSubmitted_def)

lemma rnd_round:
  assumes "gen_inv (OffsetGenRandom g)" "rn_numBytesLeft g \<noteq> 0"
  shows "gen_round_ok (OffsetGenRandom g) rs"
proof -
  obtain v ra where v: "rand_range_next (rn_randRange g) (rs_algo rs) = Inr (v, ra)"
      "rr_start (rn_randRange g) \<le> v"
      "unat v < unat (rr_start (rn_randRange g)) + unat (lengthPlusOne (rn_randRange g))"
    using rand_range_next_ok [of "rn_randRange g" "rs_algo rs"] assms(1) by auto
  obtain n ra' where n: "mix_getNextSize (rn_blockSizeMix g) ra = Inr (n, ra')" "n \<noteq> 0"
      "n \<le> maxSize (rn_blockSizeMix g)"
    using mix_getNextSize_bounds [of "rn_blockSizeMix g" ra] assms(1) by auto
  note m = min_left_size [OF assms(2) n(2)]
  have "min (rn_numBytesLeft g) n \<le> rn_maxBlockSize g"
    using n(3) assms(1) by (simp add: min.coboundedI2)
  with v n m assms(1) show ?thesis
    by (auto simp: rnd_getNextOffset_def rnd_getNextBlockSizeToSubmit_def with_algo_def
        rnd_addBytesSubmitted_def intro: order_trans)
qed

lemma ral_round:
  assumes "gen_inv (OffsetGenRandomAligned g)" "ra_numBytesLeft g \<noteq> 0"
  shows "gen_round_ok (OffsetGenRandomAligned g) rs"
proof -
  obtain v ra where v: "rand_range_next (ra_randRange g) (rs_algo rs) = Inr (v, ra)"
      "rr_start (ra_randRange g) \<le> v"
      "unat v < unat (rr_start (ra_randRange g)) + unat (lengthPlusOne (ra_randRange g))"
    using rand_range_next_ok [of "ra_randRange g" "rs_algo rs"] assms(1) by auto
  obtain n ra' where n: "mix_getNextSize (ra_blockSizeMix g) ra = Inr (n, ra')" "n \<noteq> 0"
      "n \<le> maxSize (ra_blockSizeMix g)"
    using mix_getNextSize_bounds [of "ra_blockSizeMix g" ra] assms(1) by auto
  note m = min_left_size [OF assms(2) n(2)]
  have "min (ra_numBytesLeft g) n \<le> ra_maxBlockSize g"
    using n(3) assms(1) by (simp add: min.coboundedI2)
  with v n m assms(1) show ?thesis
    by (auto simp: ral_getNextOffset_def ral_getNextBlockSizeToSubmit_def with_algo_def
        ral_addBytesSubmitted_def intro: order_trans)
qed

lemma str_round:
  assumes "st_blockSize g \<noteq> 0" "st_numBytesLeft g \<noteq> 0"
  shows "gen_round_ok (OffsetGenStrided g) rs"
  using assms min_left_size [OF assms(2,1)]
  by (simp add: str_getNextBlockSizeToSubmit_def str_addBytesSubmitted_def)

lemma fcv_round:
  assumes "gen_inv (OffsetGenRandomAlignedFullCoverageV2 g)" "fc_numBytesLeft g \<noteq> 0"
  shows "gen_round_ok (OffsetGenRandomAlignedFullCoverageV2 g) rs"
proof -
  obtain rd rs' where rd: "(if covgen_has_next (fc_randomGen g) then (0, rs) else rs_draw rs) = (rd, rs')"
    by fastforce
  obtain v gen where v: "covgen_next rd (fc_randomGen g) = Some (v, gen)"
      "v \<in> {min_value (fc_randomGen g)..max_value (fc_randomGen g)}" "covgen_inv gen"
      "min_value gen = min_value (fc_randomGen g)" "max_value gen = max_value (fc_randomGen g)"
    using covgen_next_step [of "fc_randomGen g" rd] assms(1) by auto
  have bs: "fc_blockSize g \<noteq> 0" using assms(1) by simp
  note m = min_left_size [OF assms(2) bs]
  show ?thesis
    using rd v m bs
    by (auto simp: fcv_getNextOffset_def fcv_getNextBlockSizeToSubmit_def fcv_addBytesSubmitted_def)
qed

lemma gen_round: "gen_inv g \<Longrightarrow> gen_getNumBytesLeftToSubmit g \<noteq> 0 \<Longrightarrow> gen_round_ok g rs"
  using seq_round rev_round rnd_round ral_round str_round fcv_round
  by (cases g) (simp_all del: gen_getNextOffset.simps)

interpretation og: offset_generator gen_getNumBytesLeftToSubmit gen_getNextOffset
  gen_getNextBlockSizeToSubmit gen_addBytesSubmitted gen_inv gen_io_ok
  by unfold_locales (rule gen_round)

subsection \<open>Consecutive tiles\<close>

text \<open>\<open>tiles a b ios\<close>: the I/Os, in order, cover the bytes from \<open>a\<close> up to \<open>b\<close> without gap or overlap.\<close>

fun tiles :: "nat \<Rightarrow> nat \<Rightarrow> (u64 \<times> u64) list \<Rightarrow> bool" where
  "tiles a b [] = (a = b)"
| "tiles a b ((off, n) # ios) = (unat off = a \<and> 0 < n \<and> tiles (a + unat n) b ios)"

lemma tiles_snoc: "tiles a b (ios @ [(off, n)]) \<longleftrightarrow> tiles a (unat off) ios \<and> 0 < n \<and> unat off + unat n = b"
  by (induction a b ios rule: tiles.induct) auto

lemma seq_drain_tiles:
  assumes "gen_drain (OffsetGenSequential g) rs = Some (Inr (ios, g', rs'))"
    and "mix_ok (sq_blockSizeMix g)" "unat (sq_currentOffset g) + unat (sq_numBytesLeft g) < W64"
  shows "tiles (unat (sq_currentOffset g)) (unat (sq_currentOffset g) + unat (sq_numBytesLeft g)) ios"
proof -
  let ?R = "\<lambda>gg ios. \<forall>g. gg = OffsetGenSequential g \<longrightarrow>
      unat (sq_currentOffset g) + unat (sq_numBytesLeft g) < W64 \<longrightarrow>
      tiles (unat (sq_currentOffset g)) (unat (sq_currentOffset g) + unat (sq_numBytesLeft g)) ios"
  have "?R (OffsetGenSequential g) ios"
  proof (rule og.drain_induct [OF _ assms(1)], goal_cases)
    case 1
    then show ?case using assms(2) by simp
  next
    case (2 g)
    then show ?case by auto
  next
    case (3 gg rs off g1 rs1 n rs2 ios)
    show ?case
    proof (intro allI impI)
      fix g
      assume g: "gg = OffsetGenSequential g"
        and lt: "unat (sq_currentOffset g) + unat (sq_numBytesLeft g) < W64"
      have o: "off = sq_currentOffset g" "g1 = OffsetGenSequential g" using 3(3) g by auto
      have n: "0 < n" "n \<le> sq_numBytesLeft g"
        using gen_round [OF 3(1,2), of rs] 3(3,4) g by auto
      have u: "unat (sq_currentOffset g + n) = unat (sq_currentOffset g) + unat n"
          "unat (sq_numBytesLeft g - n) = unat (sq_numBytesLeft g) - unat n" "unat n \<le> unat (sq_numBytesLeft g)"
        using n lt by (auto simp: nat_of_word)
      show "tiles (unat (sq_currentOffset g)) (unat (sq_currentOffset g) + unat (sq_numBytesLeft g)) ((off, n) # ios)"
        using 3(6) o n u lt by (simp add: seq_addBytesSubmitted_def)
    qed
  qed
  then show ?thesis using assms(3) by blast
qed

lemma rev_drain_tiles:
  assumes "gen_drain (OffsetGenReverseSeq g) rs = Some (Inr (ios, g', rs'))" "rev_inv g"
  shows "tiles (unat (rv_startOffset g)) (unat (rv_startOffset g) + unat (rv_numBytesLeft g)) (rev ios)"
proof -
  let ?R = "\<lambda>gg ios. \<forall>g. gg = OffsetGenReverseSeq g \<longrightarrow>
      tiles (unat (rv_startOffset g)) (unat (rv_startOffset g) + unat (rv_numBytesLeft g)) (rev ios)"
  have "?R (OffsetGenReverseSeq g) ios"
  proof (rule og.drain_induct [OF _ assms(1)], goal_cases)
    case 1
    then show ?case using assms(2) by simp
  next
    case (2 g)
    then show ?case by auto
  next
    case (3 gg rs off g1 rs1 n rs2 ios)
    show ?case
    proof (intro allI impI)
      fix g
      assume g: "gg = OffsetGenReverseSeq g"
      have o: "off = rv_currentOffset g" "g1 = OffsetGenReverseSeq g" "n = rev_getNextBlockSizeToSubmit g"
        using 3(3,4) g by auto
      note st = rev_step [of g, folded o(3)]
      have l: "unat (rv_numBytesLeft g - n) = unat (rv_numBytesLeft g) - unat n" "unat n \<le> unat (rv_numBytesLeft g)"
        using st(2) 3(1,2) g by (auto simp: nat_of_word)
      have e: "unat (rv_startOffset g) + unat (rv_numBytesLeft g) - unat n = unat (rv_currentOffset g)"
        using st(5) 3(1,2) g by auto
      show "tiles (unat (rv_startOffset g)) (unat (rv_startOffset g) + unat (rv_numBytesLeft g)) (rev ((off, n) # ios))"
        using 3(1,2,6) o st(1,5) l g e by (auto simp: tiles_snoc rev_addBytesSubmitted_def)
    qed
  qed
  then show ?thesis by blast
qed

text \<open>
  What the reverse generator submits for \<open>n\<close> bytes from \<open>start\<close> on: the partial block at the end, if there
  is one, then the whole blocks from the last one down to the first.
\<close>

definition rev_blocks :: "nat \<Rightarrow> nat \<Rightarrow> nat \<Rightarrow> (nat \<times> nat) list" where
  "rev_blocks start bs n =
     (if n mod bs = 0 then [] else [(start + n div bs * bs, n mod bs)]) @
     map (\<lambda>i. (start + i * bs, bs)) (rev [0..<n div bs])"

lemma rev_blocks_step:
  assumes "0 < n" "0 < bs"
  defines "q \<equiv> (n - 1) div bs"
  shows "rev_blocks start bs n = (start + q * bs, n - q * bs) # rev_blocks start bs (q * bs)"
proof (cases "n mod bs = 0")
  case True
  then have "bs dvd n" by (simp add: dvd_eq_mod_eq_0)
  then obtain j where "n = bs * j" by (rule dvdE)
  then obtain k where k: "n = Suc k * bs" using assms(1) by (cases j) auto
  have "(n - 1) div bs = k"
  proof -
    have "n - 1 = (bs - 1) + k * bs" using k assms(2) by simp
    then show ?thesis using assms(2) by (simp only: div_mult_self1) simp
  qed
  then show ?thesis using k assms(2) by (simp add: rev_blocks_def q_def)
next
  case False
  then have "q = n div bs" using assms(1,2) unfolding q_def by (metis Suc_diff_1 div_Suc)
  moreover have "n - n div bs * bs = n mod bs" by (simp add: minus_div_mult_eq_mod)
  ultimately show ?thesis using False assms(2) by (simp add: rev_blocks_def)
qed

abbreviation io_nat :: "u64 \<times> u64 \<Rightarrow> nat \<times> nat" where
  "io_nat \<equiv> map_prod unat unat"

lemma rev_drain_blocks:
  assumes "gen_drain (OffsetGenReverseSeq g) rs = Some (Inr (ios, g', rs'))" "rev_inv g"
  shows "map io_nat ios = rev_blocks (unat (rv_startOffset g)) (unat (rv_blockSize g)) (unat (rv_numBytesLeft g))"
proof -
  let ?R = "\<lambda>gg ios. \<forall>g. gg = OffsetGenReverseSeq g \<longrightarrow>
      map io_nat ios = rev_blocks (unat (rv_startOffset g)) (unat (rv_blockSize g)) (unat (rv_numBytesLeft g))"
  have "?R (OffsetGenReverseSeq g) ios"
  proof (rule og.drain_induct [OF _ assms(1)], goal_cases)
    case 1
    then show ?case using assms(2) by simp
  next
    case (2 g)
    then show ?case by (auto simp: rev_blocks_def)
  next
    case (3 gg rs off g1 rs1 n rs2 ios)
    show ?case
    proof (intro allI impI)
      fix g
      assume g: "gg = OffsetGenReverseSeq g"
      let ?st = "unat (rv_startOffset g)" and ?bs = "unat (rv_blockSize g)" and ?l = "unat (rv_numBytesLeft g)"
      have o: "off = rv_currentOffset g" "g1 = OffsetGenReverseSeq g" "n = rev_getNextBlockSizeToSubmit g"
        using 3(3,4) g by auto
      note st = rev_step [of g, folded o(3)]
      have inv: "rev_inv g" "rv_numBytesLeft g \<noteq> 0" using 3(1,2) g by auto
      then have l: "0 < ?l" "0 < ?bs" "unat off = ?st + (?l - 1) div ?bs * ?bs"
        by (auto simp: o(1) rev_inv_def Let_def word_ne_0_pos)
      have n: "unat n = ?l - (?l - 1) div ?bs * ?bs" "n \<le> rv_numBytesLeft g"
        using st(2,5) inv l(3) unfolding o(1) by auto
      moreover have "(?l - 1) div ?bs * ?bs \<le> ?l" using div_times_less_eq_dividend [of "?l - 1" ?bs] by linarith
      ultimately have "unat (rv_numBytesLeft g - n) = (?l - 1) div ?bs * ?bs" by (simp add: nat_of_word)
      then show "map io_nat ((off, n) # ios) = rev_blocks ?st ?bs ?l"
        using 3(6) o(2) l n(1) rev_blocks_step [OF l(1,2), of ?st] by (simp add: rev_addBytesSubmitted_def)
    qed
  qed
  then show ?thesis by blast
qed

subsection \<open>Strides\<close>

lemma left_multiple:
  assumes "unat (l :: u64) = Suc k * unat (bs :: u64)" "bs \<noteq> 0"
  shows "min l bs = bs" "unat (l - bs) = k * unat bs" "l \<noteq> 0"
  using assms by (auto simp: nat_of_word min_def word_ne_0_pos unat_eq_iff_u64)

lemma str_drain_offsets:
  assumes "gen_drain (OffsetGenStrided g) rs = Some (Inr (ios, g', rs'))"
    and "st_blockSize g \<noteq> 0" "unat (st_numBytesLeft g) = k * unat (st_blockSize g)"
  shows "ios = map (\<lambda>i. (st_currentOffset g + of_nat i * (st_blockSize g * st_numDataSetThreads g),
                     st_blockSize g)) [0..<k]"
proof -
  let ?R = "\<lambda>gg ios. \<forall>g k. gg = OffsetGenStrided g \<longrightarrow> unat (st_numBytesLeft g) = k * unat (st_blockSize g) \<longrightarrow>
    ios = map (\<lambda>i. (st_currentOffset g + of_nat i * (st_blockSize g * st_numDataSetThreads g),
                 st_blockSize g)) [0..<k]"
  have "?R (OffsetGenStrided g) ios"
  proof (rule og.drain_induct [OF _ assms(1)], goal_cases)
    case 1
    then show ?case using assms(2) by simp
  next
    case (2 g)
    then show ?case by (auto simp: word_ne_0_pos)
  next
    case (3 gg rs off g1 rs1 n rs2 ios)
    show ?case
    proof (intro allI impI)
      fix g k
      assume g: "gg = OffsetGenStrided g" and k: "unat (st_numBytesLeft g) = k * unat (st_blockSize g)"
      have bs: "st_blockSize g \<noteq> 0" using 3(1) g by simp
      obtain j where j: "k = Suc j" using k 3(2) g by (cases k) (auto simp: word_ne_0_pos)
      note l = left_multiple [OF k [unfolded j] bs]
      have o: "off = st_currentOffset g" "g1 = OffsetGenStrided g" "n = st_blockSize g"
        using 3(3,4) g l(1) by (auto simp: str_getNextBlockSizeToSubmit_def)
      have "ios = map (\<lambda>i. (st_currentOffset g + of_nat (Suc i) * (st_blockSize g * st_numDataSetThreads g),
                 st_blockSize g)) [0..<j]"
        using 3(6) o l(2) by (simp add: str_addBytesSubmitted_def algebra_simps)
      then show "(off, n) # ios = map (\<lambda>i. (st_currentOffset g + of_nat i * (st_blockSize g * st_numDataSetThreads g),
                 st_blockSize g)) [0..<k]"
        using o by (simp add: j map_upt_Suc del: upt_Suc of_nat_Suc)
    qed
  qed
  then show ?thesis using assms(3) by blast
qed

subsection \<open>Full coverage\<close>

text \<open>The sizes of the I/Os for \<open>n\<close> bytes: whole blocks, and what is left at the end.\<close>

definition fcv_sizes :: "nat \<Rightarrow> nat \<Rightarrow> nat list" where
  "fcv_sizes bs n = replicate (n div bs) bs @ (if n mod bs = 0 then [] else [n mod bs])"

lemma fcv_sizes_step:
  assumes "0 < n" "0 < bs"
  shows "fcv_sizes bs n = min n bs # fcv_sizes bs (n - min n bs)"
proof (cases "bs \<le> n")
  case True
  then have "n div bs = Suc ((n - bs) div bs)" "n mod bs = (n - bs) mod bs"
    using assms by (simp_all add: le_div_geq le_mod_geq)
  then show ?thesis using True by (simp add: fcv_sizes_def min_def)
qed (use assms in \<open>simp add: fcv_sizes_def min_def\<close>)

lemma fcv_drain_take:
  assumes "gen_drain (OffsetGenRandomAlignedFullCoverageV2 g) rs = Some (Inr (ios, g', rs'))"
    and "gen_inv (OffsetGenRandomAlignedFullCoverageV2 g)"
  shows "\<exists>rds vs gen. covgen_take rds (fc_randomGen g) = Some (vs, gen) \<and>
    map fst ios = map (\<lambda>v. v * fc_blockSize g) vs \<and>
    map (\<lambda>io. unat (snd io)) ios = fcv_sizes (unat (fc_blockSize g)) (unat (fc_numBytesLeft g))"
proof -
  let ?C = "OffsetGenRandomAlignedFullCoverageV2"
  let ?Q = "\<lambda>g ios. \<exists>rds vs gen. covgen_take rds (fc_randomGen g) = Some (vs, gen) \<and>
    map fst ios = map (\<lambda>v. v * fc_blockSize g) vs \<and>
    map (\<lambda>io. unat (snd io)) ios = fcv_sizes (unat (fc_blockSize g)) (unat (fc_numBytesLeft g))"
  let ?R = "\<lambda>gg ios. \<forall>g. gg = ?C g \<longrightarrow> ?Q g ios"
  have "?R (?C g) ios"
  proof (rule og.drain_induct [OF _ assms(1)], goal_cases)
    case 1
    then show ?case using assms(2) by simp
  next
    case (2 g)
    then show ?case by (auto simp: fcv_sizes_def intro: exI [of _ "[]"])
  next
    case (3 gg rs off g1 rs1 n rs2 ios)
    show ?case
    proof (intro allI impI)
      fix g
      assume g: "gg = ?C g"
      let ?B = "unat (fc_blockSize g)" and ?L = "unat (fc_numBytesLeft g)"
      have pos: "0 < ?L" "0 < ?B" using 3(1,2) g by (simp_all add: word_ne_0_pos)
      obtain rd v gen where o: "covgen_next rd (fc_randomGen g) = Some (v, gen)"
          "off = v * fc_blockSize g" "g1 = ?C (g\<lparr>fc_randomGen := gen\<rparr>)"
        using 3(3) g by (auto simp: fcv_getNextOffset_def split: prod.splits option.splits)
      have n: "n = min (fc_numBytesLeft g) (fc_blockSize g)" using 3(4) o(3) by (simp add: fcv_getNextBlockSizeToSubmit_def)
      have u: "unat n = min ?L ?B" "unat (fc_numBytesLeft g - n) = ?L - min ?L ?B"
        unfolding n by (auto simp: unat_min nat_of_word)
      obtain rds vs gen' where ih: "covgen_take rds gen = Some (vs, gen')" "map fst ios = map (\<lambda>v. v * fc_blockSize g) vs"
          "map (\<lambda>io. unat (snd io)) ios = fcv_sizes ?B (?L - min ?L ?B)"
        using 3(6) o(3) u(2) by (auto simp: fcv_addBytesSubmitted_def)
      show "?Q g ((off, n) # ios)"
        using o ih u(1) fcv_sizes_step [OF pos] by (intro exI [of _ "rd # rds"] exI [of _ "v # vs"] exI [of _ gen']) simp
    qed
  qed
  then show ?thesis by blast
qed

subsection \<open>Fresh generators\<close>

lemma rev_new_inv:
  assumes "rev_new len offset bs = Inr g" "unat offset + unat len < W64"
  shows "rev_inv g \<and> rv_startOffset g = offset \<and> rv_numBytesLeft g = len \<and> rv_numBytesTotal g = len"
proof (cases "len = 0")
  case True
  then show ?thesis using assms by (auto simp: rev_new_def rev_reset_def rev_inv_def Let_def)
next
  case False
  let ?n = "unat len" and ?b = "unat bs"
  have n: "0 < ?n" and b: "0 < ?b" "bs \<noteq> 0"
    using assms(1) False by (auto simp: rev_new_def rev_reset_def Let_def word_ne_0_pos split: if_splits)
  have r: "unat (len mod bs) = ?n mod ?b" by (simp add: nat_of_word)
  have ol: "unat (offset + len) = unat offset + ?n" using assms(2) by (simp add: nat_of_word)
  have "unat (offset + len - (if len mod bs \<noteq> 0 then len mod bs else bs)) =
      unat offset + (?n - 1) div ?b * ?b"
  proof (cases "?n mod ?b = 0")
    case True
    then have "?b dvd ?n" by (simp add: dvd_eq_mod_eq_0)
    then obtain k where k: "?n = ?b * k" by (rule dvdE)
    then obtain q where q: "?n = Suc q * ?b" using n by (cases k) auto
    have "?n - 1 = (?b - 1) + q * ?b" using q b by simp
    then have "(?n - 1) div ?b = q" using b by (simp only: div_mult_self1) simp
    moreover have "len mod bs = 0" using r True by (simp add: unat_eq_iff_u64)
    ultimately show ?thesis using q ol by (simp add: nat_of_word)
  next
    case False
    then have "len mod bs \<noteq> 0" using r by (metis unat_0)
    moreover have "(?n - 1) div ?b = ?n div ?b"
      using False b n by (metis Suc_diff_1 div_Suc)
    moreover have "?n div ?b * ?b = ?n - ?n mod ?b" by (simp add: minus_mod_eq_div_mult)
    moreover have "len mod bs \<le> offset + len"
      unfolding word_le_nat_alt r ol by (simp add: trans_le_add2)
    ultimately show ?thesis using unat_sub_no [of "len mod bs" "offset + len"] r ol by simp
  qed
  moreover have "g = \<lparr>rv_numBytesTotal = len, rv_numBytesLeft = len, rv_startOffset = offset,
      rv_currentOffset = offset + len - (if len mod bs \<noteq> 0 then len mod bs else bs), rv_blockSize = bs\<rparr>"
    using assms(1) False b(2) by (auto simp: rev_new_def rev_reset_def Let_def split: if_splits)
  ultimately show ?thesis using assms(2) b by (auto simp: rev_inv_def Let_def)
qed

lemma rev_new_blockSize: "rev_new len offset bs = Inr g \<Longrightarrow> rv_blockSize g = bs"
  by (auto simp: rev_new_def rev_reset_def Let_def split: if_splits)

lemma rand_range_new_ok:
  assumes "rand_range_new lo hi = Inr r" "unat hi < W64 - 1"
  shows "range_ok r \<and> rr_start r = lo \<and> unat lo + unat (lengthPlusOne r) = unat hi + 1"
proof -
  have r: "lo \<le> hi" "r = \<lparr>rr_start = lo, lengthPlusOne = hi - lo + 1\<rparr>"
    using assms(1) by (auto simp: rand_range_new_def Let_def split: if_splits)
  have "hi - lo + 1 \<noteq> 0" using range_wraps_iff [OF r(1)] assms(2) by auto
  note u = unat_range_size [OF r(1) this]
  with \<open>hi - lo + 1 \<noteq> 0\<close> show ?thesis using r assms(2) by (auto simp: range_ok_def nat_of_word)
qed

lemma rnd_new_ok:
  assumes "rnd_new tot len offset mix = Inr g" "mix_ok mix" "len \<noteq> 0" "unat offset + unat len < W64"
  shows "gen_inv (OffsetGenRandom g)" "rr_start (rn_randRange g) = offset" "rn_numBytesLeft g = tot"
    "unat offset + unat (lengthPlusOne (rn_randRange g)) + unat (min (maxSize mix) len) =
      unat offset + unat len + 1" "rn_maxBlockSize g = maxSize mix"
proof -
  let ?m = "min (maxSize mix) len"
  have "maxSize mix \<noteq> 0"
    using mix_getNextSize_bounds [OF assms(2)] by (metis word_le_0_iff)
  then have m: "0 < unat ?m" "unat ?m \<le> unat len"
    using assms(3) by (simp_all add: unat_min word_ne_0_pos)
  have "unat (offset + len) = unat offset + unat len" using assms(4) by (simp add: nat_of_word)
  then have hi: "unat (offset + len - ?m) = unat offset + unat len - unat ?m"
    using m(2) unat_sub_no [of ?m "offset + len"] by (simp add: word_le_nat_alt)
  obtain r where r: "rand_range_new offset (offset + len - ?m) = Inr r"
      "g = \<lparr>rn_randRange = r, rn_numBytesTotal = tot, rn_numBytesLeft = tot,
        rn_blockSizeMix = mix, rn_maxBlockSize = maxSize mix\<rparr>"
    using assms(1) by (auto simp: rnd_new_def)
  have "range_ok r \<and> rr_start r = offset \<and> unat offset + unat (lengthPlusOne r) = unat (offset + len - ?m) + 1"
    using hi m assms(4) by (intro rand_range_new_ok [OF r(1)]) linarith
  then show "gen_inv (OffsetGenRandom g)" "rr_start (rn_randRange g) = offset" "rn_numBytesLeft g = tot"
      "unat offset + unat (lengthPlusOne (rn_randRange g)) + unat ?m = unat offset + unat len + 1"
      "rn_maxBlockSize g = maxSize mix"
    using r(2) assms(2) hi m by simp_all
qed

lemma ral_new_ok:
  assumes "ral_new tot len offset mix = Inr g" "mix_ok mix" "len \<noteq> 0"
  shows "gen_inv (OffsetGenRandomAligned g)" "rr_start (ra_randRange g) = 0" "ra_numBytesLeft g = tot"
    "unat (lengthPlusOne (ra_randRange g)) =
       (unat len - unat (min (maxSize mix) len)) div unat (min (minSize mix) len) + 1"
    "ra_maxBlockSize g = maxSize mix" "ra_alignGrid g = minSize mix" "ra_offset g = offset"
proof -
  let ?m = "min (maxSize mix) len" and ?k = "min (minSize mix) len"
  have inv: "mix_inv mix" using assms(2) by (simp add: mix_ok_def)
  have ne: "fst ` set (sizesAndWeights mix) \<noteq> {}" "0 \<notin> fst ` set (sizesAndWeights mix)"
    using inv by (auto simp: mix_inv_def)
  have "minSize mix \<noteq> 0" "maxSize mix \<noteq> 0"
    using mix_min_max [OF inv] Max_in [OF _ ne(1)] Min_in [OF _ ne(1)] ne(2) by (metis finite_imageI finite_set)+
  then have m: "0 < unat ?m" "unat ?m \<le> unat len" "0 < unat ?k" "?k \<noteq> 0"
    using assms(3) by (simp_all add: unat_min word_ne_0_pos)
  have hi: "unat ((len - ?m) div ?k) = (unat len - unat ?m) div unat ?k"
    by (simp add: nat_of_word)
  obtain r where r: "rand_range_new 0 ((len - ?m) div ?k) = Inr r"
      "g = \<lparr>ra_randRange = r, ra_numBytesTotal = tot, ra_numBytesLeft = tot, ra_offset = offset,
        ra_blockSizeMix = mix, ra_maxBlockSize = maxSize mix, ra_alignGrid = minSize mix\<rparr>"
    using assms(1) m(4) by (auto simp: ral_new_def)
  have "(unat len - unat ?m) div unat ?k \<le> unat len - unat ?m" by (rule div_le_dividend)
  then have "range_ok r \<and> rr_start r = 0 \<and> unat (0 :: u64) + unat (lengthPlusOne r) = unat ((len - ?m) div ?k) + 1"
    using hi m unat_less_W64 [of len] by (intro rand_range_new_ok [OF r(1)]) linarith
  then show "gen_inv (OffsetGenRandomAligned g)" "rr_start (ra_randRange g) = 0" "ra_numBytesLeft g = tot"
      "unat (lengthPlusOne (ra_randRange g)) = (unat len - unat ?m) div unat ?k + 1"
      "ra_maxBlockSize g = maxSize mix" "ra_alignGrid g = minSize mix" "ra_offset g = offset"
    using r(2) assms(2) hi by simp_all
qed

lemma ral_io_in_range:
  assumes g: "ral_new tot len offset mix = Inr g" "mix_ok mix" "len \<noteq> 0" "unat offset + unat len < W64"
    and io: "gen_io_ok (OffsetGenRandomAligned g) off n"
    and fit: "tot \<le> len \<or> maxSize mix \<le> len"
  shows "unat offset \<le> unat off" "unat off + unat n \<le> unat offset + unat len"
    "unat (minSize mix) dvd unat off - unat offset"
proof -
  note ok = ral_new_ok [OF g(1-3)]
  let ?m = "unat (min (maxSize mix) len)" and ?k = "unat (min (minSize mix) len)"
  obtain v where v: "unat v \<le> (unat len - ?m) div ?k" "off = offset + v * minSize mix"
      "n \<le> maxSize mix" "n \<le> tot"
    using io ok(2-7) by (simp add: less_Suc_eq_le) blast
  have n: "unat n \<le> ?m" using v(3,4) fit by (auto simp: nat_of_word unat_min)
  have vm: "unat v * unat (minSize mix) \<le> unat len - ?m"
  proof (cases "minSize mix \<le> len")
    case True
    then have "?k = unat (minSize mix)" by (simp add: min_def)
    then have "unat v * unat (minSize mix) \<le> (unat len - ?m) div unat (minSize mix) * unat (minSize mix)"
      using v(1) by (intro mult_right_mono) auto
    then show ?thesis by (rule order_trans) (simp add: div_times_less_eq_dividend)
  next
    case False
    moreover have "minSize mix \<le> maxSize mix"
      using mix_getNextSize_bounds [OF g(2)] by (metis order_trans)
    ultimately have "?m = unat len" by (auto simp: min_def)
    then show ?thesis using v(1) by simp
  qed
  have ml: "?m \<le> unat len" by (simp add: unat_min)
  then have lt: "unat offset + unat v * unat (minSize mix) < W64" using vm g(4) by linarith
  then have "unat off = unat offset + unat v * unat (minSize mix)"
    unfolding v(2) by (simp add: nat_of_word)
  then show "unat offset \<le> unat off" "unat off + unat n \<le> unat offset + unat len"
      "unat (minSize mix) dvd unat off - unat offset"
    using vm n ml by auto
qed

lemma rnd_io_in_range:
  assumes g: "rnd_new tot len offset mix = Inr g" "mix_ok mix" "len \<noteq> 0" "unat offset + unat len < W64"
    and io: "gen_io_ok (OffsetGenRandom g) off n"
    and fit: "tot \<le> len \<or> maxSize mix \<le> len"
  shows "unat offset \<le> unat off" "unat off + unat n \<le> unat offset + unat len"
proof -
  note ok = rnd_new_ok [OF g]
  have n: "unat n \<le> unat (min (maxSize mix) len)"
    using io ok fit by (auto simp: nat_of_word unat_min)
  show "unat offset \<le> unat off" "unat off + unat n \<le> unat offset + unat len"
    using io ok n by (simp_all add: word_le_nat_alt)
qed

lemma fcv_new_ok:
  assumes "fcv_new tot len offset bs rd = Inr g" "bs \<noteq> 0"
  shows "gen_inv (OffsetGenRandomAlignedFullCoverageV2 g)" "fc_numBytesLeft g = tot" "fc_blockSize g = bs"
    "min_value (fc_randomGen g) = calcStartBlockIdx offset bs"
    "max_value (fc_randomGen g) = calcEndBlockIdx offset len bs" "current_count (fc_randomGen g) = 0"
proof -
  obtain gen where gen: "covgen_new (calcStartBlockIdx offset bs) (calcEndBlockIdx offset len bs) rd = Inr gen"
      "g = \<lparr>fc_numBytesTotal = tot, fc_numBytesLeft = tot, fc_rangeLen = len, fc_blockSize = bs, fc_randomGen = gen\<rparr>"
    using assms(1) by (auto simp: fcv_new_def)
  show "gen_inv (OffsetGenRandomAlignedFullCoverageV2 g)" "fc_numBytesLeft g = tot" "fc_blockSize g = bs"
    "min_value (fc_randomGen g) = calcStartBlockIdx offset bs"
    "max_value (fc_randomGen g) = calcEndBlockIdx offset len bs" "current_count (fc_randomGen g) = 0"
    using covgen_new_inv [OF gen(1)] gen(2) assms(2) by simp_all
qed

lemma fcv_block_range:
  assumes bs: "bs \<noteq> 0" and lt: "unat offset + max (unat len) (unat bs) < W64"
  defines "b \<equiv> unat offset div unat bs" and "k \<equiv> max 1 (unat len div unat bs)"
  shows "unat (calcStartBlockIdx offset bs) = b" "unat (calcEndBlockIdx offset len bs) = b + k - 1"
    "(b + k) * unat bs < W64"
proof -
  have p: "0 < unat bs" using bs by (simp add: word_ne_0_pos)
  show st: "unat (calcStartBlockIdx offset bs) = b"
    using bs by (simp add: calcStartBlockIdx_def nat_of_word b_def)
  have "b * unat bs \<le> unat offset" "unat len div unat bs * unat bs \<le> unat len" by (simp_all add: b_def div_times_less_eq_dividend)
  moreover have "k = unat len div unat bs \<or> k = 1" by (auto simp: k_def max_def)
  then have "k * unat bs \<le> max (unat len) (unat bs)" using calculation(2) by (auto simp: le_max_iff_disj)
  ultimately show bk: "(b + k) * unat bs < W64" using lt unfolding add_mult_distrib by linarith
  have kd: "unat (len div bs) = unat len div unat bs" by (simp add: nat_of_word)
  have "b + k \<le> (b + k) * unat bs" using p by (cases "unat bs") auto
  with bk have sm: "b + (k - 1) < W64" by linarith
  show "unat (calcEndBlockIdx offset len bs) = b + k - 1"
  proof (cases "len div bs = 0")
    case True
    then have "k = 1" using kd by (simp add: k_def)
    then show ?thesis using st bs True by (simp add: calcEndBlockIdx_def)
  next
    case False
    then have "0 < unat len div unat bs" using kd by (metis unat_0_iff gr0I)
    then have "unat (len div bs - 1) = k - 1" "1 \<le> k" using unat_minus_one [OF False] kd by (simp_all add: k_def)
    then show ?thesis using bs st sm False by (simp add: calcEndBlockIdx_def nat_of_word)
  qed
qed


text \<open>The offsets of the I/Os from number \<open>j * k\<close> on, at most \<open>k\<close> of them.\<close>

definition io_run :: "nat \<Rightarrow> nat \<Rightarrow> (u64 \<times> u64) list \<Rightarrow> nat list" where
  "io_run k j ios = take k (drop (j * k) (map (\<lambda>io. unat (fst io)) ios))"

lemma fcv_drain_blocks:
  assumes g: "fcv_new tot len offset bs rd = Inr g" and bs: "bs \<noteq> 0" and lt: "unat offset + max (unat len) (unat bs) < W64"
    and d: "gen_drain (OffsetGenRandomAlignedFullCoverageV2 g) rs = Some (Inr (ios, g', rs'))"
  defines "b \<equiv> unat offset div unat bs" and "k \<equiv> max 1 (unat len div unat bs)"
  shows "map (\<lambda>io. unat (snd io)) ios = fcv_sizes (unat bs) (unat tot)"
    "distinct (io_run k j ios)" "set (io_run k j ios) \<subseteq> (\<lambda>i. i * unat bs) ` {b..<b + k}"
    "length (io_run k j ios) = k \<longrightarrow> set (io_run k j ios) = (\<lambda>i. i * unat bs) ` {b..<b + k}"
proof -
  note ok = fcv_new_ok [OF g bs] and rng = fcv_block_range [OF bs lt, folded b_def k_def]
  have p: "0 < unat bs" "1 \<le> k" using bs by (simp_all add: word_ne_0_pos k_def)
  let ?gen = "fc_randomGen g"
  have inv: "covgen_inv ?gen" using ok(1) by simp
  have lohi: "unat ` {min_value ?gen..max_value ?gen} = {b..<b + k}"
    using rng(1,2) p(2) unfolding unat_image_atLeastAtMost ok(4,5) by auto
  have "card (unat ` {min_value ?gen..max_value ?gen}) = card {min_value ?gen..max_value ?gen}"
    by (intro card_image) (auto simp: inj_on_def unat_eq_iff_u64)
  then have rs: "unat (range_size ?gen) = k" using covgen_range_card [OF inv] unfolding lohi by simp
  obtain rds vs gen where t: "covgen_take rds ?gen = Some (vs, gen)" "map fst ios = map (\<lambda>v. v * bs) vs"
      "map (\<lambda>io. unat (snd io)) ios = fcv_sizes (unat bs) (unat tot)"
    using fcv_drain_take [OF d ok(1)] ok(2,3) by auto
  show "map (\<lambda>io. unat (snd io)) ios = fcv_sizes (unat bs) (unat tot)" by (rule t(3))
  let ?vs = "take k (drop (j * k) vs)"
  note run = covgen_take_runs [OF inv ok(6) t(1), of j, unfolded rs]
  have mul: "unat (v * bs) = unat v * unat bs" if "v \<in> set ?vs" for v
  proof -
    have "unat v < b + k" using that run(2) lohi by (metis atLeastLessThan_iff imageI subsetD)
    then have "unat v * unat bs \<le> (b + k) * unat bs" by (intro mult_le_mono1) simp
    then have "unat v * unat bs < W64" using rng(3) by (rule le_less_trans)
    then show ?thesis by (rule unat_mult_no)
  qed
  have r: "io_run k j ios = map (\<lambda>v. unat v * unat bs) ?vs"
  proof -
    have "map (\<lambda>io. unat (fst io)) ios = map (\<lambda>v. unat (v * bs)) vs" using arg_cong [OF t(2), of "map unat"] by (simp add: comp_def)
    then show ?thesis using mul by (simp add: io_run_def drop_map take_map)
  qed
  show dist: "distinct (io_run k j ios)" using run(1) p(1) by (auto simp: r distinct_map inj_on_def unat_eq_iff_u64)
  have "unat ` set ?vs \<subseteq> {b..<b + k}" using run(2) lohi by blast
  then show sub: "set (io_run k j ios) \<subseteq> (\<lambda>i. i * unat bs) ` {b..<b + k}" unfolding r by auto
  show "length (io_run k j ios) = k \<longrightarrow> set (io_run k j ios) = (\<lambda>i. i * unat bs) ` {b..<b + k}"
  proof
    assume "length (io_run k j ios) = k"
    moreover have "card ((\<lambda>i. i * unat bs) ` {b..<b + k}) = k" using p(1) by (subst card_image) (auto simp: inj_on_def)
    ultimately show "set (io_run k j ios) = (\<lambda>i. i * unat bs) ` {b..<b + k}"
      using dist sub by (intro card_subset_eq) (simp_all add: distinct_card)
  qed
qed

lemma stride_bij:
  assumes "0 < T"
  shows "bij_betw (\<lambda>(r, i). r + i * T) ({..<T} \<times> {..<k}) {..<k * T :: nat}"
proof (rule bij_betw_byWitness [where f' = "\<lambda>b. (b mod T, b div T)"])
  show "(\<lambda>(r, i). r + i * T) ` ({..<T} \<times> {..<k}) \<subseteq> {..<k * T}"
  proof clarsimp
    fix r i
    assume "r < T" "i < k"
    then have "r + i * T < Suc i * T" by simp
    also have "\<dots> \<le> k * T" using \<open>i < k\<close> by (intro mult_le_mono1) simp
    finally show "r + i * T < k * T" .
  qed
qed (use assms in \<open>auto simp: less_mult_imp_div_less\<close>)

lemma stride_offset:
  assumes "r < T" "i < k" "k * T * unat (bs :: u64) < W64"
  shows "unat (bs * of_nat r + of_nat i * (bs * of_nat T)) = (r + i * T) * unat bs"
proof -
  have "r + i * T < k * T"
    using bij_betwE [OF stride_bij [of T k]] assms(1,2) by fastforce
  then have "(r + i * T) * unat bs \<le> k * T * unat bs" by simp
  then have "(r + i * T) * unat bs < W64" using assms(3) by linarith
  moreover have "bs * of_nat r + of_nat i * (bs * of_nat T) = of_nat ((r + i * T) * unat bs)"
    by (simp add: algebra_simps)
  ultimately show ?thesis by (simp only: unat_of_nat_no)
qed

text \<open>
  The strided generators of \<open>T\<close> threads with \<open>k\<close> blocks each: thread \<open>r\<close> starts at block \<open>r\<close>, and together
  they submit the first \<open>k T\<close> blocks.
\<close>

definition str_ios :: "u64 \<Rightarrow> nat \<Rightarrow> nat \<Rightarrow> nat \<Rightarrow> (u64 \<times> u64) list" where
  "str_ios bs T k r = map (\<lambda>i. (bs * of_nat r + of_nat i * (bs * of_nat T), bs)) [0..<k]"

lemma str_new_drain:
  assumes "bs \<noteq> 0" "unat len = k * unat bs"
  shows "\<exists>g' rs'. gen_drain (OffsetGenStrided (str_new len (bs * of_nat r) bs (of_nat T))) rs =
    Some (Inr (str_ios bs T k r, g', rs'))"
proof -
  let ?g = "str_new len (bs * of_nat r) bs (of_nat T)"
  obtain ios g' rs' where d: "gen_drain (OffsetGenStrided ?g) rs = Some (Inr (ios, g', rs'))"
    using og.drain_total [of "OffsetGenStrided ?g" rs] assms(1) by (auto simp: str_new_def)
  with str_drain_offsets [OF d, of k] assms show ?thesis by (simp add: str_new_def str_ios_def)
qed

lemma str_ios_bij:
  assumes "bs \<noteq> 0" "k * T * unat bs < W64" "0 < T"
  shows "bij_betw (\<lambda>(r, i). unat (fst (str_ios bs T k r ! i))) ({..<T} \<times> {..<k}) ((\<lambda>b. b * unat bs) ` {..<k * T})"
proof -
  have "inj_on (\<lambda>b. b * unat bs) {..<k * T}" using assms(1) by (auto simp: inj_on_def word_ne_0_pos)
  then have "bij_betw ((\<lambda>b. b * unat bs) \<circ> (\<lambda>(r, i). r + i * T)) ({..<T} \<times> {..<k})
      ((\<lambda>b. b * unat bs) ` {..<k * T})"
    using bij_betw_trans [OF stride_bij [OF assms(3)]] inj_on_imp_bij_betw by blast
  moreover have "((\<lambda>b. b * unat bs) \<circ> (\<lambda>(r, i). r + i * T)) x = (\<lambda>(r, i). unat (fst (str_ios bs T k r ! i))) x"
    if "x \<in> {..<T} \<times> {..<k}" for x
    using that stride_offset [OF _ _ assms(2)] by (cases x) (simp add: str_ios_def)
  ultimately show ?thesis by (subst bij_betw_cong) auto
qed

subsection \<open>Properties\<close>

text \<open>A mix of one block size, and a source of random values.\<close>

definition mix_4k :: block_size_mix where
  "mix_4k = mix_build [(4096, 1)]"

definition example_rs :: rand_src where
  "example_rs = \<lparr>rs_algo = RandAlgoXoshiro256ss (xoshiro256ss_new (\<lambda>i. of_nat i)), rs_dev = \<lambda>i. of_nat i\<rparr>"

lemma mix_4k_ok: "mix_ok mix_4k"
  by (simp add: mix_ok_def mix_inv_def mix_4k_def)

text \<open>
  C16: Whatever its class, draining a generator that satisfies its invariant ends: the loop
  submits I/Os of nonzero size that add up to exactly the bytes that were left, and each I/O
  satisfies the class's guarantee on offsets and sizes.
\<close>

theorem gen_drain_submits_all:
  assumes "gen_inv g"
  shows "\<exists>ios g' rs'. gen_drain g rs = Some (Inr (ios, g', rs')) \<and>
    gen_getNumBytesLeftToSubmit g' = 0 \<and>
    sum_list (map (\<lambda>io. unat (snd io)) ios) = unat (gen_getNumBytesLeftToSubmit g) \<and>
    (\<forall>(off, n) \<in> set ios. 0 < n \<and> gen_io_ok g off n)"
  using og.drain_total [OF assms, of rs] by blast

theorem gen_drain_submits_all_witness:
  "\<exists>ios g' rs'. gen_drain (OffsetGenSequential (seq_new 10000 0 mix_4k)) example_rs = Some (Inr (ios, g', rs')) \<and>
     gen_getNumBytesLeftToSubmit g' = 0 \<and> sum_list (map (\<lambda>io. unat (snd io)) ios) = 10000"
proof -
  have "gen_inv (OffsetGenSequential (seq_new 10000 0 mix_4k))" by (simp add: seq_new_def mix_4k_ok)
  from gen_drain_submits_all [OF this, of example_rs] show ?thesis by (auto simp: seq_new_def)
qed

text \<open>
  C31: The sequential generator for \<open>len\<close> bytes at \<open>offset\<close> submits I/Os that cover the range from
  \<open>offset\<close> to \<open>offset + len\<close> in ascending order without gap or overlap, also with a mix
  of block sizes drawn at random.
\<close>

theorem seq_submits_consecutive_tiles:
  assumes "mix_ok mix" "unat offset + unat len < W64"
  shows "\<exists>ios g' rs'. gen_drain (OffsetGenSequential (seq_new len offset mix)) rs = Some (Inr (ios, g', rs')) \<and>
    tiles (unat offset) (unat offset + unat len) ios"
proof -
  have "gen_inv (OffsetGenSequential (seq_new len offset mix))" using assms(1) by (simp add: seq_new_def)
  then obtain ios g' rs' where d: "gen_drain (OffsetGenSequential (seq_new len offset mix)) rs = Some (Inr (ios, g', rs'))"
    using og.drain_total [of _ rs] by blast
  then show ?thesis
    using seq_drain_tiles [OF d] assms by (auto simp: seq_new_def)
qed

theorem seq_submits_consecutive_tiles_witness:
  "\<exists>ios g' rs'. gen_drain (OffsetGenSequential (seq_new 10000 500 mix_4k)) example_rs = Some (Inr (ios, g', rs')) \<and>
     tiles 500 10500 ios"
  using seq_submits_consecutive_tiles [of mix_4k 500 10000 example_rs] mix_4k_ok by simp

text \<open>
  C32: The reverse sequential generator for \<open>len\<close> bytes at \<open>offset\<close> submits the partial block at the end
  first, if \<open>len\<close> is not a multiple of the block size, and then the whole blocks in descending order
  down to the one at \<open>offset\<close>; read backwards, its I/Os cover the range without gap or overlap.
\<close>

theorem rev_submits_tiles_backwards:
  assumes "rev_new len offset bs = Inr g" "unat offset + unat len < W64"
  shows "\<exists>ios g' rs'. gen_drain (OffsetGenReverseSeq g) rs = Some (Inr (ios, g', rs')) \<and>
    map io_nat ios =
      (if unat len mod unat bs = 0 then []
       else [(unat offset + unat len div unat bs * unat bs, unat len mod unat bs)]) @
      map (\<lambda>i. (unat offset + i * unat bs, unat bs)) (rev [0..<unat len div unat bs]) \<and>
    tiles (unat offset) (unat offset + unat len) (rev ios)"
proof -
  note ok = rev_new_inv [OF assms]
  then have "gen_inv (OffsetGenReverseSeq g)" by simp
  then obtain ios g' rs' where d: "gen_drain (OffsetGenReverseSeq g) rs = Some (Inr (ios, g', rs'))"
    using og.drain_total [of _ rs] by blast
  then show ?thesis
    using rev_drain_tiles [OF d] rev_drain_blocks [OF d] ok rev_new_blockSize [OF assms(1)] by (simp add: rev_blocks_def)
qed

theorem rev_submits_tiles_backwards_witness:
  "\<exists>g ios g' rs'. rev_new 10000 500 4096 = Inr g \<and>
     gen_drain (OffsetGenReverseSeq g) example_rs = Some (Inr (ios, g', rs')) \<and>
     map io_nat ios = [(8692, 1808), (4596, 4096), (500, 4096)] \<and> tiles 500 10500 (rev ios)"
proof -
  have r: "rev_new 10000 500 4096 = Inr \<lparr>rv_numBytesTotal = 10000, rv_numBytesLeft = 10000,
      rv_startOffset = 500, rv_currentOffset = 8692, rv_blockSize = 4096\<rparr>"
    by (simp add: rev_new_def rev_reset_def)
  have "rev [0..<2] = [1, 0 :: nat]" by (simp add: numeral_2_eq_2)
  then show ?thesis using rev_submits_tiles_backwards [OF r, of example_rs] r by auto
qed



text \<open>
  C34: For a range of \<open>len\<close> bytes at \<open>offset\<close> that is not empty, and that holds a block of the largest size or is
  at least as long as the amount to submit, every I/O of the random generator lies within the
  range, and every I/O of the aligned random generator does too and starts at a multiple of
  the smallest block size from \<open>offset\<close>. Without these conditions nothing keeps an I/O inside: the
  constructors accept an empty range, and block sizes and amounts larger than the range.
\<close>

theorem random_ios_stay_in_range:
  assumes "mix_ok mix" "len \<noteq> 0" "unat offset + unat len < W64" "tot \<le> len \<or> maxSize mix \<le> len"
    and "rnd_new tot len offset mix = Inr g" "ral_new tot len offset mix = Inr h"
  shows "(\<exists>ios g' rs'. gen_drain (OffsetGenRandom g) rs = Some (Inr (ios, g', rs')) \<and>
      (\<forall>(off, n) \<in> set ios. unat offset \<le> unat off \<and> unat off + unat n \<le> unat offset + unat len)) \<and>
    (\<exists>ios h' rs'. gen_drain (OffsetGenRandomAligned h) rs = Some (Inr (ios, h', rs')) \<and>
      (\<forall>(off, n) \<in> set ios. unat offset \<le> unat off \<and> unat off + unat n \<le> unat offset + unat len \<and>
         unat (minSize mix) dvd unat off - unat offset))"
proof -
  obtain ios g' rs' where r: "gen_drain (OffsetGenRandom g) rs = Some (Inr (ios, g', rs'))"
      "\<forall>(off, n) \<in> set ios. 0 < n \<and> gen_io_ok (OffsetGenRandom g) off n"
    using og.drain_total [OF rnd_new_ok(1) [OF assms(5,1,2,3)], of rs] by blast
  have "\<forall>(off, n) \<in> set ios. unat offset \<le> unat off \<and> unat off + unat n \<le> unat offset + unat len"
    using r(2) rnd_io_in_range [OF assms(5,1,2,3) _ assms(4)] by blast
  moreover obtain ios' h' rs'' where a: "gen_drain (OffsetGenRandomAligned h) rs = Some (Inr (ios', h', rs''))"
      "\<forall>(off, n) \<in> set ios'. 0 < n \<and> gen_io_ok (OffsetGenRandomAligned h) off n"
    using og.drain_total [OF ral_new_ok(1) [OF assms(6,1,2)], of rs] by blast
  have "\<forall>(off, n) \<in> set ios'. unat offset \<le> unat off \<and> unat off + unat n \<le> unat offset + unat len \<and>
      unat (minSize mix) dvd unat off - unat offset"
    using a(2) ral_io_in_range [OF assms(6,1,2,3) _ assms(4)] by blast
  ultimately show ?thesis using r(1) a(1) by blast
qed

theorem random_ios_stay_in_range_witness:
  "\<exists>h ios h' rs'. ral_new 40960 20000 100 mix_4k = Inr h \<and>
     gen_drain (OffsetGenRandomAligned h) example_rs = Some (Inr (ios, h', rs')) \<and>
     (\<forall>(off, n) \<in> set ios. 100 \<le> unat off \<and> unat off + unat n \<le> 20100 \<and> 4096 dvd unat off - 100)"
proof -
  have mm: "maxSize mix_4k = 4096" "minSize mix_4k = 4096" by (simp_all add: mix_4k_def mix_build_def)
  obtain g h where n: "rnd_new 40960 20000 100 mix_4k = Inr g" "ral_new 40960 20000 100 mix_4k = Inr h"
    by (simp add: rnd_new_def ral_new_def rand_range_new_def mm)
  show ?thesis using random_ios_stay_in_range [OF mix_4k_ok _ _ _ n, of example_rs] n mm by simp
qed

end
