(* ===== verification/LatencyHistogram.thy ===== *)
theory LatencyHistogram
  imports UnitTk
begin

text \<open>
  \<open>LatencyHistogram\<close>: the log-linear histogram of operation latencies, with its slot
  arithmetic, the merge of histograms, the sparse encoding for the service protocol and the
  summary by decades.
\<close>

subsection \<open>Slots\<close>

definition LATHISTO_SUBBUCKET_BITS :: nat where
  "LATHISTO_SUBBUCKET_BITS = 7"

definition LATHISTO_SUBBUCKET_COUNT :: u64 where
  "LATHISTO_SUBBUCKET_COUNT = 128"

definition LATHISTO_SUBBUCKET_HALFCOUNT :: u64 where
  "LATHISTO_SUBBUCKET_HALFCOUNT = 64"

definition LATHISTO_MAXBUCKETIDX :: nat where
  "LATHISTO_MAXBUCKETIDX = 38"

definition LATHISTO_NUMBUCKETS :: nat where
  "LATHISTO_NUMBUCKETS = 128 + 38 * 64"

lemmas lathisto_consts = LATHISTO_SUBBUCKET_BITS_def LATHISTO_SUBBUCKET_COUNT_def
  LATHISTO_SUBBUCKET_HALFCOUNT_def LATHISTO_MAXBUCKETIDX_def LATHISTO_NUMBUCKETS_def

text \<open>\<open>__builtin_clzll\<close>: the zero bits above the highest set bit, counted from bit \<open>n - 1\<close> down.\<close>

fun clz :: "nat \<Rightarrow> u64 \<Rightarrow> nat" where
  "clz 0 x = 0"
| "clz (Suc n) x = (if bit x n then 0 else Suc (clz n x))"

definition builtin_clzll :: "u64 \<Rightarrow> nat" where
  "builtin_clzll x = clz 64 x"

definition valueToIndex :: "u64 \<Rightarrow> u64" where
  "valueToIndex latencyMicroSec =
     (if latencyMicroSec < LATHISTO_SUBBUCKET_COUNT then latencyMicroSec
      else
        let bucketIndex = (63 - builtin_clzll latencyMicroSec) - (LATHISTO_SUBBUCKET_BITS - 1);
            bucketIndex = (if LATHISTO_MAXBUCKETIDX < bucketIndex then LATHISTO_MAXBUCKETIDX else bucketIndex);
            subBucketIndex = drop_bit bucketIndex latencyMicroSec;
            subBucketIndex = (if LATHISTO_SUBBUCKET_COUNT \<le> subBucketIndex
                              then LATHISTO_SUBBUCKET_COUNT - 1 else subBucketIndex)
        in LATHISTO_SUBBUCKET_COUNT + of_nat (bucketIndex - 1) * LATHISTO_SUBBUCKET_HALFCOUNT +
           (subBucketIndex - LATHISTO_SUBBUCKET_HALFCOUNT))"

definition indexToUpperBoundMicroSec :: "u64 \<Rightarrow> u64" where
  "indexToUpperBoundMicroSec bucketIndex =
     (if bucketIndex < LATHISTO_SUBBUCKET_COUNT then bucketIndex + 1
      else
        let octave = 1 + unat ((bucketIndex - LATHISTO_SUBBUCKET_COUNT) div LATHISTO_SUBBUCKET_HALFCOUNT);
            subBucketIndex = LATHISTO_SUBBUCKET_HALFCOUNT +
              (bucketIndex - LATHISTO_SUBBUCKET_COUNT) mod LATHISTO_SUBBUCKET_HALFCOUNT
        in push_bit octave (subBucketIndex + 1))"

subsection \<open>The histogram\<close>

record histogram =
  numStoredValues :: u64
  numMicroSecTotal :: u64
  minMicroSecLat :: u64
  maxMicroSecLat :: u64
  buckets :: "u64 list"
  numStoredValuesLive :: u64
  numMicroSecsTotalLive :: u64

definition histo_new :: histogram where
  "histo_new =
     \<lparr>numStoredValues = 0, numMicroSecTotal = 0, minMicroSecLat = - 1, maxMicroSecLat = 0,
      buckets = replicate LATHISTO_NUMBUCKETS 0, numStoredValuesLive = 0, numMicroSecsTotalLive = 0\<rparr>"

definition histo_addLatency :: "u64 \<Rightarrow> histogram \<Rightarrow> histogram" where
  "histo_addLatency lat h =
     (let h = h\<lparr>numStoredValuesLive := numStoredValuesLive h + 1,
               numMicroSecsTotalLive := numMicroSecsTotalLive h + lat,
               numStoredValues := numStoredValues h + 1,
               numMicroSecTotal := numMicroSecTotal h + lat\<rparr>;
          h = (if lat < minMicroSecLat h then h\<lparr>minMicroSecLat := lat\<rparr> else h);
          h = (if maxMicroSecLat h < lat then h\<lparr>maxMicroSecLat := lat\<rparr> else h);
          i = unat (valueToIndex lat)
      in h\<lparr>buckets := (buckets h)[i := buckets h ! i + 1]\<rparr>)"

definition histo_addAndResetAverageLive :: "u64 \<Rightarrow> u64 \<Rightarrow> histogram \<Rightarrow> u64 \<times> u64 \<times> histogram" where
  "histo_addAndResetAverageLive outNum outTotal h =
     (outNum + numStoredValuesLive h, outTotal + numMicroSecsTotalLive h,
      h\<lparr>numStoredValuesLive := 0, numMicroSecsTotalLive := 0\<rparr>)"

definition histo_getAverageMicroSec :: "histogram \<Rightarrow> u64" where
  "histo_getAverageMicroSec h =
     (if numStoredValues h \<noteq> 0 then numMicroSecTotal h div numStoredValues h else 0)"

definition histo_reset :: "histogram \<Rightarrow> histogram" where
  "histo_reset h =
     h\<lparr>buckets := replicate LATHISTO_NUMBUCKETS 0, numStoredValues := 0, numMicroSecTotal := 0,
       minMicroSecLat := - 1, maxMicroSecLat := 0\<rparr>"

definition histo_getHistogramExceeded :: "histogram \<Rightarrow> bool" where
  "histo_getHistogramExceeded h = (buckets h ! (LATHISTO_NUMBUCKETS - 1) \<noteq> 0)"

definition histo_plus :: "histogram \<Rightarrow> histogram \<Rightarrow> histogram" where
  "histo_plus h rhs =
     (let h = h\<lparr>buckets := map2 (+) (buckets h) (buckets rhs),
               numStoredValues := numStoredValues h + numStoredValues rhs,
               numMicroSecTotal := numMicroSecTotal h + numMicroSecTotal rhs\<rparr>;
          h = (if minMicroSecLat rhs < minMicroSecLat h then h\<lparr>minMicroSecLat := minMicroSecLat rhs\<rparr> else h)
      in if maxMicroSecLat h < maxMicroSecLat rhs then h\<lparr>maxMicroSecLat := maxMicroSecLat rhs\<rparr> else h)"

subsection \<open>The service encoding\<close>

text \<open>
  The property tree library is a parameter: how to put a number under a name, to add an item
  with an index and a count to a list, to get a number and to get the items of a list.
\<close>

record 't ptree_ops =
  pt_put :: "string \<Rightarrow> u64 \<Rightarrow> 't \<Rightarrow> 't"
  pt_add_item :: "string \<Rightarrow> u64 \<times> u64 \<Rightarrow> 't \<Rightarrow> 't"
  pt_get :: "string \<Rightarrow> 't \<Rightarrow> u64 result"
  pt_items :: "string \<Rightarrow> 't \<Rightarrow> (u64 \<times> u64) list option"

fun histo_add_items :: "'t ptree_ops \<Rightarrow> string \<Rightarrow> nat \<Rightarrow> u64 list \<Rightarrow> 't \<Rightarrow> 't" where
  "histo_add_items P prefixStr bucketIndex [] t = t"
| "histo_add_items P prefixStr bucketIndex (c # cs) t =
     histo_add_items P prefixStr (Suc bucketIndex) cs
       (if c = 0 then t else pt_add_item P (prefixStr @ ''LatHistoList'') (of_nat bucketIndex, c) t)"

definition histo_getAsPropertyTreeForService :: "'t ptree_ops \<Rightarrow> string \<Rightarrow> histogram \<Rightarrow> 't \<Rightarrow> 't" where
  "histo_getAsPropertyTreeForService P prefixStr h t =
     (let t = pt_put P (prefixStr @ ''LatNumValues'') (numStoredValues h) t;
          t = pt_put P (prefixStr @ ''LatMicroSecTotal'') (numMicroSecTotal h) t;
          t = pt_put P (prefixStr @ ''LatMinMicroSec'') (minMicroSecLat h) t;
          t = pt_put P (prefixStr @ ''LatMaxMicroSec'') (maxMicroSecLat h) t
      in histo_add_items P prefixStr 0 (buckets h) t)"

definition histo_set_item :: "u64 \<times> u64 \<Rightarrow> u64 list \<Rightarrow> u64 list" where
  "histo_set_item item bs =
     (if LATHISTO_NUMBUCKETS \<le> unat (fst item) then bs else bs[unat (fst item) := snd item])"

definition histo_setFromPropertyTreeForService ::
    "'t ptree_ops \<Rightarrow> string \<Rightarrow> 't \<Rightarrow> histogram \<Rightarrow> histogram result" where
  "histo_setFromPropertyTreeForService P prefixStr t h =
     bindE (pt_get P (prefixStr @ ''LatNumValues'') t) (\<lambda>n.
     bindE (pt_get P (prefixStr @ ''LatMicroSecTotal'') t) (\<lambda>tot.
     bindE (pt_get P (prefixStr @ ''LatMinMicroSec'') t) (\<lambda>mn.
     bindE (pt_get P (prefixStr @ ''LatMaxMicroSec'') t) (\<lambda>mx.
       let bs = replicate LATHISTO_NUMBUCKETS 0;
           bs = (case pt_items P (prefixStr @ ''LatHistoList'') t of
                   None \<Rightarrow> bs
                 | Some items \<Rightarrow> foldl (\<lambda>bs item. histo_set_item item bs) bs items)
       in Inr (h\<lparr>numStoredValues := n, numMicroSecTotal := tot, minMicroSecLat := mn,
                 maxMicroSecLat := mx, buckets := bs\<rparr>)))))"

subsection \<open>The summary by decades\<close>

text \<open>The threshold wraps around for values from \<open>10^19\<close> on, so the loop is a partial function.\<close>

partial_function (option) decade_loop :: "u64 \<Rightarrow> u64 \<Rightarrow> nat \<Rightarrow> nat option" where
  "decade_loop v threshold decadeExp =
     (if threshold \<le> v then decade_loop v (threshold * 10) (Suc decadeExp) else Some decadeExp)"

definition decadeExponent :: "u64 \<Rightarrow> nat option" where
  "decadeExponent v = decade_loop v 10 0"

definition pow10 :: "nat \<Rightarrow> u64" where
  "pow10 e = ((\<lambda>r. r * 10) ^^ e) 1"

definition decadeUnitAndDigits :: "nat \<Rightarrow> string \<times> nat" where
  "decadeUnitAndDigits decadeExp =
     (if decadeExp < 3 then (''us'', decadeExp)
      else if decadeExp < 6 then (''ms'', decadeExp - 3)
      else (''s'', decadeExp - 6))"

definition decadeRangeStr :: "nat \<Rightarrow> string" where
  "decadeRangeStr decadeExp =
     (let (unit, digitDecade) = decadeUnitAndDigits decadeExp;
          lowerBound = (if decadeExp = 0 then 0 else pow10 digitDecade);
          upperBound = pow10 (digitDecade + 1) - 1
      in to_string (unat lowerBound) @ ''-'' @ to_string (unat upperBound) @ unit)"

definition decadeLowerBoundStr :: "nat \<Rightarrow> string" where
  "decadeLowerBoundStr decadeExp =
     (let (unit, digitDecade) = decadeUnitAndDigits decadeExp;
          lowerBound = (if decadeExp = 0 then 0 else pow10 digitDecade)
      in to_string (unat lowerBound) @ unit)"

text \<open>The accumulation pass of \<open>getHistogramGroupedStr\<close>: the counts per decade.\<close>

fun histo_category_sums :: "nat \<Rightarrow> u64 list \<Rightarrow> u64 list \<Rightarrow> u64 list option" where
  "histo_category_sums bucketIndex [] sums = Some sums"
| "histo_category_sums bucketIndex (c # cs) sums =
     (if c = 0 then histo_category_sums (Suc bucketIndex) cs sums
      else
        case decadeExponent (indexToUpperBoundMicroSec (of_nat bucketIndex)) of
          None \<Rightarrow> None
        | Some decade \<Rightarrow>
            histo_category_sums (Suc bucketIndex) cs (sums[decade := sums ! decade + c]))"

definition histo_categorySums :: "histogram \<Rightarrow> u64 list option" where
  "histo_categorySums h = histo_category_sums 0 (buckets h) (replicate 20 0)"

subsection \<open>The slot of a value\<close>

lemma clz_bound: "clz n x \<le> n"
  by (induction n) auto

lemma clz_top:
  assumes "unat x < 2 ^ n" "x \<noteq> 0"
  shows "clz n x < n \<and> 2 ^ (n - 1 - clz n x) \<le> unat x \<and> unat x < 2 ^ (n - clz n x)"
  using assms(1)
proof (induction n)
  case 0
  then show ?case using assms(2) by (simp add: word_ne_0_pos)
next
  case (Suc n)
  show ?case
  proof (cases "bit x n")
    case True
    then have "bit (unat x) n" by (simp add: bit_unsigned_iff)
    then have "odd (unat x div 2 ^ n)" using bit_iff_odd by blast
    then have "2 ^ n \<le> unat x" by (metis div_less even_zero not_le)
    with True Suc.prems show ?thesis by simp
  next
    case False
    then have "\<not> bit (unat x) n" by (simp add: bit_unsigned_iff)
    then have "even (unat x div 2 ^ n)" using bit_iff_odd by blast
    moreover have "unat x div 2 ^ n < 2" using Suc.prems by (simp add: less_mult_imp_div_less)
    ultimately have "unat x div 2 ^ n = 0" by (metis less_2_cases odd_one One_nat_def)
    then have "unat x < 2 ^ n" by (simp add: div_eq_0_iff)
    from Suc.IH [OF this] False show ?thesis by (simp add: Suc_diff_le)
  qed
qed

text \<open>
  The three kinds of values: below 128 the slot is the value; up to \<open>2^45\<close> it is given by an octave
  \<open>b\<close> and a sub-bucket \<open>s\<close>; from there on it is the last slot.
\<close>

definition octave_slot :: "nat \<Rightarrow> nat \<Rightarrow> nat" where
  "octave_slot b s = 128 + (b - 1) * 64 + (s - 64)"

definition in_octave :: "nat \<Rightarrow> nat \<Rightarrow> nat \<Rightarrow> bool" where
  "in_octave b s v \<longleftrightarrow> 1 \<le> b \<and> b \<le> 38 \<and> 64 \<le> s \<and> s < 128 \<and> s * 2 ^ b \<le> v \<and> v < (s + 1) * 2 ^ b"

lemma valueToIndex_nat:
  assumes v: "128 \<le> unat v"
  defines "k \<equiv> 63 - builtin_clzll v"
  defines "b \<equiv> min (k - 6) 38"
  defines "s \<equiv> min (unat v div 2 ^ b) 127"
  shows "unat (valueToIndex v) = octave_slot b s" and "1 \<le> b" and "64 \<le> s"
    and "2 ^ k \<le> unat v" and "unat v < 2 ^ Suc k" and "7 \<le> k"
proof -
  have "v \<noteq> 0" using v by auto
  then have clz: "builtin_clzll v < 64 \<and> 2 ^ (63 - builtin_clzll v) \<le> unat v \<and> unat v < 2 ^ (64 - builtin_clzll v)"
    using clz_top [of v 64] unat_less_W64 [of v] by (simp add: builtin_clzll_def)
  then have "64 - builtin_clzll v = Suc k" unfolding k_def by linarith
  with clz have k: "2 ^ k \<le> unat v" "unat v < 2 ^ Suc k" by (simp_all only: k_def)
  have k7: "7 \<le> k"
  proof (rule ccontr)
    assume "\<not> 7 \<le> k"
    then have "(2 :: nat) ^ Suc k \<le> 2 ^ 7" by (intro power_increasing) auto
    with k(2) v show False by simp
  qed
  show "2 ^ k \<le> unat v" "unat v < 2 ^ Suc k" "7 \<le> k" by (fact k(1) k(2) k7)+
  show b1: "1 \<le> b" using k7 by (simp add: b_def)
  have "64 * 2 ^ b \<le> unat v"
  proof -
    have "(64 :: nat) * 2 ^ b = 2 ^ (b + 6)" by (simp add: power_add)
    also have "\<dots> \<le> 2 ^ k" using k7 by (intro power_increasing) (auto simp: b_def)
    finally show ?thesis using k(1) by simp
  qed
  then have "64 * 2 ^ b div 2 ^ b \<le> unat v div 2 ^ b" by (rule div_le_mono)
  then have s64: "64 \<le> unat v div 2 ^ b" by simp
  then show "64 \<le> s" by (simp add: s_def)
  have sub: "unat (drop_bit b v) = unat v div 2 ^ b"
    unfolding unat_drop_bit_eq by (simp add: drop_bit_eq_div)
  define x where "x = (if LATHISTO_SUBBUCKET_COUNT \<le> drop_bit b v then LATHISTO_SUBBUCKET_COUNT - 1 else drop_bit b v)"
  have x: "unat x = s" "s \<le> 127"
    using sub by (auto simp: x_def s_def lathisto_consts nat_of_word)
  have "b - 1 \<le> 37" by (simp add: b_def)
  then have ob: "unat (of_nat (b - 1) * LATHISTO_SUBBUCKET_HALFCOUNT) = (b - 1) * 64"
    by (simp add: lathisto_consts nat_of_word)
  have bi: "(if LATHISTO_MAXBUCKETIDX < k - (LATHISTO_SUBBUCKET_BITS - 1) then LATHISTO_MAXBUCKETIDX
      else k - (LATHISTO_SUBBUCKET_BITS - 1)) = b"
    by (auto simp: b_def lathisto_consts)
  have "valueToIndex v = LATHISTO_SUBBUCKET_COUNT + of_nat (b - 1) * LATHISTO_SUBBUCKET_HALFCOUNT +
      (x - LATHISTO_SUBBUCKET_HALFCOUNT)"
    using v by (simp only: valueToIndex_def Let_def k_def [symmetric] bi x_def [symmetric])
      (simp add: lathisto_consts nat_of_word)
  moreover have "unat (x - LATHISTO_SUBBUCKET_HALFCOUNT) = s - 64"
    using x \<open>64 \<le> s\<close> by (simp add: lathisto_consts nat_of_word)
  ultimately show "unat (valueToIndex v) = octave_slot b s"
    using ob x(2) \<open>b - 1 \<le> 37\<close> by (simp add: octave_slot_def LATHISTO_SUBBUCKET_COUNT_def nat_of_word)
qed

lemma valueToIndex_octave:
  assumes "128 \<le> unat v" "unat v < 2 ^ 45"
  shows "\<exists>b s. in_octave b s (unat v) \<and> unat (valueToIndex v) = octave_slot b s"
proof -
  define k where "k = 63 - builtin_clzll v"
  define b where "b = min (k - 6) 38"
  define s where "s = min (unat v div 2 ^ b) 127"
  note vi = valueToIndex_nat [OF assms(1), folded k_def, folded b_def, folded s_def]
  have "(2 :: nat) ^ k < 2 ^ 45" using vi(4) assms(2) by linarith
  then have "k < 45" using power_less_imp_less_exp [of "2 :: nat" k 45] by simp
  then have b: "b = k - 6" by (simp add: b_def)
  then have sk: "Suc k = b + 7" using vi(6) by simp
  have "(2 :: nat) ^ Suc k = 128 * 2 ^ b" unfolding sk power_add by simp
  then have "unat v div 2 ^ b < 128" using vi(5) by (simp add: less_mult_imp_div_less)
  then have s: "s = unat v div 2 ^ b" by (simp add: s_def)
  moreover have "unat v < (unat v div 2 ^ b + 1) * 2 ^ b"
    using dividend_less_div_times [of "2 ^ b" "unat v"] by simp
  ultimately have "in_octave b s (unat v)"
    using vi(2,3) \<open>unat v div 2 ^ b < 128\<close> by (simp add: in_octave_def b_def)
  with vi(1) show ?thesis by blast
qed

lemma valueToIndex_top:
  assumes "2 ^ 45 \<le> unat v"
  shows "unat (valueToIndex v) = octave_slot 38 127"
proof -
  define k where "k = 63 - builtin_clzll v"
  define b where "b = min (k - 6) 38"
  define s where "s = min (unat v div 2 ^ b) 127"
  have "128 \<le> unat v" using assms by simp
  note vi = valueToIndex_nat [OF this, folded k_def, folded b_def, folded s_def]
  have "(2 :: nat) ^ 45 < 2 ^ Suc k" using vi(5) assms by linarith
  then have "45 < Suc k" using power_less_imp_less_exp [of "2 :: nat" 45 "Suc k"] by simp
  then have b: "b = 38" by (simp add: b_def)
  have "2 ^ 45 div 2 ^ 38 \<le> unat v div 2 ^ 38" using assms by (rule div_le_mono)
  then have "s = 127" by (simp add: s_def b)
  with vi(1) b show ?thesis by simp
qed

lemma valueToIndex_small: "unat v < 128 \<Longrightarrow> valueToIndex v = v"
  by (simp add: valueToIndex_def lathisto_consts nat_of_word)

lemma in_octave_range: "in_octave b s v \<Longrightarrow> 64 * 2 ^ b \<le> v \<and> v < 128 * 2 ^ b"
proof -
  assume o: "in_octave b s v"
  have "64 * 2 ^ b \<le> s * 2 ^ b" "(s + 1) * 2 ^ b \<le> 128 * 2 ^ b"
    using o by (intro mult_right_mono; simp add: in_octave_def)+
  then show ?thesis using o unfolding in_octave_def by linarith
qed

lemma octave_slot_bound: "in_octave b s v \<Longrightarrow> 128 + (b - 1) * 64 \<le> octave_slot b s \<and> octave_slot b s < 128 + b * 64"
  by (cases b) (auto simp: in_octave_def octave_slot_def)

lemma octave_slot_mono:
  assumes "in_octave b s v" "in_octave c t w" "v \<le> w"
  shows "octave_slot b s \<le> octave_slot c t"
proof -
  have r: "64 * 2 ^ b \<le> v" "w < 128 * 2 ^ c" using in_octave_range assms by blast+
  then have "(2 :: nat) ^ b < 2 ^ Suc c" using assms(3) by simp
  then have "b \<le> c" using power_less_imp_less_exp [of "2 :: nat" b "Suc c"] by simp
  show ?thesis
  proof (cases "b = c")
    case True
    have "s * 2 ^ b \<le> v" "w < (t + 1) * 2 ^ b" using assms True by (auto simp: in_octave_def)
    then have "s * 2 ^ b < (t + 1) * 2 ^ b" using assms(3) by linarith
    then have "s < t + 1" unfolding mult_less_cancel2 by simp
    with True show ?thesis by (simp add: octave_slot_def)
  next
    case False
    then have "128 + b * 64 \<le> 128 + (c - 1) * 64" using \<open>b \<le> c\<close> by simp
    then show ?thesis using octave_slot_bound [OF assms(1)] octave_slot_bound [OF assms(2)] by linarith
  qed
qed

lemma valueToIndex_bound: "unat (valueToIndex v) < LATHISTO_NUMBUCKETS"
proof -
  consider "unat v < 128" | "128 \<le> unat v" "unat v < 2 ^ 45" | "2 ^ 45 \<le> unat v" by linarith
  then show ?thesis
  proof cases
    case 1
    then show ?thesis by (simp add: valueToIndex_small lathisto_consts)
  next
    case 2
    obtain b s where "in_octave b s (unat v)" "unat (valueToIndex v) = octave_slot b s"
      using valueToIndex_octave [OF 2] by blast
    then show ?thesis by (auto simp: in_octave_def octave_slot_def lathisto_consts)
  next
    case 3
    then show ?thesis by (simp add: valueToIndex_top octave_slot_def lathisto_consts)
  qed
qed

lemma valueToIndex_mono:
  assumes "v \<le> w"
  shows "unat (valueToIndex v) \<le> unat (valueToIndex w)"
proof -
  have vw: "unat v \<le> unat w" using assms by (simp add: word_le_nat_alt)
  consider "unat w < 128" | "unat v < 128" "128 \<le> unat w" | "2 ^ 45 \<le> unat w" "128 \<le> unat v"
    | "128 \<le> unat v" "unat w < 2 ^ 45" by linarith
  then show ?thesis
  proof cases
    case 1
    then show ?thesis using vw by (simp add: valueToIndex_small)
  next
    case 2
    have "128 \<le> unat (valueToIndex w)"
      using valueToIndex_nat(1,2) [OF 2(2)] by (simp add: octave_slot_def)
    then show ?thesis using 2 by (simp add: valueToIndex_small)
  next
    case 3
    have "unat (valueToIndex v) \<le> octave_slot 38 127"
      using valueToIndex_bound [of v] by (simp add: octave_slot_def lathisto_consts)
    then show ?thesis using valueToIndex_top [OF 3(1)] by simp
  next
    case 4
    then have "unat v < 2 ^ 45" "128 \<le> unat w" using vw by linarith+
    then show ?thesis
      using valueToIndex_octave [of v] valueToIndex_octave [of w] 4 vw octave_slot_mono by metis
  qed
qed

lemma indexToUpperBound_octave:
  assumes "in_octave b s v" "unat i = octave_slot b s"
  shows "unat (indexToUpperBoundMicroSec i) = (s + 1) * 2 ^ b"
proof -
  have bs: "1 \<le> b" "b \<le> 38" "64 \<le> s" "s < 128" using assms(1) by (auto simp: in_octave_def)
  have ge: "128 \<le> unat i" using assms(2) by (simp add: octave_slot_def)
  have d: "unat (i - LATHISTO_SUBBUCKET_COUNT) = (b - 1) * 64 + (s - 64)"
    using ge assms(2) by (simp add: lathisto_consts nat_of_word octave_slot_def)
  have q: "1 + unat ((i - LATHISTO_SUBBUCKET_COUNT) div LATHISTO_SUBBUCKET_HALFCOUNT) = b"
    using bs d by (simp add: nat_of_word) (simp add: lathisto_consts)
  have r: "LATHISTO_SUBBUCKET_HALFCOUNT + (i - LATHISTO_SUBBUCKET_COUNT) mod LATHISTO_SUBBUCKET_HALFCOUNT + 1 = of_nat (s + 1)"
  proof -
    have m: "((b - 1) * 64 + x) mod 64 = x" if "x < 64" for x :: nat using that by simp
    have "s - 64 < 64" "unat (64 :: u64) = 64" using bs by simp_all
    then have "unat ((i - LATHISTO_SUBBUCKET_COUNT) mod LATHISTO_SUBBUCKET_HALFCOUNT) = s - 64"
      unfolding unat_mod d LATHISTO_SUBBUCKET_HALFCOUNT_def by (simp only: m)
    then have "(i - LATHISTO_SUBBUCKET_COUNT) mod LATHISTO_SUBBUCKET_HALFCOUNT = of_nat (s - 64)"
      using bs unat_of_nat_no [of "s - 64"] by (simp add: unat_eq_iff_u64)
    then show ?thesis using bs by (simp add: lathisto_consts of_nat_diff)
  qed
  have "(s + 1) * 2 ^ b \<le> 128 * 2 ^ 38"
    using bs by (intro mult_le_mono power_increasing) auto
  moreover have "unat (2 ^ b :: u64) = 2 ^ b" using bs by (intro unat_two_power) simp
  ultimately have "unat (push_bit b (of_nat (s + 1)) :: u64) = (s + 1) * 2 ^ b"
    using bs by (simp only: push_bit_eq_mult) (simp add: nat_of_word)
  then show ?thesis
    using ge unfolding indexToUpperBoundMicroSec_def Let_def q r by (simp add: lathisto_consts nat_of_word)
qed

subsection \<open>Histograms of lists of latencies\<close>

text \<open>
  The specification: the histogram of a list of latencies, and what each field of it counts.
\<close>

definition histo_of :: "u64 list \<Rightarrow> histogram" where
  "histo_of lats = foldl (\<lambda>h lat. histo_addLatency lat h) histo_new lats"

definition counts_of :: "u64 list \<Rightarrow> u64 list" where
  "counts_of lats = map (\<lambda>i. of_nat (length (filter (\<lambda>l. unat (valueToIndex l) = i) lats))) [0..<LATHISTO_NUMBUCKETS]"

lemma histo_of_snoc: "histo_of (lats @ [l]) = histo_addLatency l (histo_of lats)"
  by (simp add: histo_of_def)

lemma counts_of_snoc:
  "counts_of (lats @ [l]) =
     (counts_of lats)[unat (valueToIndex l) := counts_of lats ! unat (valueToIndex l) + 1]"
  using valueToIndex_bound [of l]
  by (intro nth_equalityI) (auto simp: counts_of_def nth_list_update add.commute)

lemma histo_addLatency_fields:
  "buckets (histo_addLatency l h) =
     (buckets h)[unat (valueToIndex l) := buckets h ! unat (valueToIndex l) + 1]"
  "numStoredValues (histo_addLatency l h) = numStoredValues h + 1"
  "numMicroSecTotal (histo_addLatency l h) = numMicroSecTotal h + l"
  "numStoredValuesLive (histo_addLatency l h) = numStoredValuesLive h + 1"
  "numMicroSecsTotalLive (histo_addLatency l h) = numMicroSecsTotalLive h + l"
  "minMicroSecLat (histo_addLatency l h) = min (minMicroSecLat h) l"
  "maxMicroSecLat (histo_addLatency l h) = max (maxMicroSecLat h) l"
  by (auto simp: histo_addLatency_def Let_def min_def max_def)

lemma histo_of_Nil: "histo_of [] = histo_new" "counts_of [] = replicate LATHISTO_NUMBUCKETS 0"
  by (simp_all add: histo_of_def counts_of_def map_replicate_const)

lemma histo_of_fields:
  "buckets (histo_of lats) = counts_of lats"
  "numStoredValues (histo_of lats) = of_nat (length lats)"
  "numMicroSecTotal (histo_of lats) = sum_list lats"
  "numStoredValuesLive (histo_of lats) = of_nat (length lats)"
  "numMicroSecsTotalLive (histo_of lats) = sum_list lats"
  "minMicroSecLat (histo_of lats) = foldl min (- 1) lats"
  "maxMicroSecLat (histo_of lats) = foldl max 0 lats"
  by (induction lats rule: rev_induct)
    (simp_all add: histo_of_snoc histo_of_Nil histo_new_def histo_addLatency_fields counts_of_snoc add.commute)

lemma foldl_max_0: "foldl max (a :: u64) xs = max a (foldl max 0 xs)"
proof (induction xs arbitrary: a)
  case (Cons x xs)
  have "foldl max (max a x) xs = max (max a x) (foldl max 0 xs)" "foldl max x xs = max x (foldl max 0 xs)"
    by (rule Cons.IH)+
  then show ?case by (simp add: max.assoc)
qed simp

lemma foldl_min_top: "foldl min (a :: u64) xs = min a (foldl min (- 1) xs)"
proof (induction xs arbitrary: a)
  case (Cons x xs)
  have "foldl min (min a x) xs = min (min a x) (foldl min (- 1) xs)" "foldl min x xs = min x (foldl min (- 1) xs)"
    by (rule Cons.IH)+
  then show ?case by (simp add: min.assoc)
qed simp

lemma length_counts_of [simp]: "length (counts_of lats) = LATHISTO_NUMBUCKETS"
  by (simp add: counts_of_def)

lemma counts_of_append: "counts_of (xs @ ys) = map2 (+) (counts_of xs) (counts_of ys)"
  by (intro nth_equalityI) (simp_all add: counts_of_def)

text \<open>The merge of histograms is the histogram of all latencies, the live counters aside.\<close>

lemma histo_plus_of:
  "histo_plus (histo_of xs) (histo_of ys) =
     (histo_of (xs @ ys))\<lparr>numStoredValuesLive := numStoredValuesLive (histo_of xs),
        numMicroSecsTotalLive := numMicroSecsTotalLive (histo_of xs)\<rparr>"
proof -
  have fields: "histo_plus h k = h\<lparr>numStoredValues := numStoredValues h + numStoredValues k,
      numMicroSecTotal := numMicroSecTotal h + numMicroSecTotal k,
      minMicroSecLat := min (minMicroSecLat h) (minMicroSecLat k),
      maxMicroSecLat := max (maxMicroSecLat h) (maxMicroSecLat k),
      buckets := map2 (+) (buckets h) (buckets k)\<rparr>" for h k
    by (auto simp: histo_plus_def Let_def min_def max_def)
  show ?thesis
    unfolding fields
    by (rule histogram.equality)
      (simp_all add: histo_of_fields counts_of_append foldl_max_0 [of "foldl max 0 xs"]
        foldl_min_top [of "foldl min (- 1) xs"])
qed

subsection \<open>Through the service and back\<close>

text \<open>
  What the service protocol relies on of the property tree. A dot in a name separates the names of nested nodes, so
  the laws are those of names without a dot, and of numbers and lists under different names.
\<close>

definition plain_name :: "string \<Rightarrow> bool" where
  "plain_name k \<longleftrightarrow> CHR ''.'' \<notin> set k"

definition ptree_laws :: "'t ptree_ops \<Rightarrow> bool" where
  "ptree_laws P \<longleftrightarrow>
     (\<forall>k v t. plain_name k \<longrightarrow> pt_get P k (pt_put P k v t) = Inr v) \<and>
     (\<forall>k k' v t. plain_name k \<and> plain_name k' \<and> k \<noteq> k' \<longrightarrow> pt_get P k (pt_put P k' v t) = pt_get P k t) \<and>
     (\<forall>k l x t. plain_name k \<and> plain_name l \<and> k \<noteq> l \<longrightarrow> pt_get P k (pt_add_item P l x t) = pt_get P k t) \<and>
     (\<forall>l k v t. plain_name l \<and> plain_name k \<and> k \<noteq> l \<longrightarrow> pt_items P l (pt_put P k v t) = pt_items P l t) \<and>
     (\<forall>l x t. plain_name l \<longrightarrow> pt_items P l (pt_add_item P l x t) =
        Some ((case pt_items P l t of None \<Rightarrow> [] | Some xs \<Rightarrow> xs) @ [x]))"

lemma plain_name_append [simp]: "plain_name (a @ b) \<longleftrightarrow> plain_name a \<and> plain_name b"
  by (simp add: plain_name_def)

lemma plain_histo_names [simp]:
  "plain_name ''LatNumValues''" "plain_name ''LatMicroSecTotal''" "plain_name ''LatMinMicroSec''"
  "plain_name ''LatMaxMicroSec''" "plain_name ''LatHistoList''"
  by (simp_all add: plain_name_def)

definition sparse :: "nat \<Rightarrow> u64 list \<Rightarrow> (u64 \<times> u64) list" where
  "sparse i cs = filter (\<lambda>item. snd item \<noteq> 0) (zip (map of_nat [i..<i + length cs]) cs)"

lemma sparse_Cons: "sparse i (c # cs) = (if c = 0 then [] else [(of_nat i, c)]) @ sparse (Suc i) cs"
  by (simp add: sparse_def upt_conv_Cons del: upt_Suc)

lemma histo_add_items_get:
  "ptree_laws P \<Longrightarrow> plain_name pre \<Longrightarrow> plain_name k \<Longrightarrow> k \<noteq> pre @ ''LatHistoList'' \<Longrightarrow>
   pt_get P k (histo_add_items P pre i cs t) = pt_get P k t"
  by (induction P pre i cs t rule: histo_add_items.induct) (auto simp: ptree_laws_def)

abbreviation items_or_none where
  "items_or_none xs \<equiv> (case xs of None \<Rightarrow> [] | Some ys \<Rightarrow> ys)"

lemma histo_add_items_items:
  assumes "ptree_laws P" "plain_name pre"
  shows "items_or_none (pt_items P (pre @ ''LatHistoList'') (histo_add_items P pre i cs t)) =
    items_or_none (pt_items P (pre @ ''LatHistoList'') t) @ sparse i cs"
  using assms
proof (induction P pre i cs t rule: histo_add_items.induct)
  case (2 P pre i c cs t)
  then show ?case by (auto simp: sparse_Cons ptree_laws_def)
qed (simp add: sparse_def)

lemma foldl_set_sparse:
  assumes "i + length cs \<le> LATHISTO_NUMBUCKETS" "length bs = LATHISTO_NUMBUCKETS" "drop i bs = replicate (length bs - i) 0"
  shows "foldl (\<lambda>bs item. histo_set_item item bs) bs (sparse i cs) = take i bs @ cs @ drop (i + length cs) bs"
  using assms
proof (induction cs arbitrary: i bs)
  case Nil
  have "sparse i [] = []" by (simp add: sparse_def)
  then show ?case by (simp only: foldl_Nil append_Nil list.size(3) add_0_right append_take_drop_id)
next
  case (Cons c cs)
  have i: "i < length bs" "unat (of_nat i :: u64) = i"
    using Cons.prems by (auto simp: LATHISTO_NUMBUCKETS_def intro!: unat_of_nat_no)
  have z: "bs ! i = 0" using arg_cong [OF Cons.prems(3), of "\<lambda>xs. xs ! 0"] i(1) by simp
  define bs' where "bs' = bs[i := c]"
  have "foldl (\<lambda>bs item. histo_set_item item bs) bs (sparse i (c # cs)) =
      foldl (\<lambda>bs item. histo_set_item item bs) bs' (sparse (Suc i) cs)"
  proof (cases "c = 0")
    case True
    then have "bs' = bs" using z list_update_id [of bs i] by (simp add: bs'_def)
    with True show ?thesis by (simp add: sparse_Cons)
  next
    case False
    then show ?thesis using i Cons.prems by (simp add: sparse_Cons histo_set_item_def bs'_def)
  qed
  also have "\<dots> = take (Suc i) bs' @ cs @ drop (Suc i + length cs) bs'"
  proof (rule Cons.IH)
    have "drop (Suc i) bs = replicate (length bs - Suc i) 0"
      using arg_cong [OF Cons.prems(3), of "drop 1"] by simp
    then show "drop (Suc i) bs' = replicate (length bs' - Suc i) 0" by (simp add: bs'_def)
  qed (use Cons.prems in \<open>auto simp: bs'_def\<close>)
  finally show ?case using i(1) by (simp add: bs'_def take_Suc_conv_app_nth)
qed

lemma histo_service_roundtrip:
  assumes P: "ptree_laws P" "plain_name pre" and t: "pt_items P (pre @ ''LatHistoList'') t = None"
    and len: "length (buckets h) = LATHISTO_NUMBUCKETS"
  shows "histo_setFromPropertyTreeForService P pre (histo_getAsPropertyTreeForService P pre h t) k =
    Inr (h\<lparr>numStoredValuesLive := numStoredValuesLive k, numMicroSecsTotalLive := numMicroSecsTotalLive k\<rparr>)"
proof -
  let ?t = "histo_getAsPropertyTreeForService P pre h t" and ?l = "pre @ ''LatHistoList''"
  have get: "pt_get P (pre @ ''LatNumValues'') ?t = Inr (numStoredValues h)"
      "pt_get P (pre @ ''LatMicroSecTotal'') ?t = Inr (numMicroSecTotal h)"
      "pt_get P (pre @ ''LatMinMicroSec'') ?t = Inr (minMicroSecLat h)"
      "pt_get P (pre @ ''LatMaxMicroSec'') ?t = Inr (maxMicroSecLat h)"
    using P by (simp_all add: histo_getAsPropertyTreeForService_def Let_def histo_add_items_get)
      (simp_all add: ptree_laws_def)
  have "items_or_none (pt_items P ?l ?t) = sparse 0 (buckets h)"
    using P t by (simp add: histo_getAsPropertyTreeForService_def Let_def histo_add_items_items)
      (simp add: ptree_laws_def)
  then have "(case pt_items P ?l ?t of None \<Rightarrow> replicate LATHISTO_NUMBUCKETS 0
      | Some items \<Rightarrow> foldl (\<lambda>bs item. histo_set_item item bs) (replicate LATHISTO_NUMBUCKETS 0) items) =
      foldl (\<lambda>bs item. histo_set_item item bs) (replicate LATHISTO_NUMBUCKETS 0) (sparse 0 (buckets h))"
    by (auto split: option.splits)
  also have "\<dots> = buckets h"
    using foldl_set_sparse [of 0 "buckets h" "replicate LATHISTO_NUMBUCKETS 0"] len by simp
  finally show ?thesis by (simp add: histo_setFromPropertyTreeForService_def get)
qed

subsection \<open>Decades\<close>

lemma decade_loop_spec:
  assumes "unat v < 10 ^ 19" "unat thr = 10 ^ Suc e" "e \<le> 18" "10 ^ e \<le> unat v \<or> e = 0"
  shows "\<exists>d. decade_loop v thr e = Some d \<and> (10 ^ d \<le> unat v \<or> d = 0) \<and> unat v < 10 ^ Suc d"
  using assms(2-4)
proof (induction "19 - e" arbitrary: e thr rule: less_induct)
  case less
  show ?case
  proof (cases "thr \<le> v")
    case False
    then show ?thesis using less.prems by (subst decade_loop.simps) (simp add: word_le_nat_alt)
  next
    case True
    then have le: "10 ^ Suc e \<le> unat v" using less.prems(1) by (simp add: word_le_nat_alt)
    then have "(10 :: nat) ^ Suc e < 10 ^ 19" using assms(1) by linarith
    then have e: "Suc e \<le> 18" using power_less_imp_less_exp [of "10 :: nat" "Suc e" 19] by simp
    have "(10 :: nat) ^ Suc (Suc e) \<le> 10 ^ 19" using e by (intro power_increasing) auto
    then have "unat (thr * 10) = 10 ^ Suc (Suc e)"
      using less.prems(1) by (simp add: nat_of_word)
    then show ?thesis
      using less.hyps [of "Suc e" "thr * 10"] True le e by (subst decade_loop.simps) simp
  qed
qed

lemma decadeExponent_spec:
  assumes "unat v < 10 ^ 19"
  shows "\<exists>d. decadeExponent v = Some d \<and> (10 ^ d \<le> unat v \<or> d = 0) \<and> unat v < 10 ^ Suc d"
  unfolding decadeExponent_def by (rule decade_loop_spec [OF assms]) simp_all

lemma decadeExponent_unique:
  assumes "unat v < 10 ^ Suc d" "10 ^ d \<le> unat v \<or> d = 0" "d \<le> 18"
  shows "decadeExponent v = Some d"
proof -
  have "(10 :: nat) ^ Suc d \<le> 10 ^ 19" using assms(3) by (intro power_increasing) auto
  then have "unat v < 10 ^ 19" using assms(1) by linarith
  then obtain d' where d': "decadeExponent v = Some d'" "10 ^ d' \<le> unat v \<or> d' = 0" "unat v < 10 ^ Suc d'"
    using decadeExponent_spec by blast
  have le: "a \<le> b" if "10 ^ a \<le> unat v \<or> a = 0" "unat v < 10 ^ Suc b" for a b
  proof (cases "a = 0")
    case False
    then have "(10 :: nat) ^ a < 10 ^ Suc b" using that by linarith
    then show ?thesis using power_less_imp_less_exp [of "10 :: nat" a "Suc b"] by simp
  qed simp
  have "d = d'" using le [OF assms(2) d'(3)] le [OF d'(2) assms(1)] by simp
  with d'(1) show ?thesis by simp
qed

subsection \<open>Properties\<close>

text \<open>
  C20: The slot of a latency always exists and grows with the latency. A latency below 128
  microseconds has a slot of its own, which is reported as one microsecond more than the
  latency. From there to \<open>2^45\<close> microseconds the bound that is reported for the slot is above the
  latency, and by at most one 64th of the latency.
\<close>

theorem valueToIndex_sound:
  "unat (valueToIndex v) < LATHISTO_NUMBUCKETS \<and>
   (v \<le> w \<longrightarrow> unat (valueToIndex v) \<le> unat (valueToIndex w)) \<and>
   (unat v < 128 \<longrightarrow> valueToIndex v = v \<and> unat (indexToUpperBoundMicroSec (valueToIndex v)) = unat v + 1) \<and>
   (128 \<le> unat v \<and> unat v < 2 ^ 45 \<longrightarrow>
      unat v < unat (indexToUpperBoundMicroSec (valueToIndex v)) \<and>
      unat (indexToUpperBoundMicroSec (valueToIndex v)) \<le> unat v + unat v div 64)"
proof (intro conjI impI)
  show "unat (valueToIndex v) < LATHISTO_NUMBUCKETS" by (rule valueToIndex_bound)
  show "unat (valueToIndex v) \<le> unat (valueToIndex w)" if "v \<le> w" using that by (rule valueToIndex_mono)
next
  assume lt: "unat v < 128"
  then have "unat (v + 1) = unat v + 1" by (simp add: nat_of_word)
  with lt show "valueToIndex v = v" "unat (indexToUpperBoundMicroSec (valueToIndex v)) = unat v + 1"
    by (simp_all add: valueToIndex_small indexToUpperBoundMicroSec_def lathisto_consts nat_of_word)
next
  assume v: "128 \<le> unat v \<and> unat v < 2 ^ 45"
  then obtain b s where o: "in_octave b s (unat v)" "unat (valueToIndex v) = octave_slot b s"
    using valueToIndex_octave [of v] by auto
  have u: "unat (indexToUpperBoundMicroSec (valueToIndex v)) = s * 2 ^ b + 2 ^ b"
    using indexToUpperBound_octave [OF o] by simp
  have "64 * 2 ^ b \<le> unat v" using in_octave_range [OF o(1)] by simp
  then have "2 ^ b \<le> unat v div 64" by (simp add: less_eq_div_iff_mult_less_eq)
  then show "unat v < unat (indexToUpperBoundMicroSec (valueToIndex v))"
      "unat (indexToUpperBoundMicroSec (valueToIndex v)) \<le> unat v + unat v div 64"
    using o(1) u by (simp_all add: in_octave_def)
qed

theorem valueToIndex_sound_witness:
  "unat (valueToIndex 1000) \<le> unat (valueToIndex 2000) \<and>
   1000 < unat (indexToUpperBoundMicroSec (valueToIndex 1000)) \<and>
   unat (indexToUpperBoundMicroSec (valueToIndex 1000)) \<le> 1015 \<and>
   unat (indexToUpperBoundMicroSec (valueToIndex 1)) = 2"
proof -
  have "unat (indexToUpperBoundMicroSec (valueToIndex 1)) = unat (1 :: u64) + 1" using valueToIndex_sound [of 1 2] by auto
  with valueToIndex_sound [of 1000 2000] show ?thesis by simp
qed

text \<open>
  C21: Adding latencies one by one to a new histogram counts them: each slot holds the number of
  the latencies that belong there, and the fields hold the number, the sum, the minimum and
  the maximum of all of them.
\<close>

theorem histogram_counts_latencies:
  "buckets (histo_of lats) = counts_of lats \<and>
   numStoredValues (histo_of lats) = of_nat (length lats) \<and>
   numMicroSecTotal (histo_of lats) = sum_list lats \<and>
   minMicroSecLat (histo_of lats) = foldl min (- 1) lats \<and>
   maxMicroSecLat (histo_of lats) = foldl max 0 lats"
  by (simp add: histo_of_fields)

text \<open>
  C22: Merging the histograms of two workers gives the histogram of all their latencies together.
\<close>

theorem histogram_merge_is_union:
  "let h = histo_plus (histo_of xs) (histo_of ys); k = histo_of (xs @ ys)
   in buckets h = buckets k \<and> numStoredValues h = numStoredValues k \<and>
      numMicroSecTotal h = numMicroSecTotal k \<and> minMicroSecLat h = minMicroSecLat k \<and>
      maxMicroSecLat h = maxMicroSecLat k"
  by (simp add: histo_plus_of Let_def)

text \<open>
  C23: A histogram sent through the sparse service encoding, under a prefix without a dot as all
  prefixes of the protocol are, arrives unchanged (the live counters, which are not sent, keep the
  receiver's values).
\<close>

theorem histogram_service_roundtrip:
  assumes "ptree_laws P" "plain_name pre" "pt_items P (pre @ ''LatHistoList'') t = None"
  shows "histo_setFromPropertyTreeForService P pre
      (histo_getAsPropertyTreeForService P pre (histo_of lats) t) k =
    Inr ((histo_of lats)\<lparr>numStoredValuesLive := numStoredValuesLive k,
                         numMicroSecsTotalLive := numMicroSecsTotalLive k\<rparr>)"
  by (rule histo_service_roundtrip [OF assms]) (simp add: histo_of_fields)

definition fun_ptree :: "((string \<Rightarrow> u64 option) \<times> (string \<Rightarrow> (u64 \<times> u64) list option)) ptree_ops" where
  "fun_ptree =
     \<lparr>pt_put = \<lambda>k v (m, l). (m(k \<mapsto> v), l),
      pt_add_item = \<lambda>k x (m, l). (m, l(k \<mapsto> items_or_none (l k) @ [x])),
      pt_get = \<lambda>k (m, l). (case m k of None \<Rightarrow> Inl (ProgException ''No such node'') | Some v \<Rightarrow> Inr v),
      pt_items = \<lambda>k (m, l). l k\<rparr>"

lemma fun_ptree_laws: "ptree_laws fun_ptree"
  by (auto simp: ptree_laws_def fun_ptree_def split: option.splits)

theorem histogram_service_roundtrip_witness:
  "histo_setFromPropertyTreeForService fun_ptree ''IOPS_''
     (histo_getAsPropertyTreeForService fun_ptree ''IOPS_'' (histo_of [3, 700, 700]) (Map.empty, Map.empty)) histo_new =
   Inr ((histo_of [3, 700, 700])\<lparr>numStoredValuesLive := 0, numMicroSecsTotalLive := 0\<rparr>)"
  using histogram_service_roundtrip [OF fun_ptree_laws, of "''IOPS_''" "(Map.empty, Map.empty)" "[3, 700, 700]" histo_new]
  by (simp add: fun_ptree_def histo_new_def plain_name_def)

text \<open>
  In the summary by decades a latency is counted by the bound of its slot: 9 microseconds are
  counted in the row labelled 10 to 99 microseconds although the row of their own decade is
  labelled 0 to 9, and likewise 99 microseconds in the row labelled 100 to 999.
\<close>

theorem grouped_summary_shifts_last_value:
  "decadeExponent 9 = Some 0 \<and> decadeRangeStr 0 = ''0-9us'' \<and>
   decadeExponent (indexToUpperBoundMicroSec (valueToIndex 9)) = Some 1 \<and>
   decadeRangeStr 1 = ''10-99us'' \<and>
   decadeExponent 99 = Some 1 \<and>
   decadeExponent (indexToUpperBoundMicroSec (valueToIndex 99)) = Some 2"
proof -
  have "indexToUpperBoundMicroSec (valueToIndex 9) = 10" "indexToUpperBoundMicroSec (valueToIndex 99) = 100"
    by (simp_all add: valueToIndex_def indexToUpperBoundMicroSec_def lathisto_consts)
  moreover have "decadeExponent 9 = Some 0" "decadeExponent 10 = Some 1" "decadeExponent 99 = Some 1"
      "decadeExponent 100 = Some 2"
    by (rule decadeExponent_unique; simp)+
  moreover have "pow10 0 = 1" "pow10 (Suc 0) = 10" "pow10 (Suc (Suc 0)) = 100"
    by (simp_all add: pow10_def)
  then have "decadeRangeStr 0 = ''0-9us''" "decadeRangeStr 1 = ''10-99us''"
    by (simp_all add: decadeRangeStr_def decadeUnitAndDigits_def to_string.simps)
  ultimately show ?thesis by simp
qed

end
