(* ===== verification/Base64.thy ===== *)
theory Base64
  imports Decimal
begin

text \<open>
  \<open>toolkits/Base64Encoder\<close>: the encoder and decoder for path names in tree files. The
  accumulator \<open>val\<close> is a 32-bit \<open>int\<close> whose left shifts drop the high bits and whose right
  shifts copy the sign, as the supported compilers implement them; \<open>valb\<close> counts the pending
  bits and is kept as an integer.
\<close>

subsection \<open>Definitions\<close>

definition Base64Alphabet :: string where
  "Base64Alphabet = ''ABCDEFGHIJKLMNOPQRSTUVWXYZabcdefghijklmnopqrstuvwxyz0123456789+/''"

definition sextet :: "u32 \<Rightarrow> nat \<Rightarrow> nat" where
  "sextet val n = unat (signed_drop_bit n val AND 0x3F)"

text \<open>The inner while loop of \<open>encode\<close>.\<close>

function enc_emit :: "u32 \<Rightarrow> int \<Rightarrow> string \<Rightarrow> int \<times> string" where
  "enc_emit val valb out =
     (if 0 \<le> valb then enc_emit val (valb - 6) (out @ [Base64Alphabet ! sextet val (nat valb)])
      else (valb, out))"
  by pat_completeness auto
termination
  by (relation "measure (\<lambda>(_, valb, _). nat (valb + 6))") auto

declare enc_emit.simps [simp del]

fun enc_loop :: "string \<Rightarrow> u32 \<Rightarrow> int \<Rightarrow> string \<Rightarrow> u32 \<times> int \<times> string" where
  "enc_loop [] val valb out = (val, valb, out)"
| "enc_loop (c # cs) val valb out =
     (let val = push_bit 8 val + of_nat (code c);
          (valb, out) = enc_emit val (valb + 8) out
      in enc_loop cs val valb out)"

function enc_pad :: "string \<Rightarrow> string" where
  "enc_pad out = (if length out mod 4 \<noteq> 0 then enc_pad (out @ ''='') else out)"
  by pat_completeness auto
termination
proof (relation "measure (\<lambda>out. (4 - length out mod 4) mod 4)", simp)
  fix out :: string
  assume nz: "length out mod 4 \<noteq> 0"
  have "length out mod 4 < 4" by simp
  then consider "length out mod 4 = 1" | "length out mod 4 = 2" | "length out mod 4 = 3"
    using nz by linarith
  then show "(out @ ''='', out) \<in> measure (\<lambda>out. (4 - length out mod 4) mod 4)"
    by cases (simp_all add: mod_Suc)
qed

declare enc_pad.simps [simp del]

definition base64_encode :: "string \<Rightarrow> string" where
  "base64_encode input =
     (let (val, valb, out) = enc_loop input 0 (- 6) [];
          out = (if - 6 < valb
                 then out @ [Base64Alphabet ! sextet (push_bit 8 val) (nat (valb + 8))]
                 else out)
      in enc_pad out)"

text \<open>The table \<open>T\<close> of \<open>decode\<close>: the index of each letter, and -1 for every other character.\<close>

definition b64_table :: "int list" where
  "b64_table = foldl (\<lambda>T i. T[code (Base64Alphabet ! i) := int i]) (replicate 256 (- 1)) [0..<64]"

fun dec_loop :: "string \<Rightarrow> u32 \<Rightarrow> int \<Rightarrow> string \<Rightarrow> string" where
  "dec_loop [] val valb out = out"
| "dec_loop (c # cs) val valb out =
     (if b64_table ! code c = - 1 then out
      else
        let val = push_bit 6 val + of_int (b64_table ! code c);
            valb = valb + 6
        in if 0 \<le> valb
           then dec_loop cs val (valb - 8) (out @ [char_of (unat (signed_drop_bit (nat valb) val AND 0xFF))])
           else dec_loop cs val valb out)"

definition base64_decode :: "string \<Rightarrow> string" where
  "base64_decode input = dec_loop input 0 (- 8) []"

definition isalnum :: "char \<Rightarrow> bool" where
  "isalnum c \<longleftrightarrow> isdigit c \<or> (65 \<le> code c \<and> code c \<le> 90) \<or> (97 \<le> code c \<and> code c \<le> 122)"

fun isBase64 :: "string \<Rightarrow> bool" where
  "isBase64 [] = True"
| "isBase64 (c # cs) =
     (if isalnum c \<or> c = CHR ''+'' \<or> c = CHR ''/'' then isBase64 cs else False)"

subsection \<open>The table\<close>

lemma distinct_alphabet: "distinct Base64Alphabet"
  by (simp add: Base64Alphabet_def)

lemma length_alphabet [simp]: "length Base64Alphabet = 64"
  by (simp add: Base64Alphabet_def)

lemma code_less_256 [simp]: "code c < 256"
  unfolding code_def by (rule nat_of_char_less_256)

lemma code_inj [simp]: "code c = code d \<longleftrightarrow> c = d"
  by (simp add: code_def)

lemma foldl_update_other:
  "x \<notin> k ` set is \<Longrightarrow> foldl (\<lambda>T i. T[k i := g i]) T is ! x = T ! x"
  by (induction "is" arbitrary: T) auto

lemma foldl_update_mem:
  "distinct (map k is) \<Longrightarrow> i \<in> set is \<Longrightarrow> \<forall>j \<in> set is. k j < length T \<Longrightarrow>
   foldl (\<lambda>T i. T[k i := g i]) T is ! k i = g i"
proof (induction "is" arbitrary: T)
  case (Cons j js)
  show ?case
  proof (cases "i = j")
    case True
    then have "k i \<notin> k ` set js" using Cons.prems(1) by auto
    then show ?thesis using True Cons.prems(3) by (simp add: foldl_update_other)
  next
    case False
    then show ?thesis using Cons by simp
  qed
qed simp

lemma table_letter:
  assumes "i < 64"
  shows "b64_table ! code (Base64Alphabet ! i) = int i"
  unfolding b64_table_def
proof (rule foldl_update_mem [of "\<lambda>i. code (Base64Alphabet ! i)" "[0..<64]" i])
  show "distinct (map (\<lambda>i. code (Base64Alphabet ! i)) [0..<64])"
    using distinct_alphabet by (auto simp: distinct_map inj_on_def nth_eq_iff_index_eq)
qed (use assms in simp_all)

lemma table_equals_sign: "b64_table ! code (CHR ''='') = - 1"
proof -
  have "CHR ''='' \<notin> set Base64Alphabet" by (simp add: Base64Alphabet_def)
  then have "code (CHR ''='') \<notin> (\<lambda>i. code (Base64Alphabet ! i)) ` set [0..<64]"
    by (auto simp: in_set_conv_nth)
  then show ?thesis
    unfolding b64_table_def
    using foldl_update_other [of "code (CHR ''='')" "\<lambda>i. code (Base64Alphabet ! i)" "[0..<64]" int "replicate 256 (- 1)"]
    by simp
qed

subsection \<open>The accumulator\<close>

lemma shift_mask:
  assumes "n + k \<le> 32"
  shows "unat (signed_drop_bit n (w :: u32) AND mask k) = (unat w div 2 ^ n) mod 2 ^ k"
proof -
  have "signed_drop_bit n w AND mask k = take_bit k (drop_bit n w)"
    using assms by (intro bit_eqI) (auto simp: bit_simps)
  then show ?thesis
    by (simp add: unsigned_take_bit_eq unat_drop_bit_eq) (simp add: drop_bit_eq_div take_bit_eq_mod)
qed

lemma sextet_div: "n \<le> 26 \<Longrightarrow> sextet w n = (unat w div 2 ^ n) mod 64"
  using shift_mask [of n 6 w] by (simp add: sextet_def mask_eq_exp_minus_1)

lemma octet_div: "n \<le> 24 \<Longrightarrow> unat (signed_drop_bit n (w :: u32) AND 0xFF) = (unat w div 2 ^ n) mod 256"
  using shift_mask [of n 8 w] by (simp add: mask_eq_exp_minus_1)

text \<open>The pending low bits of the accumulator after a byte or a letter is shifted in.\<close>

lemma unat_shift_in:
  assumes "x < 2 ^ k" "k \<le> 8" "j + k \<le> 32"
  shows "unat (push_bit k (w :: u32) + of_nat x) mod 2 ^ (j + k) = (unat w mod 2 ^ j) * 2 ^ k + x"
proof -
  have "push_bit k w + of_nat x = of_nat (unat w * 2 ^ k + x)" by (simp add: push_bit_eq_mult)
  then have "unat (push_bit k w + of_nat x) = (unat w * 2 ^ k + x) mod 2 ^ 32"
    by (simp only: unat_of_nat) simp
  then have "unat (push_bit k w + of_nat x) mod 2 ^ (j + k) = (unat w * 2 ^ k + x) mod 2 ^ (j + k)"
    using assms(3) by (simp only: mod_mod_cancel [OF le_imp_power_dvd])
  also have "\<dots> = (unat w mod 2 ^ j) * 2 ^ k + x"
  proof -
    have "(2 :: nat) ^ (j + k) = 2 ^ k * 2 ^ j" by (simp add: power_add)
    moreover have "(unat w * 2 ^ k + x) div 2 ^ k = unat w" "(unat w * 2 ^ k + x) mod 2 ^ k = x"
      using assms(1) by simp_all
    ultimately show ?thesis by (simp only: mod_mult2_eq) simp
  qed
  finally show ?thesis .
qed

lemma div_mod_low:
  assumes "x mod 2 ^ m = (y :: nat)" "n + k \<le> m"
  shows "(x div 2 ^ n) mod 2 ^ k = (y div 2 ^ n) mod 2 ^ k"
proof -
  have "(z div 2 ^ n) mod 2 ^ k = (z mod 2 ^ (n + k)) div 2 ^ n" for z :: nat
    by (simp add: power_add mod_mult2_eq)
  moreover have "y mod 2 ^ (n + k) = x mod 2 ^ (n + k)"
    using assms by (simp only: mod_mod_cancel [OF le_imp_power_dvd] flip: assms(1))
  ultimately show ?thesis by simp
qed

lemma sextet_low:
  "unat w mod 2 ^ m = y \<Longrightarrow> n + 6 \<le> m \<Longrightarrow> m \<le> 32 \<Longrightarrow> sextet w n = (y div 2 ^ n) mod 64"
  using div_mod_low [of "unat w" m y n 6] by (simp add: sextet_div)

lemma octet_low:
  "unat (w :: u32) mod 2 ^ m = y \<Longrightarrow> n + 8 \<le> m \<Longrightarrow> m \<le> 32 \<Longrightarrow>
   unat (signed_drop_bit n w AND 0xFF) = (y div 2 ^ n) mod 256"
  using div_mod_low [of "unat w" m y n 8] by (simp add: octet_div)

lemma enc_emit_simps:
  "enc_emit val 2 out = (- 4, out @ [Base64Alphabet ! sextet val 2])"
  "enc_emit val 4 out = (- 2, out @ [Base64Alphabet ! sextet val 4])"
  "enc_emit val 6 out = (- 6, out @ [Base64Alphabet ! sextet val 6, Base64Alphabet ! sextet val 0])"
  by (simp_all add: enc_emit.simps)

lemma mod_eqI: "x = q * m + r \<Longrightarrow> r < m \<Longrightarrow> x mod m = (r :: nat)"
  by simp

lemma div_eqI: "x = q * m + r \<Longrightarrow> r < m \<Longrightarrow> x div m = (q :: nat)"
  by simp

text \<open>
  A group of three bytes is given by its pieces: \<open>a = 4 a1 + a0\<close>, \<open>b = 16 b1 + b0\<close> and
  \<open>c = 64 c1 + c0\<close>; the four letters have the indices \<open>a1\<close>, \<open>16 a0 + b1\<close>, \<open>4 b0 + c1\<close> and \<open>c0\<close>.
\<close>

lemma split_byte: "n < 256 \<Longrightarrow> 0 < m \<Longrightarrow> m dvd 256 \<Longrightarrow> \<exists>q r. n = q * m + r \<and> r < m \<and> q < 256 div (m :: nat)"
  by (intro exI [of _ "n div m"] exI [of _ "n mod m"]) (auto simp: less_mult_imp_div_less)

lemma byte_pieces:
  fixes a1 a0 b1 b0 c1 c0 :: nat
  assumes "a1 < 64" "a0 < 4" "b1 < 16" "b0 < 16" "c1 < 4" "c0 < 64"
  defines "a \<equiv> a1 * 4 + a0" and "b \<equiv> b1 * 16 + b0" and "c \<equiv> c1 * 64 + c0"
  shows "(a div 2 ^ 2) mod 64 = a1" "((a * 256 + b) div 2 ^ 4) mod 64 = a0 * 16 + b1"
    "(((a * 256 + b) * 256 + c) div 2 ^ 6) mod 64 = b0 * 4 + c1"
    "(((a * 256 + b) * 256 + c) div 2 ^ 0) mod 64 = c0"
proof -
  have "a div 4 = a1" unfolding a_def using assms by (intro div_eqI [of _ _ _ a0]) auto
  then show "(a div 2 ^ 2) mod 64 = a1" using assms by simp
  have "(a * 256 + b) div 16 = a * 16 + b1"
    unfolding b_def using assms by (intro div_eqI [of _ _ _ b0]) auto
  moreover have "(a * 16 + b1) mod 64 = a0 * 16 + b1"
    unfolding a_def using assms by (intro mod_eqI [of _ a1]) auto
  ultimately show "((a * 256 + b) div 2 ^ 4) mod 64 = a0 * 16 + b1" by simp
  have "((a * 256 + b) * 256 + c) div 64 = a * 1024 + b * 4 + c1"
    unfolding c_def using assms by (intro div_eqI [of _ _ _ c0]) auto
  moreover have "(a * 1024 + b * 4 + c1) mod 64 = b0 * 4 + c1"
    unfolding b_def using assms by (intro mod_eqI [of _ "a * 16 + b1"]) auto
  ultimately show "(((a * 256 + b) * 256 + c) div 2 ^ 6) mod 64 = b0 * 4 + c1" by simp
  have "((a * 256 + b) * 256 + c) mod 64 = c0"
    unfolding c_def using assms by (intro mod_eqI [of _ "a * 1024 + b * 4 + c1"]) auto
  then show "(((a * 256 + b) * 256 + c) div 2 ^ 0) mod 64 = c0" by simp
qed

lemma letter_pieces:
  fixes a1 a0 b1 b0 c1 c0 :: nat
  assumes "a1 < 64" "a0 < 4" "b1 < 16" "b0 < 16" "c1 < 4" "c0 < 64"
  defines "s1 \<equiv> a0 * 16 + b1" and "s2 \<equiv> b0 * 4 + c1"
  shows "((a1 * 64 + s1) div 2 ^ 4) mod 256 = a1 * 4 + a0"
    "(((a1 * 64 + s1) * 64 + s2) div 2 ^ 2) mod 256 = b1 * 16 + b0"
    "((((a1 * 64 + s1) * 64 + s2) * 64 + c0) div 2 ^ 0) mod 256 = c1 * 64 + c0"
proof -
  have "(a1 * 64 + s1) div 16 = a1 * 4 + a0"
    unfolding s1_def using assms by (intro div_eqI [of _ _ _ b1]) auto
  then show "((a1 * 64 + s1) div 2 ^ 4) mod 256 = a1 * 4 + a0" using assms by simp
  have "((a1 * 64 + s1) * 64 + s2) div 4 = (a1 * 64 + s1) * 16 + b0"
    unfolding s2_def using assms by (intro div_eqI [of _ _ _ c1]) auto
  moreover have "((a1 * 64 + s1) * 16 + b0) mod 256 = b1 * 16 + b0"
    unfolding s1_def using assms by (intro mod_eqI [of _ "a1 * 4 + a0"]) auto
  ultimately show "(((a1 * 64 + s1) * 64 + s2) div 2 ^ 2) mod 256 = b1 * 16 + b0" by simp
  have "(((a1 * 64 + s1) * 64 + s2) * 64 + c0) mod 256 = c1 * 64 + c0"
    unfolding s2_def using assms by (intro mod_eqI [of _ "(a1 * 64 + s1) * 16 + b0"]) auto
  then show "((((a1 * 64 + s1) * 64 + s2) * 64 + c0) div 2 ^ 0) mod 256 = c1 * 64 + c0" by simp
qed

subsection \<open>Groups of three bytes\<close>

abbreviation letter :: "nat \<Rightarrow> char" where
  "letter i \<equiv> Base64Alphabet ! i"

lemma enc_values:
  fixes val :: u32
  defines "v1 \<equiv> \<lambda>x. push_bit 8 val + of_nat (code x)"
  defines "v2 \<equiv> \<lambda>x y. push_bit 8 (v1 x) + of_nat (code y)"
  defines "v3 \<equiv> \<lambda>x y z. push_bit 8 (v2 x y) + of_nat (code z)"
  shows "unat (v1 x) mod 2 ^ 8 = code x" "unat (v2 x y) mod 2 ^ 16 = code x * 256 + code y"
    "unat (v3 x y z) mod 2 ^ 24 = (code x * 256 + code y) * 256 + code z"
proof -
  show 1: "unat (v1 x) mod 2 ^ 8 = code x" for x
    using unat_shift_in [of "code x" 8 0 val] by (simp add: v1_def)
  show 2: "unat (v2 x y) mod 2 ^ 16 = code x * 256 + code y" for x y
    using unat_shift_in [of "code y" 8 8 "v1 x"] 1 by (simp add: v2_def)
  show "unat (v3 x y z) mod 2 ^ 24 = (code x * 256 + code y) * 256 + code z"
    using unat_shift_in [of "code z" 8 16 "v2 x y"] 2 by (simp add: v3_def)
qed

lemma push_bit_add_0: "push_bit 8 (v :: u32) = push_bit 8 v + of_nat 0"
  by simp

lemma enc_group:
  assumes "a1 < 64" "a0 < 4" "b1 < 16" "b0 < 16" "c1 < 4" "c0 < 64"
    and "code x = a1 * 4 + a0" "code y = b1 * 16 + b0" "code z = c1 * 64 + c0"
  shows "\<exists>val'. enc_loop (x # y # z # cs) val (- 6) out =
    enc_loop cs val' (- 6) (out @ [letter a1, letter (a0 * 16 + b1), letter (b0 * 4 + c1), letter c0])"
proof -
  define v1 v2 v3 where v: "v1 = push_bit 8 val + of_nat (code x)" "v2 = push_bit 8 v1 + of_nat (code y)"
    "v3 = push_bit 8 v2 + of_nat (code z)"
  have m: "unat v1 mod 2 ^ 8 = code x" "unat v2 mod 2 ^ 16 = code x * 256 + code y"
      "unat v3 mod 2 ^ 24 = (code x * 256 + code y) * 256 + code z"
    using enc_values [of val] by (simp_all add: v)
  have s: "sextet v1 2 = (code x div 2 ^ 2) mod 64" "sextet v2 4 = ((code x * 256 + code y) div 2 ^ 4) mod 64"
      "sextet v3 6 = (((code x * 256 + code y) * 256 + code z) div 2 ^ 6) mod 64"
      "sextet v3 0 = (((code x * 256 + code y) * 256 + code z) div 2 ^ 0) mod 64"
    by (rule sextet_low [OF m(1)] sextet_low [OF m(2)] sextet_low [OF m(3)]; simp)+
  have "sextet v1 2 = a1" "sextet v2 4 = a0 * 16 + b1" "sextet v3 6 = b0 * 4 + c1" "sextet v3 0 = c0"
    unfolding s assms(7-9) by (fact byte_pieces [OF assms(1-6)])+
  then show ?thesis by (simp add: v [symmetric] enc_emit_simps) blast
qed

definition enc_finish :: "u32 \<times> int \<times> string \<Rightarrow> string" where
  "enc_finish st =
     (let (val, valb, out) = st
      in if - 6 < valb then out @ [letter (sextet (push_bit 8 val) (nat (valb + 8)))] else out)"

lemma enc_one:
  assumes "a1 < 64" "a0 < 4" "code x = a1 * 4 + a0"
  shows "enc_finish (enc_loop [x] val (- 6) out) = out @ [letter a1, letter (a0 * 16)]"
proof -
  define v1 where v1: "v1 = push_bit 8 val + of_nat (code x)"
  have m1: "unat v1 mod 2 ^ 8 = code x" using enc_values(1) [of val] by (simp add: v1)
  have m2: "unat (push_bit 8 v1) mod 2 ^ 16 = code x * 256 + 0"
    using unat_shift_in [of 0 8 8 v1] m1 by simp
  note b = byte_pieces [OF assms(1,2), of 0 0 0 0]
  have "sextet v1 2 = a1" "sextet (push_bit 8 v1) 4 = a0 * 16"
    using sextet_low [OF m1, of 2] sextet_low [OF m2, of 4] b by (simp_all add: assms(3))
  then show ?thesis by (simp add: enc_finish_def v1 [symmetric] enc_emit_simps)
qed

lemma enc_two:
  assumes "a1 < 64" "a0 < 4" "b1 < 16" "b0 < 16" "code x = a1 * 4 + a0" "code y = b1 * 16 + b0"
  shows "enc_finish (enc_loop [x, y] val (- 6) out) = out @ [letter a1, letter (a0 * 16 + b1), letter (b0 * 4)]"
proof -
  define v1 v2 where v: "v1 = push_bit 8 val + of_nat (code x)" "v2 = push_bit 8 v1 + of_nat (code y)"
  have m1: "unat v1 mod 2 ^ 8 = code x" and m2: "unat v2 mod 2 ^ 16 = code x * 256 + code y"
    using enc_values(1,2) [of val] by (simp_all add: v)
  have m3: "unat (push_bit 8 v2) mod 2 ^ 24 = (code x * 256 + code y) * 256 + 0"
    using unat_shift_in [of 0 8 16 v2] m2 by simp
  note b = byte_pieces [OF assms(1-4), of 0 0]
  have "sextet v1 2 = a1" "sextet v2 4 = a0 * 16 + b1" "sextet (push_bit 8 v2) 6 = b0 * 4"
    using sextet_low [OF m1, of 2] sextet_low [OF m2, of 4] sextet_low [OF m3, of 6] b
    by (simp_all add: assms(5,6))
  then show ?thesis by (simp add: enc_finish_def v [symmetric] enc_emit_simps)
qed

lemma dec_letter:
  assumes "i < 64"
  shows "dec_loop (letter i # cs) val valb out =
    (let val = push_bit 6 val + of_nat i; valb = valb + 6
     in if 0 \<le> valb
        then dec_loop cs val (valb - 8) (out @ [char_of (unat (signed_drop_bit (nat valb) val AND 0xFF))])
        else dec_loop cs val valb out)"
  using table_letter [OF assms] by (simp add: Let_def)

lemma dec_pad [simp]: "dec_loop (replicate k (CHR ''='')) val valb out = out"
  using table_equals_sign by (cases k) simp_all

lemma dec_values:
  fixes val :: u32
  assumes "i < 64" "j < 64" "k < 64" "l < 64"
  defines "v1 \<equiv> push_bit 6 val + of_nat i"
  defines "v2 \<equiv> push_bit 6 v1 + of_nat j"
  defines "v3 \<equiv> push_bit 6 v2 + of_nat k"
  defines "v4 \<equiv> push_bit 6 v3 + of_nat l"
  shows "unat (signed_drop_bit 4 v2 AND 0xFF) = ((i * 64 + j) div 2 ^ 4) mod 256"
    "unat (signed_drop_bit 2 v3 AND 0xFF) = (((i * 64 + j) * 64 + k) div 2 ^ 2) mod 256"
    "unat (signed_drop_bit 0 v4 AND 0xFF) = ((((i * 64 + j) * 64 + k) * 64 + l) div 2 ^ 0) mod 256"
proof -
  have m1: "unat v1 mod 2 ^ 6 = i" using unat_shift_in [of i 6 0 val] assms(1) by (simp add: v1_def)
  have m2: "unat v2 mod 2 ^ 12 = i * 64 + j" using unat_shift_in [of j 6 6 v1] assms(2) m1 by (simp add: v2_def)
  have m3: "unat v3 mod 2 ^ 18 = (i * 64 + j) * 64 + k"
    using unat_shift_in [of k 6 12 v2] assms(3) m2 by (simp add: v3_def)
  have m4: "unat v4 mod 2 ^ 24 = ((i * 64 + j) * 64 + k) * 64 + l"
    using unat_shift_in [of l 6 18 v3] assms(4) m3 by (simp add: v4_def)
  show "unat (signed_drop_bit 4 v2 AND 0xFF) = ((i * 64 + j) div 2 ^ 4) mod 256"
    "unat (signed_drop_bit 2 v3 AND 0xFF) = (((i * 64 + j) * 64 + k) div 2 ^ 2) mod 256"
    "unat (signed_drop_bit 0 v4 AND 0xFF) = ((((i * 64 + j) * 64 + k) * 64 + l) div 2 ^ 0) mod 256"
    by (rule octet_low [OF m2] octet_low [OF m3] octet_low [OF m4]; simp)+
qed

text \<open>Decoding the letters of a group, from the state the decoder is in between groups.\<close>

lemma dec_group:
  assumes "a1 < 64" "a0 < 4" "b1 < 16" "b0 < 16" "c1 < 4" "c0 < 64"
  shows "\<exists>v. dec_loop (letter a1 # letter (a0 * 16 + b1) # cs) val (- 8) out =
      dec_loop cs v (- 4) (out @ [char_of (a1 * 4 + a0)])"
    and "\<exists>v. dec_loop (letter a1 # letter (a0 * 16 + b1) # letter (b0 * 4 + c1) # cs) val (- 8) out =
      dec_loop cs v (- 6) (out @ [char_of (a1 * 4 + a0), char_of (b1 * 16 + b0)])"
    and "\<exists>v. dec_loop (letter a1 # letter (a0 * 16 + b1) # letter (b0 * 4 + c1) # letter c0 # cs) val (- 8) out =
      dec_loop cs v (- 8) (out @ [char_of (a1 * 4 + a0), char_of (b1 * 16 + b0), char_of (c1 * 64 + c0)])"
proof -
  have lt: "a0 * 16 + b1 < 64" "b0 * 4 + c1 < 64" using assms by auto
  note o = dec_values [OF assms(1) lt assms(6), of val, unfolded letter_pieces [OF assms]]
  show "\<exists>v. dec_loop (letter a1 # letter (a0 * 16 + b1) # cs) val (- 8) out =
      dec_loop cs v (- 4) (out @ [char_of (a1 * 4 + a0)])"
    using o(1) by (simp only: dec_letter assms(1) lt Let_def) (simp del: of_nat_add of_nat_mult, blast)
  show "\<exists>v. dec_loop (letter a1 # letter (a0 * 16 + b1) # letter (b0 * 4 + c1) # cs) val (- 8) out =
      dec_loop cs v (- 6) (out @ [char_of (a1 * 4 + a0), char_of (b1 * 16 + b0)])"
    using o(1,2) by (simp only: dec_letter assms(1) lt Let_def) (simp del: of_nat_add of_nat_mult, blast)
  show "\<exists>v. dec_loop (letter a1 # letter (a0 * 16 + b1) # letter (b0 * 4 + c1) # letter c0 # cs) val (- 8) out =
      dec_loop cs v (- 8) (out @ [char_of (a1 * 4 + a0), char_of (b1 * 16 + b0), char_of (c1 * 64 + c0)])"
    using o by (simp only: dec_letter assms(1,6) lt Let_def) (simp del: of_nat_add of_nat_mult, blast)
qed

lemma char_of_code [simp]: "char_of (code c) = c"
  by (simp add: code_def)

lemma code_split_4: "\<exists>q r. code c = q * 4 + r \<and> q < 64 \<and> r < 4"
  using split_byte [OF code_less_256 [of c], of 4] by auto

lemma code_split_16: "\<exists>q r. code c = q * 16 + r \<and> q < 16 \<and> r < 16"
  using split_byte [OF code_less_256 [of c], of 16] by auto

lemma code_split_64: "\<exists>q r. code c = q * 64 + r \<and> q < 4 \<and> r < 64"
  using split_byte [OF code_less_256 [of c], of 64] by auto

text \<open>
  What the encoder appends for the rest of its input decodes, with any padding, to that rest,
  from any state between groups.
\<close>

definition decodes_to :: "string \<Rightarrow> string \<Rightarrow> bool" where
  "decodes_to letters cs \<longleftrightarrow>
     (\<forall>val out k. dec_loop (letters @ replicate k (CHR ''='')) val (- 8) out = out @ cs)"

lemma enc_decodes: "\<exists>ls. enc_finish (enc_loop cs val (- 6) out) = out @ ls \<and> decodes_to ls cs"
proof (induction "length cs" arbitrary: cs val out rule: less_induct)
  case less
  consider "cs = []" | x where "cs = [x]" | x y where "cs = [x, y]" | x y z cs' where "cs = x # y # z # cs'"
    by (metis neq_Nil_conv)
  then show ?case
  proof cases
    case 1
    then show ?thesis by (simp add: enc_finish_def decodes_to_def)
  next
    case (2 x)
    obtain a1 a0 where a: "code x = a1 * 4 + a0" "a1 < 64" "a0 < 4" using code_split_4 by blast
    have "decodes_to [letter a1, letter (a0 * 16)] [x]"
      unfolding decodes_to_def
    proof (intro allI)
      fix v :: u32 and o1 k
      obtain v' where "dec_loop (letter a1 # letter (a0 * 16 + 0) # replicate k (CHR ''='')) v (- 8) o1 =
          dec_loop (replicate k (CHR ''='')) v' (- 4) (o1 @ [char_of (a1 * 4 + a0)])"
        using dec_group(1) [OF a(2,3), of 0 0 0 0] by fastforce
      then show "dec_loop ([letter a1, letter (a0 * 16)] @ replicate k (CHR ''='')) v (- 8) o1 = o1 @ [x]"
        by (simp flip: a(1))
    qed
    then show ?thesis using enc_one [OF a(2,3,1)] 2 by blast
  next
    case (3 x y)
    obtain a1 a0 where a: "code x = a1 * 4 + a0" "a1 < 64" "a0 < 4" using code_split_4 by blast
    obtain b1 b0 where b: "code y = b1 * 16 + b0" "b1 < 16" "b0 < 16" using code_split_16 by blast
    have "decodes_to [letter a1, letter (a0 * 16 + b1), letter (b0 * 4)] [x, y]"
      unfolding decodes_to_def
    proof (intro allI)
      fix v :: u32 and o1 k
      obtain v' where "dec_loop (letter a1 # letter (a0 * 16 + b1) # letter (b0 * 4 + 0) # replicate k (CHR ''='')) v (- 8) o1 =
          dec_loop (replicate k (CHR ''='')) v' (- 6) (o1 @ [char_of (a1 * 4 + a0), char_of (b1 * 16 + b0)])"
        using dec_group(2) [OF a(2,3) b(2,3), of 0 0] by fastforce
      then show "dec_loop ([letter a1, letter (a0 * 16 + b1), letter (b0 * 4)] @ replicate k (CHR ''='')) v (- 8) o1 = o1 @ [x, y]"
        by (simp flip: a(1) b(1))
    qed
    then show ?thesis using enc_two [OF a(2,3) b(2,3) a(1) b(1)] 3 by blast
  next
    case (4 x y z cs')
    obtain a1 a0 where a: "code x = a1 * 4 + a0" "a1 < 64" "a0 < 4" using code_split_4 by blast
    obtain b1 b0 where b: "code y = b1 * 16 + b0" "b1 < 16" "b0 < 16" using code_split_16 by blast
    obtain c1 c0 where c: "code z = c1 * 64 + c0" "c1 < 4" "c0 < 64" using code_split_64 by blast
    let ?g = "[letter a1, letter (a0 * 16 + b1), letter (b0 * 4 + c1), letter c0]"
    obtain val' where e: "enc_loop cs val (- 6) out = enc_loop cs' val' (- 6) (out @ ?g)"
      using enc_group [OF a(2,3) b(2,3) c(2,3) a(1) b(1) c(1)] 4 by blast
    obtain ls where ls: "enc_finish (enc_loop cs' val' (- 6) (out @ ?g)) = (out @ ?g) @ ls" "decodes_to ls cs'"
      using less [of cs' val' "out @ ?g"] 4 by auto
    have "decodes_to (?g @ ls) cs"
      unfolding decodes_to_def
    proof (intro allI)
      fix v :: u32 and o1 k
      obtain v' where "dec_loop (?g @ ls @ replicate k (CHR ''='')) v (- 8) o1 =
          dec_loop (ls @ replicate k (CHR ''='')) v' (- 8) (o1 @ [x, y, z])"
        using dec_group(3) [OF a(2,3) b(2,3) c(2,3), of "ls @ replicate k (CHR ''='')" v o1]
        by (auto simp flip: a(1) b(1) c(1))
      then show "dec_loop ((?g @ ls) @ replicate k (CHR ''='')) v (- 8) o1 = o1 @ cs"
        using ls(2) 4 by (simp add: decodes_to_def)
    qed
    then show ?thesis using e ls(1) by (intro exI [of _ "?g @ ls"]) simp
  qed
qed

lemma enc_pad_replicate: "\<exists>k. enc_pad out = out @ replicate k (CHR ''='')"
proof (induction out rule: enc_pad.induct)
  case (1 out)
  show ?case
  proof (cases "length out mod 4 = 0")
    case True
    then show ?thesis by (subst enc_pad.simps) (auto intro: exI [of _ 0])
  next
    case False
    then obtain k where "enc_pad (out @ ''='') = (out @ ''='') @ replicate k (CHR ''='')" using 1 by blast
    then show ?thesis using False by (subst enc_pad.simps) (auto intro: exI [of _ "Suc k"])
  qed
qed

lemma enc_pad_length: "length (enc_pad out) mod 4 = 0"
proof (induction out rule: enc_pad.induct)
  case (1 out)
  then show ?case by (subst enc_pad.simps) simp
qed

lemma base64_encode_finish: "base64_encode cs = enc_pad (enc_finish (enc_loop cs 0 (- 6) []))"
  by (simp add: base64_encode_def enc_finish_def split_beta Let_def)

lemma base64_roundtrip [simp]: "base64_decode (base64_encode s) = s"
proof -
  obtain ls where ls: "enc_finish (enc_loop s 0 (- 6) []) = ls" "decodes_to ls s"
    using enc_decodes [of s 0 "[]"] by auto
  obtain k where "base64_encode s = ls @ replicate k (CHR ''='')"
    using enc_pad_replicate [of ls] ls(1) by (auto simp: base64_encode_finish)
  then show ?thesis using ls(2) by (simp add: base64_decode_def decodes_to_def)
qed

text \<open>An encoded string only has letters of the alphabet and padding, so no white space.\<close>

lemma letter_in_alphabet: "letter (sextet v n) \<in> set Base64Alphabet"
proof -
  have "sextet v n < 64"
    using word_and_le1 [of "signed_drop_bit n v" "0x3F"] by (simp add: sextet_def word_le_nat_alt)
  then show ?thesis by simp
qed

lemma enc_emit_letters: "set (snd (enc_emit val valb out)) \<subseteq> set out \<union> set Base64Alphabet"
proof (induction val valb out rule: enc_emit.induct)
  case (1 val valb out)
  show ?case
  proof (cases "0 \<le> valb")
    case True
    then show ?thesis using 1 [OF True] letter_in_alphabet [of val "nat valb"] by (subst enc_emit.simps) auto
  qed (subst enc_emit.simps, auto)
qed

lemma enc_loop_letters: "set (snd (snd (enc_loop cs val valb out))) \<subseteq> set out \<union> set Base64Alphabet"
proof (induction cs arbitrary: val valb out)
  case (Cons c cs)
  let ?v = "push_bit 8 val + of_nat (code c)"
  obtain b o' where e: "enc_emit ?v (valb + 8) out = (b, o')" by fastforce
  have "set o' \<subseteq> set out \<union> set Base64Alphabet" using enc_emit_letters [of ?v "valb + 8" out] e by simp
  moreover have "set (snd (snd (enc_loop cs ?v b o'))) \<subseteq> set o' \<union> set Base64Alphabet" by (rule Cons.IH)
  ultimately show ?case using e by auto
qed simp

lemma base64_encode_letters: "set (base64_encode cs) \<subseteq> set Base64Alphabet \<union> {CHR ''=''}"
proof -
  obtain v b o' where e: "enc_loop cs 0 (- 6) [] = (v, b, o')" using prod_cases3 by blast
  have "set o' \<subseteq> set Base64Alphabet" using enc_loop_letters [of cs 0 "- 6" "[]"] e by simp
  then have "set (enc_finish (v, b, o')) \<subseteq> set Base64Alphabet"
    using letter_in_alphabet by (auto simp: enc_finish_def)
  moreover obtain k where "base64_encode cs = enc_finish (v, b, o') @ replicate k (CHR ''='')"
    using enc_pad_replicate by (metis base64_encode_finish e)
  ultimately show ?thesis by auto
qed

lemma base64_encode_no_space: "c \<in> set (base64_encode cs) \<Longrightarrow> \<not> isspace c"
proof -
  have "\<forall>c \<in> set Base64Alphabet \<union> {CHR ''=''}. \<not> isspace c"
    unfolding Base64Alphabet_def isspace_def code_def by simp
  then show "c \<in> set (base64_encode cs) \<Longrightarrow> \<not> isspace c" using base64_encode_letters by blast
qed

lemma base64_encode_nonempty: "cs \<noteq> [] \<Longrightarrow> base64_encode cs \<noteq> []"
  using base64_roundtrip [of cs] by (metis base64_decode_def dec_loop.simps(1))

subsection \<open>Properties\<close>

text \<open>
  C27: Decoding an encoded string gives the string back, for every string of bytes; the encoded
  string is made of whole groups of four letters.
\<close>

theorem base64_decode_encode:
  "base64_decode (base64_encode s) = s \<and> length (base64_encode s) mod 4 = 0"
proof
  show "length (base64_encode s) mod 4 = 0" unfolding base64_encode_finish by (rule enc_pad_length)
qed simp

end
