(* ===== verification/PathStore.thy ===== *)
theory PathStore
  imports Base64 "HOL-Library.Char_ord" "HOL-Library.List_Lexorder" "HOL-Library.Product_Lexorder"
begin

text \<open>
  \<open>PathStore\<close>: the list of paths of a custom tree, loaded from a tree file, and the ways it is
  divided among the workers. A file system is a function from paths to the lines of the file;
  \<open>boost::trim\<close> and the permutation that \<open>std::shuffle\<close> applies are parameters.
\<close>

subsection \<open>State\<close>

record path_elem =
  pe_path :: string
  totalLen :: u64
  rangeStart :: u64
  rangeLen :: u64

record path_store =
  ps_blockSize :: u64
  numBlocksTotal :: u64
  ps_numBytesTotal :: u64
  numPaths :: u64
  ps_paths :: "path_elem list"

definition ps_new :: path_store where
  "ps_new = \<lparr>ps_blockSize = 0, numBlocksTotal = 0, ps_numBytesTotal = 0, numPaths = 0, ps_paths = []\<rparr>"

definition ps_setBlockSize :: "u64 \<Rightarrow> path_store \<Rightarrow> path_store result" where
  "ps_setBlockSize bs st =
     (if ps_paths st \<noteq> [] then Inl (ProgException ''PathStore block size setter called on non-empty store.'')
      else Inr (st\<lparr>ps_blockSize := bs\<rparr>))"

definition ps_clear :: "path_store \<Rightarrow> path_store" where
  "ps_clear st =
     st\<lparr>ps_blockSize := 0, numBlocksTotal := 0, ps_numBytesTotal := 0, ps_paths := [], numPaths := 0\<rparr>"

text \<open>The number of blocks of a file, the last one possibly partial.\<close>

definition num_file_blocks :: "u64 \<Rightarrow> u64 \<Rightarrow> u64" where
  "num_file_blocks fileSize bs = fileSize div bs + (if fileSize mod bs \<noteq> 0 then 1 else 0)"

subsection \<open>Loading\<close>

type_synonym file_system = "string \<Rightarrow> string list option"

text \<open>Reading a word and an unsigned number from an \<open>istringstream\<close>; the result is what is left.\<close>

definition read_word :: "string \<Rightarrow> string \<times> string" where
  "read_word s =
     (let r = dropWhile isspace s in (takeWhile (\<lambda>c. \<not> isspace c) r, dropWhile (\<lambda>c. \<not> isspace c) r))"

definition read_u64 :: "string \<Rightarrow> (u64 \<times> string) option" where
  "read_u64 s =
     (let (neg, r) = strip_sign (dropWhile isspace s);
          ds = takeWhile isdigit r
      in if ds = [] \<or> W64 \<le> digits_value ds then None
         else Some (if neg then - of_nat (digits_value ds) else of_nat (digits_value ds),
                    dropWhile isdigit r))"

fun base64_header :: "string list \<Rightarrow> bool" where
  "base64_header [] = False"
| "base64_header (lineStr # rest) =
     (if lineStr = ''# encoding=base64'' then True
      else if lineStr \<noteq> [] \<and> lineStr ! 0 \<noteq> CHR ''#'' then False
      else base64_header rest)"

definition ps_checkBase64Encoding :: "file_system \<Rightarrow> string \<Rightarrow> bool result" where
  "ps_checkBase64Encoding fs path =
     (case fs path of
        None \<Rightarrow> Inl (ProgException ''Opening input file failed: '')
      | Some lines \<Rightarrow> Inr (base64_header lines))"

definition decode_path :: "bool \<Rightarrow> string \<Rightarrow> string" where
  "decode_path isBase64Encoding p = (if isBase64Encoding then base64_decode p else p)"

fun load_dir_lines :: "(string \<Rightarrow> string) \<Rightarrow> bool \<Rightarrow> string list \<Rightarrow> path_store \<Rightarrow> path_store result" where
  "load_dir_lines trim b64 [] st = Inr st"
| "load_dir_lines trim b64 (lineStr # rest) st =
     (let (linePrefixStr, lineStream) = read_word lineStr in
      if linePrefixStr \<noteq> ''d'' then load_dir_lines trim b64 rest st
      else
        let p = decode_path b64 (trim lineStream) in
        if p = [] then Inl (ProgException ''Encountered invalid directory line without path in input file. '')
        else load_dir_lines trim b64 rest
               (st\<lparr>ps_paths := ps_paths st @ [\<lparr>pe_path = p, totalLen = 0, rangeStart = 0, rangeLen = 0\<rparr>],
                   numPaths := numPaths st + 1\<rparr>))"

definition ps_loadDirsFromFile :: "(string \<Rightarrow> string) \<Rightarrow> file_system \<Rightarrow> string \<Rightarrow> path_store \<Rightarrow> path_store result" where
  "ps_loadDirsFromFile trim fs path st =
     bindE (ps_checkBase64Encoding fs path) (\<lambda>b64.
       case fs path of
         None \<Rightarrow> Inl (ProgException ''Opening input file failed: '')
       | Some lines \<Rightarrow> load_dir_lines trim b64 lines st)"

definition round_up :: "u64 \<Rightarrow> u64 \<Rightarrow> u64" where
  "round_up roundUpSize len =
     (if roundUpSize \<noteq> 0 \<and> len mod roundUpSize \<noteq> 0
      then let moduloRes = len mod roundUpSize in len - moduloRes + roundUpSize
      else len)"

fun load_file_lines ::
    "(string \<Rightarrow> string) \<Rightarrow> bool \<Rightarrow> u64 \<Rightarrow> u64 \<Rightarrow> u64 \<Rightarrow> string list \<Rightarrow> path_store \<Rightarrow> path_store result" where
  "load_file_lines trim b64 minFileSize maxFileSize roundUpSize [] st = Inr st"
| "load_file_lines trim b64 minFileSize maxFileSize roundUpSize (lineStr # rest) st =
     (let (linePrefixStr, lineStream) = read_word lineStr in
      if linePrefixStr \<noteq> ''f''
      then load_file_lines trim b64 minFileSize maxFileSize roundUpSize rest st
      else
        case read_u64 lineStream of
          None \<Rightarrow> Inl (ProgException ''Encountered invalid file line without size in input file. '')
        | Some (len, lineStream) \<Rightarrow>
            (let fileSize = round_up roundUpSize len in
             if fileSize < minFileSize \<or> maxFileSize < fileSize
             then load_file_lines trim b64 minFileSize maxFileSize roundUpSize rest st
             else if ps_blockSize st = 0 then Inl (Fault ''division by zero'')
             else
               let numFileBlocks = num_file_blocks fileSize (ps_blockSize st);
                   p = decode_path b64 (trim lineStream)
               in if p = []
                  then Inl (ProgException ''Encountered invalid file line without path in input file. '')
                  else load_file_lines trim b64 minFileSize maxFileSize roundUpSize rest
                         (st\<lparr>ps_paths := ps_paths st @
                               [\<lparr>pe_path = p, totalLen = fileSize, rangeStart = 0, rangeLen = fileSize\<rparr>],
                             numPaths := numPaths st + 1,
                             numBlocksTotal := numBlocksTotal st + numFileBlocks,
                             ps_numBytesTotal := ps_numBytesTotal st + fileSize\<rparr>)))"

definition ps_loadFilesFromFile ::
    "(string \<Rightarrow> string) \<Rightarrow> file_system \<Rightarrow> string \<Rightarrow> u64 \<Rightarrow> u64 \<Rightarrow> u64 \<Rightarrow> path_store \<Rightarrow> path_store result" where
  "ps_loadFilesFromFile trim fs path minFileSize maxFileSize roundUpSize st =
     bindE (ps_checkBase64Encoding fs path) (\<lambda>b64.
       case fs path of
         None \<Rightarrow> Inl (ProgException ''Opening input file failed: '')
       | Some lines \<Rightarrow> load_file_lines trim b64 minFileSize maxFileSize roundUpSize lines st)"

definition ps_generateFileLine :: "string \<Rightarrow> u64 \<Rightarrow> string" where
  "ps_generateFileLine filePath fileSize = ''f '' @ to_string (unat fileSize) @ '' '' @ filePath @ [char_of (10 :: nat)]"

subsection \<open>Ordering\<close>

definition ps_sortByPathLen :: "path_store \<Rightarrow> path_store" where
  "ps_sortByPathLen st = st\<lparr>ps_paths := sort_key (\<lambda>e. (length (pe_path e), pe_path e)) (ps_paths st)\<rparr>"

definition ps_sortByFileSize :: "path_store \<Rightarrow> path_store" where
  "ps_sortByFileSize st = st\<lparr>ps_paths := sort_key (\<lambda>e. (totalLen e, pe_path e)) (ps_paths st)\<rparr>"

text \<open>
  The elements move to a vector and back in the same order; in between \<open>std::shuffle\<close> permutes
  them.
\<close>

definition ps_randomShuffle :: "(path_elem list \<Rightarrow> path_elem list) \<Rightarrow> path_store \<Rightarrow> path_store" where
  "ps_randomShuffle shuffle st =
     (let tmpPathVec = shuffle (ps_paths st)
      in st\<lparr>ps_paths := foldr (#) tmpPathVec [], numPaths := of_nat (length tmpPathVec)\<rparr>)"

subsection \<open>Dividing the paths among the workers\<close>

text \<open>
  Every n-th element for each worker: the loop from list position \<open>currentIdx\<close> on. With no
  threads it would not advance, so it is a partial function.
\<close>

partial_function (option) nonshared_loop ::
    "path_store \<Rightarrow> u64 \<Rightarrow> bool \<Rightarrow> nat \<Rightarrow> path_store \<Rightarrow> path_store result option" where
  "nonshared_loop st numThreads throwOnSmaller currentIdx out =
     (let e = ps_paths st ! currentIdx;
          fileSize = totalLen e;
          numFileBlocks = (if ps_blockSize st \<noteq> 0 then num_file_blocks fileSize (ps_blockSize st) else 0)
      in if throwOnSmaller \<and> fileSize < ps_blockSize st
         then Some (Inl (ProgException ''Found file that is smaller than block size. ''))
         else
           let out = out\<lparr>ps_paths := ps_paths out @ [e], numPaths := numPaths out + 1,
                         numBlocksTotal := numBlocksTotal out + numFileBlocks,
                         ps_numBytesTotal := ps_numBytesTotal out + fileSize\<rparr>
           in if numPaths st \<le> of_nat currentIdx + numThreads then Some (Inr out)
              else nonshared_loop st numThreads throwOnSmaller (currentIdx + unat numThreads) out)"

definition ps_getWorkerSublistNonShared ::
    "path_store \<Rightarrow> u32 \<Rightarrow> u32 \<Rightarrow> bool \<Rightarrow> path_store \<Rightarrow> path_store result option" where
  "ps_getWorkerSublistNonShared st workerRank numThreads throwOnSmaller out =
     (if numPaths st \<le> ucast workerRank then Some (Inr out)
      else nonshared_loop st (ucast numThreads) throwOnSmaller (unat workerRank) out)"

text \<open>
  Contiguous ranges of blocks over all files: the loop over the paths, with the global number
  of the first block of the current file and the blocks not yet assigned to this worker.
\<close>

fun shared_loop ::
    "u64 \<Rightarrow> bool \<Rightarrow> u64 \<Rightarrow> u64 \<Rightarrow> path_elem list \<Rightarrow> u64 \<Rightarrow> u64 \<Rightarrow> path_store \<Rightarrow> path_store result" where
  "shared_loop bs throwOnSmaller startBlock endBlock [] currentBlockIdx numBlocksLeft out = Inr out"
| "shared_loop bs throwOnSmaller startBlock endBlock (e # es) currentBlockIdx numBlocksLeft out =
     (if \<not> currentBlockIdx < endBlock then Inr out
      else
        let fileSize = totalLen e;
            numFileBlocks = num_file_blocks fileSize bs;
            firstFileBlock = currentBlockIdx;
            lastFileBlock = firstFileBlock + numFileBlocks - 1
        in if fileSize = 0 then Inl (ProgException ''getWorkerSublistSharedFound path with 0 length. '')
           else if lastFileBlock < startBlock
           then shared_loop bs throwOnSmaller startBlock endBlock es (currentBlockIdx + numFileBlocks) numBlocksLeft out
           else
             let (start, remainingFileBlocks) =
                   (if startBlock \<le> firstFileBlock then (0, numFileBlocks)
                    else let innerFileBlockOffset = startBlock - firstFileBlock
                         in (innerFileBlockOffset * bs, numFileBlocks - innerFileBlockOffset));
                 (len, numBlocksLeft) =
                   (if numBlocksLeft < remainingFileBlocks then (numBlocksLeft * bs, 0)
                    else (fileSize - start, numBlocksLeft - remainingFileBlocks))
             in if throwOnSmaller \<and> len < bs
                then Inl (ProgException ''Found file slice that is smaller than block size. '')
                else shared_loop bs throwOnSmaller startBlock endBlock es (currentBlockIdx + numFileBlocks) numBlocksLeft
                       (out\<lparr>ps_paths := ps_paths out @ [e\<lparr>rangeStart := start, rangeLen := len\<rparr>],
                            numPaths := numPaths out + 1,
                            ps_numBytesTotal := ps_numBytesTotal out + len\<rparr>))"

definition ps_getWorkerSublistShared ::
    "path_store \<Rightarrow> u32 \<Rightarrow> u32 \<Rightarrow> bool \<Rightarrow> path_store \<Rightarrow> path_store result" where
  "ps_getWorkerSublistShared st workerRank numThreads throwOnSmaller out =
     (if ps_paths st = [] then Inr out
      else if numThreads = 0 then Inl (Fault ''division by zero'')
      else
        let standardWorkerNumBlocks = numBlocksTotal st div ucast numThreads;
            thisWorkerNumBlocks =
              (if workerRank = numThreads - 1 \<and> numBlocksTotal st mod ucast numThreads \<noteq> 0
               then numBlocksTotal st - standardWorkerNumBlocks * ucast (numThreads - 1)
               else standardWorkerNumBlocks);
            startBlock = ucast workerRank * standardWorkerNumBlocks;
            endBlock = startBlock + thisWorkerNumBlocks
        in if thisWorkerNumBlocks = 0 then Inr out
           else if ps_blockSize st = 0 then Inl (Fault ''division by zero'')
           else
             bindE (shared_loop (ps_blockSize st) throwOnSmaller startBlock endBlock (ps_paths st) 0 thisWorkerNumBlocks out)
               (\<lambda>out. Inr (out\<lparr>numBlocksTotal := numBlocksTotal out + thisWorkerNumBlocks\<rparr>)))"

text \<open>
  Single blocks in turn: the inner loop over the blocks of one path, and the loop over the
  paths. The inner loop does not end for a block size of zero or when the offset wraps around.
\<close>

partial_function (option) rr_block_loop ::
    "u64 \<Rightarrow> bool \<Rightarrow> u32 \<Rightarrow> u32 \<Rightarrow> path_elem \<Rightarrow> u64 \<Rightarrow> u64 \<Rightarrow> path_store \<Rightarrow> (u64 \<times> path_store) result option" where
  "rr_block_loop bs throwOnSmaller workerRank numThreads e offset currentBlockIdx out =
     (if \<not> offset < totalLen e then Some (Inr (currentBlockIdx, out))
      else if ucast workerRank = currentBlockIdx mod ucast numThreads
      then
        let fileSizeLeft = totalLen e - offset in
        if throwOnSmaller \<and> fileSizeLeft < bs
        then Some (Inl (ProgException ''Found file slice that is smaller than block size. ''))
        else
          let len = (if fileSizeLeft < bs then fileSizeLeft else bs)
          in rr_block_loop bs throwOnSmaller workerRank numThreads e (offset + bs) (currentBlockIdx + 1)
               (out\<lparr>ps_paths := ps_paths out @ [e\<lparr>rangeStart := offset, rangeLen := len\<rparr>],
                    numPaths := numPaths out + 1,
                    ps_numBytesTotal := ps_numBytesTotal out + len,
                    numBlocksTotal := numBlocksTotal out + 1\<rparr>)
      else rr_block_loop bs throwOnSmaller workerRank numThreads e (offset + bs) (currentBlockIdx + 1) out)"

fun rr_path_loop ::
    "u64 \<Rightarrow> bool \<Rightarrow> u32 \<Rightarrow> u32 \<Rightarrow> path_elem list \<Rightarrow> u64 \<Rightarrow> path_store \<Rightarrow> path_store result option" where
  "rr_path_loop bs throwOnSmaller workerRank numThreads [] currentBlockIdx out = Some (Inr out)"
| "rr_path_loop bs throwOnSmaller workerRank numThreads (e # es) currentBlockIdx out =
     (if totalLen e = 0 then Some (Inl (ProgException ''getWorkerSublistSharedRoundRobinFound path with 0 length. ''))
      else if numThreads = 0 then Some (Inl (Fault ''division by zero''))
      else
        case rr_block_loop bs throwOnSmaller workerRank numThreads e 0 currentBlockIdx out of
          None \<Rightarrow> None
        | Some (Inl ex) \<Rightarrow> Some (Inl ex)
        | Some (Inr (currentBlockIdx, out)) \<Rightarrow>
            rr_path_loop bs throwOnSmaller workerRank numThreads es currentBlockIdx out)"

definition ps_getWorkerSublistSharedRoundRobin ::
    "path_store \<Rightarrow> u32 \<Rightarrow> u32 \<Rightarrow> bool \<Rightarrow> path_store \<Rightarrow> path_store result option" where
  "ps_getWorkerSublistSharedRoundRobin st workerRank numThreads throwOnSmaller out =
     (if ps_paths st = [] then Some (Inr out)
      else rr_path_loop (ps_blockSize st) throwOnSmaller workerRank numThreads (ps_paths st) 0 out)"

subsection \<open>Blocks of a file\<close>

definition nblocks :: "nat \<Rightarrow> nat \<Rightarrow> nat" where
  "nblocks s b = s div b + (if s mod b \<noteq> 0 then 1 else 0)"

lemma nblocks_bounds:
  assumes "0 < b"
  shows "s \<le> nblocks s b * b" "0 < s \<Longrightarrow> (nblocks s b - 1) * b < s" "x < s \<Longrightarrow> x div b < nblocks s b"
proof -
  define q r where qr: "q = s div b" "r = s mod b"
  have s: "s = q * b + r" "r < b" using assms by (simp_all add: qr)
  have n: "nblocks s b = q + (if r \<noteq> 0 then 1 else 0)" by (simp add: nblocks_def qr)
  show "s \<le> nblocks s b * b" unfolding n using s by auto
  show "(nblocks s b - 1) * b < s" if "0 < s"
    unfolding n using s that assms by (cases q) auto
  show "x div b < nblocks s b" if "x < s"
  proof (rule ccontr)
    assume "\<not> x div b < nblocks s b"
    then have "nblocks s b * b \<le> x div b * b" by simp
    also have "\<dots> \<le> x" by simp
    finally show False using \<open>s \<le> nblocks s b * b\<close> that by simp
  qed
qed

lemma nblocks_pos: "0 < b \<Longrightarrow> 0 < s \<Longrightarrow> 0 < nblocks s b"
  using nblocks_bounds(3) [of b 0 s] by simp

lemma unat_num_file_blocks:
  assumes "bs \<noteq> 0"
  shows "unat (num_file_blocks len bs) = nblocks (unat len) (unat bs)"
proof -
  have m: "unat (len mod bs) = unat len mod unat bs" "unat (len div bs) = unat len div unat bs"
    by (simp_all add: nat_of_word)
  show ?thesis
  proof (cases "len mod bs = 0")
    case True
    then have "unat len mod unat bs = 0" using m(1) by (metis unat_0)
    with True show ?thesis using m by (simp add: num_file_blocks_def nblocks_def)
  next
    case False
    then have nz: "unat len mod unat bs \<noteq> 0" using m(1) by (simp add: word_ne_0_pos del: unat_mod)
    then have "unat bs \<noteq> 1" by auto
    then have "1 < unat bs" using assms by (simp add: word_ne_0_pos)
    moreover have "0 < unat len" using nz by (cases "unat len") auto
    ultimately have "unat len div unat bs < unat len" by simp
    then have "unat len div unat bs + 1 < W64" using unat_less_W64 [of len] by linarith
    then show ?thesis using False nz m by (simp add: num_file_blocks_def nblocks_def nat_of_word)
  qed
qed

text \<open>A byte of a file is covered by a sublist when an element for the path has it in its range.\<close>

definition covers :: "path_store \<Rightarrow> string \<Rightarrow> nat \<Rightarrow> bool" where
  "covers out p x \<longleftrightarrow> (\<exists>e \<in> set (ps_paths out). pe_path e = p \<and> unat (rangeStart e) \<le> x \<and>
     x < unat (rangeStart e) + unat (rangeLen e))"

abbreviation nfb :: "u64 \<Rightarrow> path_elem \<Rightarrow> nat" where
  "nfb bs e \<equiv> nblocks (unat (totalLen e)) (unat bs)"

subsection \<open>Every n-th path\<close>

lemma filter_mod_step:
  assumes "0 < T" "i mod T = r" "i < n"
  shows "filter (\<lambda>j. j mod T = r) [i..<n] = i # filter (\<lambda>j. j mod T = r) [i + T..<n]"
proof -
  have none: "filter (\<lambda>j. j mod T = r) [Suc i..<min n (i + T)] = []"
  proof (rule filter_False, rule ballI)
    fix j
    assume "j \<in> set [Suc i..<min n (i + T)]"
    then have j: "i < j" "j - i < T" by auto
    show "j mod T \<noteq> r"
    proof
      assume "j mod T = r"
      then have "T dvd j - i" using assms(2) j(1) by (metis mod_eq_dvd_iff_nat less_imp_le)
      with j show False by (auto dest: dvd_imp_le)
    qed
  qed
  have "[i..<n] = i # [Suc i..<n]" using assms(3) by (rule upt_conv_Cons)
  moreover have "[Suc i..<n] = [Suc i..<min n (i + T)] @ [i + T..<n]"
  proof (cases "i + T \<le> n")
    case True
    then show ?thesis using assms(1,3) upt_add_eq_append [of "Suc i" "i + T" "n - (i + T)"] by simp
  qed simp
  ultimately show ?thesis using none assms(2) by simp
qed

lemma nonshared_loop_result:
  assumes "numPaths st = of_nat (length (ps_paths st))" "length (ps_paths st) + unat T < W64" "T \<noteq> 0"
    and "i < length (ps_paths st)" "i mod unat T = r"
    and "\<not> thr \<or> (\<forall>e \<in> set (ps_paths st). ps_blockSize st \<le> totalLen e)"
  shows "\<exists>out'. nonshared_loop st T thr i out = Some (Inr out') \<and>
    ps_paths out' = ps_paths out @ map ((!) (ps_paths st)) (filter (\<lambda>j. j mod unat T = r) [i..<length (ps_paths st)]) \<and>
    ps_numBytesTotal out' = ps_numBytesTotal out +
      sum_list (map totalLen (map ((!) (ps_paths st)) (filter (\<lambda>j. j mod unat T = r) [i..<length (ps_paths st)])))"
  using assms(4,5)
proof (induction "length (ps_paths st) - i" arbitrary: i out rule: less_induct)
  case less
  let ?n = "length (ps_paths st)"
  have T: "0 < unat T" using assms(3) by (simp add: word_ne_0_pos)
  have ok: "\<not> (thr \<and> totalLen (ps_paths st ! i) < ps_blockSize st)"
    using assms(6) less.prems(1) by (auto simp: not_less)
  note step = filter_mod_step [OF T less.prems(2,1)]
  have "unat (of_nat i + T) = i + unat T" "unat (numPaths st) = ?n"
    using assms(1,2) less.prems(1) by (auto simp: nat_of_word)
  then have cmp: "numPaths st \<le> of_nat i + T \<longleftrightarrow> ?n \<le> i + unat T" by (simp add: word_le_nat_alt)
  show ?case
  proof (cases "?n \<le> i + unat T")
    case True
    then show ?thesis
      using ok cmp step by (subst nonshared_loop.simps) (simp add: Let_def)
  next
    case False
    have "?n - (i + unat T) < ?n - i" "i + unat T < ?n" "(i + unat T) mod unat T = r"
      using False T less.prems by auto
    from less.hyps [OF this] show ?thesis
      using False ok cmp step by (subst nonshared_loop.simps) (fastforce simp: Let_def)
  qed
qed

subsection \<open>Contiguous ranges\<close>

text \<open>
  The byte range of a file of \<open>len\<close> bytes whose blocks start at the global number \<open>first\<close>, for the
  worker with the blocks from \<open>s\<close> up to \<open>e\<close>.
\<close>

definition file_range :: "nat \<Rightarrow> nat \<Rightarrow> nat \<Rightarrow> nat \<Rightarrow> nat \<Rightarrow> (nat \<times> nat) option" where
  "file_range b s e first len =
     (let lo = max s first; hi = min e (first + nblocks len b)
      in if lo < hi then Some ((lo - first) * b, min len ((hi - first) * b) - (lo - first) * b) else None)"

definition range_elem :: "u64 \<Rightarrow> nat \<Rightarrow> nat \<Rightarrow> nat \<Rightarrow> path_elem \<Rightarrow> path_elem list" where
  "range_elem bs s e cur p =
     (case file_range (unat bs) s e cur (unat (totalLen p)) of
        None \<Rightarrow> []
      | Some (a, l) \<Rightarrow> [p\<lparr>rangeStart := of_nat a, rangeLen := of_nat l\<rparr>])"

text \<open>The elements that a rule gives for each file, from the number of its first block.\<close>

fun per_file :: "u64 \<Rightarrow> (nat \<Rightarrow> path_elem \<Rightarrow> path_elem list) \<Rightarrow> nat \<Rightarrow> path_elem list \<Rightarrow> path_elem list" where
  "per_file bs f cur [] = []"
| "per_file bs f cur (p # ps) = f cur p @ per_file bs f (cur + nfb bs p) ps"

abbreviation shared_ranges :: "u64 \<Rightarrow> nat \<Rightarrow> nat \<Rightarrow> nat \<Rightarrow> path_elem list \<Rightarrow> path_elem list" where
  "shared_ranges bs s e \<equiv> per_file bs (range_elem bs s e)"

lemma shared_ranges_after: "e \<le> cur \<Longrightarrow> shared_ranges bs s e cur ps = []"
  by (induction ps arbitrary: cur) (auto simp: range_elem_def file_range_def)

text \<open>The first block of a file, in the middle of it and at its end.\<close>

lemma file_range_cases:
  assumes b: "0 < b" and len: "0 < len" and e: "c < e" "s < e" and over: "s < c + nblocks len b"
  defines "lo \<equiv> max s c"
  shows "e < c + nblocks len b \<Longrightarrow> file_range b s e c len = Some ((lo - c) * b, (e - lo) * b)"
    and "c + nblocks len b \<le> e \<Longrightarrow> file_range b s e c len = Some ((lo - c) * b, len - (lo - c) * b)"
    and "(lo - c) * b < len" and "e < c + nblocks len b \<Longrightarrow> (e - lo) * b < len"
proof -
  let ?n = "nblocks len b"
  have n: "0 < ?n" using b len by (rule nblocks_pos)
  have lo: "lo < c + ?n" "c \<le> lo" "lo < e" using over n e by (auto simp: lo_def)
  have bound: "k * b < len" if "k < ?n" for k
  proof -
    have "k * b \<le> (?n - 1) * b" using that by (intro mult_le_mono1) simp
    then show ?thesis using nblocks_bounds(2) [OF b len] by linarith
  qed
  show "(lo - c) * b < len" using lo by (intro bound) simp
  show "(e - lo) * b < len" if "e < c + ?n" using that lo by (intro bound) simp
  show "file_range b s e c len = Some ((lo - c) * b, (e - lo) * b)" if "e < c + ?n"
  proof -
    have "(e - c) * b < len" using that lo by (intro bound) simp
    moreover have "(e - c) * b - (lo - c) * b = (e - lo) * b"
      using lo by (simp flip: diff_mult_distrib)
    ultimately show ?thesis using that lo by (simp add: file_range_def Let_def lo_def [symmetric])
  qed
  show "file_range b s e c len = Some ((lo - c) * b, len - (lo - c) * b)" if "c + ?n \<le> e"
  proof -
    have "len \<le> ?n * b" by (rule nblocks_bounds(1) [OF b])
    then show ?thesis using that lo by (simp add: file_range_def Let_def lo_def [symmetric])
  qed
qed

lemma shared_loop_step:
  fixes bs S E cur left :: u64 and p :: path_elem
  assumes bs: "bs \<noteq> 0" and len: "totalLen p \<noteq> 0" and SE: "S < E" and cur: "cur < E"
    and sum: "unat cur + nfb bs p < W64" and left: "unat left = unat E - max (unat S) (unat cur)"
    and over: "unat S < unat cur + nfb bs p"
  defines "nb \<equiv> num_file_blocks (totalLen p) bs"
  defines "start \<equiv> (if S \<le> cur then 0 else (S - cur) * bs)"
    and "rem \<equiv> (if S \<le> cur then nb else nb - (S - cur))"
  defines "len' \<equiv> (if left < rem then left * bs else totalLen p - start)"
    and "left' \<equiv> (if left < rem then 0 else left - rem)"
  shows "file_range (unat bs) (unat S) (unat E) (unat cur) (unat (totalLen p)) = Some (unat start, unat len')"
    and "unat E - max (unat S) (unat cur + nfb bs p) = unat left'"
proof -
  let ?b = "unat bs" and ?c = "unat cur" and ?s = "unat S" and ?e = "unat E" and ?l = "unat (totalLen p)"
  have b: "0 < ?b" and l: "0 < ?l" using bs len by (simp_all add: word_ne_0_pos)
  have nb: "unat nb = nfb bs p" using bs by (simp add: nb_def unat_num_file_blocks)
  have lt: "?c < ?e" "?s < ?e" using SE cur by (simp_all add: word_less_nat_alt)
  note fr = file_range_cases [OF b l lt over]
  have Sc: "unat (S - cur) = ?s - ?c" if "\<not> S \<le> cur" using that by (simp add: nat_of_word)
  have lo: "(max ?s ?c - ?c) = (if S \<le> cur then 0 else ?s - ?c)" by (auto simp: word_le_nat_alt max_def)
  have start: "unat start = (max ?s ?c - ?c) * ?b"
    using fr(3) unat_less_W64 [of "totalLen p"] Sc lo by (auto simp: start_def nat_of_word)
  have rem: "unat rem = nfb bs p - (max ?s ?c - ?c)"
    using Sc lo nb over by (auto simp: rem_def nat_of_word)
  have cmp: "left < rem \<longleftrightarrow> ?e < ?c + nfb bs p"
    using left rem lt over by (auto simp: word_less_nat_alt max_def split: if_splits)
  show "file_range ?b ?s ?e ?c ?l = Some (unat start, unat len')"
  proof (cases "left < rem")
    case True
    have "unat (left * bs) = (?e - max ?s ?c) * ?b"
      using fr(4) cmp True left unat_less_W64 [of "totalLen p"] by (simp add: nat_of_word)
    then show ?thesis using fr(1) cmp True start by (simp add: len'_def)
  next
    case False
    have "unat (totalLen p - start) = ?l - (max ?s ?c - ?c) * ?b"
      using fr(3) start by (simp add: nat_of_word)
    then show ?thesis using fr(2) cmp False start by (simp add: len'_def)
  qed
  show "?e - max ?s (?c + nfb bs p) = unat left'"
    using left rem lt over cmp by (auto simp: left'_def nat_of_word max_def split: if_splits)
qed

abbreviation blocks_sum :: "u64 \<Rightarrow> path_elem list \<Rightarrow> nat" where
  "blocks_sum bs ps \<equiv> sum_list (map (nfb bs) ps)"

lemma shared_loop_result:
  assumes bs: "bs \<noteq> 0" and SE: "S < E"
    and "\<forall>p \<in> set ps. totalLen p \<noteq> 0" "unat cur + blocks_sum bs ps < W64"
    and "cur < E \<Longrightarrow> unat left = unat E - max (unat S) (unat cur)"
  shows "\<exists>out'. shared_loop bs False S E ps cur left out = Inr out' \<and>
    ps_paths out' = ps_paths out @ shared_ranges bs (unat S) (unat E) (unat cur) ps"
  using assms(3-5)
proof (induction ps arbitrary: cur left out)
  case (Cons p ps)
  have c: "unat cur + nfb bs p < W64" using Cons.prems(2) by simp
  let ?nb = "num_file_blocks (totalLen p) bs"
  have nb: "unat ?nb = nfb bs p" using bs by (rule unat_num_file_blocks)
  have nbp: "0 < nfb bs p" using bs Cons.prems(1) by (intro nblocks_pos) (simp_all add: word_ne_0_pos)
  have cn: "unat (cur + ?nb) = unat cur + nfb bs p" using c nb by (simp add: nat_of_word)
  show ?case
  proof (cases "cur < E")
    case False
    then have "shared_ranges bs (unat S) (unat E) (unat cur) (p # ps) = []"
      by (intro shared_ranges_after) (simp add: not_less word_le_nat_alt)
    then show ?thesis using False by (simp del: per_file.simps)
  next
    case True
    note left = Cons.prems(3) [OF True]
    have last: "unat (cur + ?nb - 1) = unat cur + nfb bs p - 1"
      using cn nbp unat_sub_no [of 1 "cur + ?nb"] by (simp add: word_le_nat_alt)
    then have before: "cur + ?nb - 1 < S \<longleftrightarrow> unat cur + nfb bs p \<le> unat S"
      using nbp by (auto simp: word_less_nat_alt)
    show ?thesis
    proof (cases "unat cur + nfb bs p \<le> unat S")
      case skip: True
      then have "range_elem bs (unat S) (unat E) (unat cur) p = []"
        by (auto simp: range_elem_def file_range_def Let_def)
      moreover have "\<exists>out'. shared_loop bs False S E ps (cur + ?nb) left out = Inr out' \<and>
          ps_paths out' = ps_paths out @ shared_ranges bs (unat S) (unat E) (unat (cur + ?nb)) ps"
        using Cons.prems cn skip left by (intro Cons.IH) auto
      ultimately show ?thesis using True skip before cn Cons.prems(1) by (simp add: Let_def)
    next
      case over: False
      have "\<not> cur + ?nb - 1 < S" using before over by simp
      moreover have so: "unat S < unat cur + nfb bs p" using over by simp
      have l: "totalLen p \<noteq> 0" using Cons.prems(1) by simp
      note st = shared_loop_step [OF bs l SE True c left so]
      define start rem len' left' where d: "start = (if S \<le> cur then 0 else (S - cur) * bs)"
        "rem = (if S \<le> cur then ?nb else ?nb - (S - cur))"
        "len' = (if left < rem then left * bs else totalLen p - start)"
        "left' = (if left < rem then 0 else left - rem)"
      note st' = st [folded d(1,2), folded d(3,4)]
      let ?out = "out\<lparr>ps_paths := ps_paths out @ [p\<lparr>rangeStart := start, rangeLen := len'\<rparr>],
        numPaths := numPaths out + 1, ps_numBytesTotal := ps_numBytesTotal out + len'\<rparr>"
      have "\<exists>out'. shared_loop bs False S E ps (cur + ?nb) left' ?out = Inr out' \<and>
          ps_paths out' = ps_paths ?out @ shared_ranges bs (unat S) (unat E) (unat (cur + ?nb)) ps"
        using Cons.prems cn st'(2) by (intro Cons.IH) auto
      moreover have "shared_loop bs False S E (p # ps) cur left out = shared_loop bs False S E ps (cur + ?nb) left' ?out"
        using True l calculation(1) by (auto simp: Let_def d)
      moreover have "range_elem bs (unat S) (unat E) (unat cur) p = [p\<lparr>rangeStart := start, rangeLen := len'\<rparr>]"
        using st'(1) by (simp add: range_elem_def)
      ultimately show ?thesis using cn by simp
    qed
  qed
qed simp

text \<open>The blocks of worker \<open>r\<close> of \<open>T\<close>: from \<open>wstart\<close> up to \<open>wend\<close>.\<close>

definition wstart :: "nat \<Rightarrow> nat \<Rightarrow> nat \<Rightarrow> nat" where
  "wstart tot T r = r * (tot div T)"

definition wend :: "nat \<Rightarrow> nat \<Rightarrow> nat \<Rightarrow> nat" where
  "wend tot T r = (if Suc r = T then tot else (r + 1) * (tot div T))"

lemma worker_blocks_partition:
  assumes "b < tot" "0 < T"
  shows "\<exists>!r. r < T \<and> wstart tot T r \<le> b \<and> b < wend tot T r"
proof -
  define q where "q = tot div T"
  have le: "T * q \<le> tot" by (simp add: q_def)
  define r where "r = (if q = 0 then T - 1 else min (b div q) (T - 1))"
  have "r < T" using assms(2) by (auto simp: r_def)
  moreover have "wstart tot T r \<le> b"
  proof -
    have "r * q \<le> b div q * q" by (cases "q = 0") (auto simp: r_def intro: mult_le_mono1)
    also have "\<dots> \<le> b" by simp
    finally show ?thesis by (simp add: wstart_def flip: q_def)
  qed
  moreover have "b < wend tot T r"
  proof (cases "Suc r = T")
    case False
    then have "q \<noteq> 0" "r = b div q" using assms(2) by (auto simp: r_def min_def split: if_splits)
    then show ?thesis using False dividend_less_div_times [of q b] by (simp add: wend_def flip: q_def)
  qed (simp add: wend_def assms)
  moreover have "r1 = r2" if "r1 < T" "wstart tot T r1 \<le> b" "b < wend tot T r1"
      "r2 < T" "wstart tot T r2 \<le> b" "b < wend tot T r2" for r1 r2
  proof -
    have "\<not> x < y" if "x < T" "b < wend tot T x" "y < T" "wstart tot T y \<le> b" for x y
    proof
      assume "x < y"
      then have "Suc x \<noteq> T" using \<open>y < T\<close> by simp
      then have "b < (x + 1) * q" using that(2) by (simp add: wend_def flip: q_def)
      also have "\<dots> \<le> y * q" using \<open>x < y\<close> by (intro mult_le_mono1) simp
      finally show False using that(4) by (simp add: wstart_def flip: q_def)
    qed
    then show ?thesis using that by (meson linorder_neqE_nat)
  qed
  ultimately show ?thesis by blast
qed

text \<open>A byte is in the range of a file exactly when its block belongs to the worker.\<close>

lemma file_range_byte:
  assumes b: "0 < b" and x: "x < len"
  shows "(\<exists>a l. file_range b s e c len = Some (a, l) \<and> a \<le> x \<and> x < a + l) \<longleftrightarrow>
    s \<le> c + x div b \<and> c + x div b < e"
proof -
  define lo hi where lh: "lo = max s c" "hi = min e (c + nblocks len b)"
  have n: "x div b < nblocks len b" using b x by (rule nblocks_bounds(3))
  have below: "x < k * b \<longleftrightarrow> x div b < k" for k
    using b by (simp add: div_less_iff_less_mult)
  have ge: "k * b \<le> x \<longleftrightarrow> k \<le> x div b" for k
    using below [of k] by (simp add: not_less flip: linorder_not_less)
  have "(\<exists>a l. file_range b s e c len = Some (a, l) \<and> a \<le> x \<and> x < a + l) \<longleftrightarrow>
      lo < hi \<and> (lo - c) * b \<le> x \<and> x < min len ((hi - c) * b)"
    by (auto simp: file_range_def Let_def lh [symmetric])
  also have "\<dots> \<longleftrightarrow> lo < hi \<and> lo - c \<le> x div b \<and> x div b < hi - c"
    using x by (simp add: below ge)
  also have "\<dots> \<longleftrightarrow> s \<le> c + x div b \<and> c + x div b < e"
    using n by (auto simp: lh)
  finally show ?thesis .
qed

lemma file_range_le:
  "0 < b \<Longrightarrow> file_range b s e c len = Some (a, l) \<Longrightarrow> a + l \<le> len"
proof -
  assume b: "0 < b" and f: "file_range b s e c len = Some (a, l)"
  define k h where kh: "k = max s c - c" "h = min e (c + nblocks len b) - c"
  have al: "a = k * b" "l = min len (h * b) - k * b" "k < h" "h \<le> nblocks len b"
    using f by (auto simp: file_range_def Let_def kh split: if_splits)
  have "k * b \<le> len"
  proof (cases "len = 0")
    case False
    have "k * b \<le> (nblocks len b - 1) * b" using al by (intro mult_le_mono1) simp
    then show ?thesis using nblocks_bounds(2) [OF b] False by (meson less_imp_le order_trans neq0_conv)
  qed (use al in \<open>simp add: nblocks_def\<close>)
  then show ?thesis using al by simp
qed

abbreviation elem_has :: "path_elem \<Rightarrow> string \<Rightarrow> nat \<Rightarrow> bool" where
  "elem_has e p x \<equiv> pe_path e = p \<and> unat (rangeStart e) \<le> x \<and> x < unat (rangeStart e) + unat (rangeLen e)"

lemma file_range_elem_covers:
  assumes b: "bs \<noteq> 0" and x: "x < unat (totalLen p)"
  shows "(\<exists>y \<in> set (range_elem bs s e cur p). elem_has y (pe_path p) x) \<longleftrightarrow>
    s \<le> cur + x div unat bs \<and> cur + x div unat bs < e"
proof -
  have b': "0 < unat bs" using b by (simp add: word_ne_0_pos)
  have "unat (of_nat a :: u64) = a \<and> unat (of_nat l :: u64) = l"
    if "file_range (unat bs) s e cur (unat (totalLen p)) = Some (a, l)" for a l
    using file_range_le [OF b' that] unat_less_W64 [of "totalLen p"] by (simp add: nat_of_word)
  then have "(\<exists>y \<in> set (range_elem bs s e cur p). elem_has y (pe_path p) x) \<longleftrightarrow>
      (\<exists>a l. file_range (unat bs) s e cur (unat (totalLen p)) = Some (a, l) \<and> a \<le> x \<and> x < a + l)"
    by (cases "file_range (unat bs) s e cur (unat (totalLen p))") (auto simp: range_elem_def)
  then show ?thesis using file_range_byte [OF b' x] by blast
qed

lemma per_file_paths:
  assumes "\<forall>cur p. \<forall>y \<in> set (f cur p). pe_path y = pe_path p" and "y \<in> set (per_file bs f cur ps)"
  shows "pe_path y \<in> pe_path ` set ps"
  using assms(2) by (induction ps arbitrary: cur) (use assms(1) in \<open>auto simp: image_iff\<close>)

lemma per_file_covers:
  assumes path: "\<forall>cur p. \<forall>y \<in> set (f cur p). pe_path y = pe_path p"
    and own: "\<And>cur p. x < unat (totalLen p) \<Longrightarrow>
      (\<exists>y \<in> set (f cur p). elem_has y (pe_path p) x) \<longleftrightarrow> Q (cur + x div unat bs)"
    and "distinct (map pe_path ps)" "k < length ps" "x < unat (totalLen (ps ! k))"
  shows "(\<exists>y \<in> set (per_file bs f cur ps). elem_has y (pe_path (ps ! k)) x) \<longleftrightarrow>
    Q (cur + blocks_sum bs (take k ps) + x div unat bs)"
  using assms(3-5)
proof (induction ps arbitrary: k cur)
  case (Cons p ps)
  have new: "pe_path p \<notin> pe_path ` set ps" using Cons.prems(1) by simp
  show ?case
  proof (cases k)
    case 0
    have none: "\<not> (\<exists>y \<in> set (per_file bs f (cur + nfb bs p) ps). elem_has y (pe_path p) x)"
      using per_file_paths [OF path] new by metis
    have "x < unat (totalLen p)" using Cons.prems(3) 0 by simp
    note hd = own [OF this, of cur]
    have "(\<exists>y \<in> set (per_file bs f cur (p # ps)). elem_has y (pe_path p) x) \<longleftrightarrow>
        (\<exists>y \<in> set (f cur p). elem_has y (pe_path p) x)"
      unfolding per_file.simps set_append bex_Un using none by argo
    with hd show ?thesis by (simp add: 0 del: per_file.simps)
  next
    case (Suc j)
    then have j: "j < length ps" and x: "x < unat (totalLen (ps ! j))" using Cons.prems by simp_all
    then have "pe_path (ps ! j) \<noteq> pe_path p" using new by (metis imageI nth_mem)
    then have none: "\<not> (\<exists>y \<in> set (f cur p). elem_has y (pe_path (ps ! j)) x)"
      using path by metis
    have "distinct (map pe_path ps)" using Cons.prems(1) by simp
    note tl = Cons.IH [OF this j x, of "cur + nfb bs p"]
    have "(\<exists>y \<in> set (per_file bs f cur (p # ps)). elem_has y (pe_path (ps ! j)) x) \<longleftrightarrow>
        (\<exists>y \<in> set (per_file bs f (cur + nfb bs p) ps). elem_has y (pe_path (ps ! j)) x)"
      unfolding per_file.simps set_append bex_Un using none by argo
    with tl show ?thesis by (simp add: Suc add.assoc del: per_file.simps)
  qed
qed simp

lemma shared_ranges_covers:
  assumes "bs \<noteq> 0" "distinct (map pe_path ps)" "k < length ps" "x < unat (totalLen (ps ! k))"
  shows "(\<exists>y \<in> set (shared_ranges bs s e cur ps). elem_has y (pe_path (ps ! k)) x) \<longleftrightarrow>
    s \<le> cur + blocks_sum bs (take k ps) + x div unat bs \<and> cur + blocks_sum bs (take k ps) + x div unat bs < e"
proof (rule per_file_covers [where Q = "\<lambda>b. s \<le> b \<and> b < e", OF _ _ assms(2-4)])
  show "\<forall>c p. \<forall>y \<in> set (range_elem bs s e c p). pe_path y = pe_path p"
    by (auto simp: range_elem_def split: option.splits)
qed (rule file_range_elem_covers [OF assms(1)])

text \<open>A store whose block counter is right, with files of at least one block.\<close>

definition ps_blocks_ok :: "path_store \<Rightarrow> bool" where
  "ps_blocks_ok st \<longleftrightarrow> ps_blockSize st \<noteq> 0 \<and> (\<forall>p \<in> set (ps_paths st). totalLen p \<noteq> 0) \<and>
     blocks_sum (ps_blockSize st) (ps_paths st) < W64 \<and>
     unat (numBlocksTotal st) = blocks_sum (ps_blockSize st) (ps_paths st)"

lemma worker_block_interval:
  fixes tot :: u64 and T :: u32 and r :: nat
  assumes r: "r < unat T"
  defines "std \<equiv> tot div ucast T"
  defines "num \<equiv> (if (of_nat r :: u32) = T - 1 \<and> tot mod ucast T \<noteq> 0 then tot - std * ucast (T - 1) else std)"
  shows "unat (ucast (of_nat r :: u32) * std) = wstart (unat tot) (unat T) r"
    and "unat num = wend (unat tot) (unat T) r - wstart (unat tot) (unat T) r"
    and "wstart (unat tot) (unat T) r \<le> wend (unat tot) (unat T) r" "wend (unat tot) (unat T) r \<le> unat tot"
proof -
  define q n t where d: "q = unat tot div unat T" "n = unat T" "t = unat tot"
  have uT: "unat (ucast T :: u64) = n" by (simp add: d)
  have rw: "unat (of_nat r :: u32) = r" using r by (rule unat_of_nat_u32)
  then have ur: "unat (ucast (of_nat r :: u32) :: u64) = r" by simp
  have ustd: "unat std = q" using uT by (simp add: std_def nat_of_word d)
  have T1: "unat (T - 1) = n - 1" using r by (simp add: d unat_sub word_le_nat_alt)
  then have uT1: "unat (ucast (T - 1) :: u64) = n - 1" by simp
  have last: "(of_nat r :: u32) = T - 1 \<longleftrightarrow> Suc r = n"
    using r rw T1 by (auto simp: d word_unat_eq_iff)
  have w: "wstart (unat tot) (unat T) r = r * q" "wend (unat tot) (unat T) r = (if Suc r = n then t else (r + 1) * q)"
    by (simp_all add: wstart_def wend_def d)
  have nq: "n * q \<le> t" by (simp add: d)
  have le: "k * q \<le> t" if "k \<le> n" for k using nq mult_le_mono1 [OF that, of q] by linarith
  have t64: "t < W64" unfolding d by (rule unat_less_W64)
  show S: "unat (ucast (of_nat r :: u32) * std) = wstart (unat tot) (unat T) r"
    using le [of r] r t64 ur ustd by (simp add: nat_of_word wstart_def d)
  have m: "tot mod ucast T = 0 \<longleftrightarrow> t mod n = 0"
    using uT by (metis d(3) unat_eq_zero unat_mod)
  have pT: "unat (std * ucast (T - 1)) = q * (n - 1)"
    using le [of "n - 1"] t64 uT1 ustd by (simp add: nat_of_word mult.commute)
  have ts: "unat (tot - std * ucast (T - 1)) = t - q * (n - 1)"
    using le [of "n - 1"] pT by (simp add: nat_of_word mult.commute d)
  have full: "t - r * q = q" if "t mod n = 0" "Suc r = n"
  proof -
    have "t = n * q" using that(1) by (auto simp: d)
    then have "t = Suc r * q" unfolding that(2) .
    then show ?thesis by simp
  qed
  show "unat num = wend (unat tot) (unat T) r - wstart (unat tot) (unat T) r"
    using last m ts ustd full unfolding w num_def by (auto simp: mult.commute)
  show "wstart (unat tot) (unat T) r \<le> wend (unat tot) (unat T) r" "wend (unat tot) (unat T) r \<le> unat tot"
    using le [of r] le [of "r + 1"] r unfolding w unfolding d(3) [symmetric] by (auto simp: d(2))
qed

lemma shared_ranges_empty: "e \<le> s \<Longrightarrow> shared_ranges bs s e cur ps = []"
  by (induction ps arbitrary: cur) (auto simp: range_elem_def file_range_def)

lemma shared_worker_result:
  assumes ok: "ps_blocks_ok st" and r: "r < unat T"
  shows "\<exists>out'. ps_getWorkerSublistShared st (of_nat r) T False out = Inr out' \<and>
    ps_paths out' = ps_paths out @ shared_ranges (ps_blockSize st)
      (wstart (unat (numBlocksTotal st)) (unat T) r) (wend (unat (numBlocksTotal st)) (unat T) r) 0 (ps_paths st)"
proof (cases "ps_paths st = []")
  case False
  note iv = worker_block_interval [OF r, of "numBlocksTotal st"]
  let ?tot = "numBlocksTotal st" and ?bs = "ps_blockSize st"
  let ?s = "wstart (unat ?tot) (unat T) r" and ?e = "wend (unat ?tot) (unat T) r"
  define std num S where d: "std = ?tot div ucast T"
    "num = (if (of_nat r :: u32) = T - 1 \<and> ?tot mod ucast T \<noteq> 0 then ?tot - std * ucast (T - 1) else std)"
    "S = ucast (of_nat r :: u32) * std"
  have uS: "unat S = ?s" unfolding d by (rule iv(1))
  have un: "unat num = ?e - ?s" unfolding d by (rule iv(2))
  have uE: "unat (S + num) = ?e"
    using uS un iv(3,4) unat_less_W64 [of ?tot] by (subst unat_add_no) simp_all
  have T: "T \<noteq> 0" using r by auto
  have unfold_op: "ps_getWorkerSublistShared st (of_nat r) T False out =
      (if num = 0 then Inr out else
       bindE (shared_loop ?bs False S (S + num) (ps_paths st) 0 num out)
         (\<lambda>out. Inr (out\<lparr>numBlocksTotal := numBlocksTotal out + num\<rparr>)))"
    using False ok T by (simp add: ps_getWorkerSublistShared_def Let_def d ps_blocks_ok_def)
  show ?thesis
  proof (cases "num = 0")
    case True
    then have "?e \<le> ?s" using un iv(3) by simp
    then show ?thesis using True by (simp add: unfold_op shared_ranges_empty)
  next
    case nz: False
    then have "S < S + num" using uS uE un by (simp add: word_less_nat_alt word_ne_0_pos)
    then have "\<exists>out'. shared_loop ?bs False S (S + num) (ps_paths st) 0 num out = Inr out' \<and>
        ps_paths out' = ps_paths out @ shared_ranges ?bs (unat S) (unat (S + num)) (unat (0 :: u64)) (ps_paths st)"
      using ok un uE uS by (intro shared_loop_result) (auto simp: ps_blocks_ok_def)
    then show ?thesis using nz uS uE by (auto simp: unfold_op)
  qed
qed (simp add: ps_getWorkerSublistShared_def)

lemma shared_worker_covers:
  assumes ok: "ps_blocks_ok st" and r: "r < unat T" and dist: "distinct (map pe_path (ps_paths st))"
    and k: "k < length (ps_paths st)" and x: "x < unat (totalLen (ps_paths st ! k))"
  defines "b \<equiv> blocks_sum (ps_blockSize st) (take k (ps_paths st)) + x div unat (ps_blockSize st)"
  shows "\<exists>out. ps_getWorkerSublistShared st (of_nat r) T False ps_new = Inr out \<and>
    (covers out (pe_path (ps_paths st ! k)) x \<longleftrightarrow>
       wstart (unat (numBlocksTotal st)) (unat T) r \<le> b \<and> b < wend (unat (numBlocksTotal st)) (unat T) r)"
proof -
  obtain out where o: "ps_getWorkerSublistShared st (of_nat r) T False ps_new = Inr out"
    "ps_paths out = shared_ranges (ps_blockSize st) (wstart (unat (numBlocksTotal st)) (unat T) r)
      (wend (unat (numBlocksTotal st)) (unat T) r) 0 (ps_paths st)"
    using shared_worker_result [OF ok r, of ps_new] by (auto simp: ps_new_def)
  have bs: "ps_blockSize st \<noteq> 0" using ok by (simp add: ps_blocks_ok_def)
  from o shared_ranges_covers [OF bs dist k x, where cur = 0] show ?thesis
    by (auto simp: covers_def b_def)
qed

lemma byte_block_less:
  assumes "bs \<noteq> 0" "k < length ps" "x < unat (totalLen (ps ! k))"
  shows "blocks_sum bs (take k ps) + x div unat bs < blocks_sum bs ps"
proof -
  have "x div unat bs < nfb bs (ps ! k)"
    using assms(1,3) by (intro nblocks_bounds(3)) (simp_all add: word_ne_0_pos)
  moreover have "blocks_sum bs ps = blocks_sum bs (take k ps) + nfb bs (ps ! k) + blocks_sum bs (drop (Suc k) ps)"
    by (subst id_take_nth_drop [OF assms(2)]) simp
  ultimately show ?thesis by linarith
qed

definition example_store :: path_store where
  "example_store = \<lparr>ps_blockSize = 4, numBlocksTotal = 5, ps_numBytesTotal = 17, numPaths = 2,
     ps_paths = [\<lparr>pe_path = ''a'', totalLen = 12, rangeStart = 0, rangeLen = 12\<rparr>,
                 \<lparr>pe_path = ''b'', totalLen = 5, rangeStart = 0, rangeLen = 5\<rparr>]\<rparr>"

text \<open>
  C15: Contiguous sharing (\<open>getWorkerSublistShared\<close>) divides the data set: for a store with distinct
  paths every worker gets a sublist, and every byte of every file is in the sublist of exactly one
  worker.
\<close>

theorem shared_sublists_partition_bytes:
  assumes "ps_blocks_ok st" "distinct (map pe_path (ps_paths st))" "T \<noteq> 0"
    and "k < length (ps_paths st)" "x < unat (totalLen (ps_paths st ! k))"
  shows "\<exists>outs. (\<forall>r < unat T. ps_getWorkerSublistShared st (of_nat r) T False ps_new = Inr (outs r)) \<and>
    (\<exists>!r. r < unat T \<and> covers (outs r) (pe_path (ps_paths st ! k)) x)"
proof -
  define b where "b = blocks_sum (ps_blockSize st) (take k (ps_paths st)) + x div unat (ps_blockSize st)"
  define tot where "tot = unat (numBlocksTotal st)"
  have "\<forall>r \<in> {..<unat T}. \<exists>out. ps_getWorkerSublistShared st (of_nat r) T False ps_new = Inr out \<and>
      (covers out (pe_path (ps_paths st ! k)) x \<longleftrightarrow> wstart tot (unat T) r \<le> b \<and> b < wend tot (unat T) r)"
    using shared_worker_covers [OF assms(1) _ assms(2,4,5)] by (simp add: b_def tot_def)
  from bchoice [OF this] obtain outs where outs: "\<forall>r < unat T. ps_getWorkerSublistShared st (of_nat r) T False ps_new = Inr (outs r) \<and>
      (covers (outs r) (pe_path (ps_paths st ! k)) x \<longleftrightarrow> wstart tot (unat T) r \<le> b \<and> b < wend tot (unat T) r)"
    by auto
  have "b < tot"
    using byte_block_less [OF _ assms(4,5)] assms(1) by (simp add: b_def tot_def ps_blocks_ok_def)
  moreover have "0 < unat T" using assms(3) by (simp add: unat_gt_0)
  ultimately have "\<exists>!r. r < unat T \<and> wstart tot (unat T) r \<le> b \<and> b < wend tot (unat T) r"
    by (rule worker_blocks_partition)
  then have "\<exists>!r. r < unat T \<and> covers (outs r) (pe_path (ps_paths st ! k)) x"
    using outs by (metis (no_types, lifting))
  with outs show ?thesis by blast
qed

theorem shared_sublists_partition_bytes_witness:
  "\<exists>outs. (\<forall>r < unat (2 :: u32). ps_getWorkerSublistShared example_store (of_nat r) 2 False ps_new = Inr (outs r)) \<and>
    (\<exists>!r. r < unat (2 :: u32) \<and> covers (outs r) ''b'' 3)"
  using shared_sublists_partition_bytes [of example_store 2 1 3]
  by (simp add: example_store_def ps_blocks_ok_def nblocks_def)

subsection \<open>Blocks in turn\<close>

definition rr_elem :: "u64 \<Rightarrow> path_elem \<Rightarrow> nat \<Rightarrow> path_elem" where
  "rr_elem bs p i = p\<lparr>rangeStart := of_nat (i * unat bs), rangeLen := of_nat (min (unat bs) (unat (totalLen p) - i * unat bs))\<rparr>"

lemma rr_block_loop_result:
  fixes T r :: u32
  assumes bs: "bs \<noteq> 0" and T: "T \<noteq> 0" and fits: "nfb bs p * unat bs < W64" "unat cur + (nfb bs p - j) < W64"
    and j: "j \<le> nfb bs p"
  shows "\<exists>out'. rr_block_loop bs False r T p (of_nat (j * unat bs)) cur out =
      Some (Inr (cur + of_nat (nfb bs p - j), out')) \<and>
    ps_paths out' = ps_paths out @
      map (rr_elem bs p) (filter (\<lambda>i. (unat cur + (i - j)) mod unat T = unat r) [j..<nfb bs p])"
  using fits(2) j
proof (induction "nfb bs p - j" arbitrary: j cur out)
  case 0
  let ?o = "of_nat (j * unat bs) :: u64"
  have n: "j = nfb bs p" using 0 by simp
  have "unat ?o = nfb bs p * unat bs" unfolding n using fits(1) by (rule unat_of_nat_no)
  then have "\<not> ?o < totalLen p"
    using nblocks_bounds(1) [of "unat bs" "unat (totalLen p)"] bs by (simp add: word_less_nat_alt word_ne_0_pos)
  then show ?case using n by (subst rr_block_loop.simps) simp
next
  case (Suc m)
  let ?b = "unat bs" and ?l = "unat (totalLen p)"
  define o1 where "o1 = (of_nat (j * ?b) :: u64)"
  have jn: "j < nfb bs p" using Suc.hyps(2) by simp
  have b: "0 < ?b" using bs by (simp add: word_ne_0_pos)
  have jb: "Suc j * ?b \<le> nfb bs p * ?b" using jn by (intro mult_le_mono1) simp
  have u1: "unat o1 = j * ?b" unfolding o1_def using fits(1) jb by (intro unat_of_nat_no) simp
  have l0: "0 < ?l" using jn by (cases "?l") (simp_all add: nblocks_def)
  have "j * ?b \<le> (nfb bs p - 1) * ?b" using jn by (intro mult_le_mono1) simp
  then have lt: "j * ?b < ?l" using nblocks_bounds(2) [OF b l0] by linarith
  have o_lt: "o1 < totalLen p" using u1 lt by (simp add: word_less_nat_alt)
  have o2: "o1 + bs = of_nat (Suc j * ?b)" by (simp add: o1_def add.commute)
  have left: "unat (totalLen p - o1) = ?l - j * ?b" using o_lt u1 by (simp add: nat_of_word)
  define len where "len = (if totalLen p - o1 < bs then totalLen p - o1 else bs)"
  have ulen: "unat len = min ?b (?l - j * ?b)" using left by (auto simp: len_def word_less_nat_alt min_def)
  have c1: "unat (cur + 1) = Suc (unat cur)" using Suc.prems Suc.hyps(2) by (simp add: nat_of_word)
  have idx: "(unat (cur + 1) + (i - Suc j)) mod unat T = (unat cur + (i - j)) mod unat T" if "i \<in> set [Suc j..<nfb bs p]" for i
  proof -
    have "unat (cur + 1) + (i - Suc j) = unat cur + (i - j)" using c1 that by auto
    then show ?thesis by simp
  qed
  have same: "filter (\<lambda>i. (unat (cur + 1) + (i - Suc j)) mod unat T = unat r) [Suc j..<nfb bs p] =
      filter (\<lambda>i. (unat cur + (i - j)) mod unat T = unat r) [Suc j..<nfb bs p]"
    using idx by (intro filter_cong refl) simp
  have mine: "ucast r = cur mod ucast T \<longleftrightarrow> unat cur mod unat T = unat r"
    by (auto simp: unat_eq_iff_u64 nat_of_word unat_mod)
  have rest: "cur + 1 + of_nat (nfb bs p - Suc j) = cur + of_nat (nfb bs p - j)"
    using jn by (simp add: of_nat_diff)
  have IH: "\<exists>out'. rr_block_loop bs False r T p (of_nat (Suc j * ?b)) (cur + 1) out1 =
        Some (Inr (cur + of_nat (nfb bs p - j), out')) \<and>
      ps_paths out' = ps_paths out1 @
        map (rr_elem bs p) (filter (\<lambda>i. (unat cur + (i - j)) mod unat T = unat r) [Suc j..<nfb bs p])" for out1
  proof -
    have "m = nfb bs p - Suc j" "unat (cur + 1) + (nfb bs p - Suc j) < W64" "Suc j \<le> nfb bs p"
      using Suc.hyps(2) Suc.prems c1 jn by simp_all
    from Suc.hyps(1) [OF this, of out1] show ?thesis
      unfolding rest same .
  qed
  have elem: "p\<lparr>rangeStart := o1, rangeLen := len\<rparr> = rr_elem bs p j"
    using ulen by (simp add: rr_elem_def o1_def flip: ulen)
  have hd: "[j..<nfb bs p] = j # [Suc j..<nfb bs p]" using jn by (rule upt_conv_Cons)
  show ?case
  proof (cases "unat cur mod unat T = unat r")
    case True
    let ?out = "out\<lparr>ps_paths := ps_paths out @ [p\<lparr>rangeStart := o1, rangeLen := len\<rparr>],
      numPaths := numPaths out + 1, ps_numBytesTotal := ps_numBytesTotal out + len,
      numBlocksTotal := numBlocksTotal out + 1\<rparr>"
    have "rr_block_loop bs False r T p o1 cur out = rr_block_loop bs False r T p (o1 + bs) (cur + 1) ?out"
      using True o_lt mine by (subst rr_block_loop.simps) (simp add: Let_def len_def)
    moreover obtain out' where "rr_block_loop bs False r T p (o1 + bs) (cur + 1) ?out =
        Some (Inr (cur + of_nat (nfb bs p - j), out'))"
      "ps_paths out' = ps_paths ?out @
        map (rr_elem bs p) (filter (\<lambda>i. (unat cur + (i - j)) mod unat T = unat r) [Suc j..<nfb bs p])"
      unfolding o2 using IH by blast
    ultimately show ?thesis unfolding o1_def [symmetric] hd using True elem by (intro exI [of _ out']) simp
  next
    case False
    have "rr_block_loop bs False r T p o1 cur out = rr_block_loop bs False r T p (o1 + bs) (cur + 1) out"
      using False o_lt mine by (subst rr_block_loop.simps) (simp add: Let_def)
    then show ?thesis unfolding o1_def [symmetric] hd using IH [of out, folded o2] False by simp
  qed
qed

definition rr_elems :: "u64 \<Rightarrow> nat \<Rightarrow> nat \<Rightarrow> nat \<Rightarrow> path_elem \<Rightarrow> path_elem list" where
  "rr_elems bs T r cur p = map (rr_elem bs p) (filter (\<lambda>i. (cur + i) mod T = r) [0..<nfb bs p])"

lemma rr_path_loop_result:
  assumes bs: "bs \<noteq> 0" and T: "T \<noteq> 0"
    and "\<forall>p \<in> set ps. totalLen p \<noteq> 0 \<and> nfb bs p * unat bs < W64" "unat cur + blocks_sum bs ps < W64"
  shows "\<exists>out'. rr_path_loop bs False r T ps cur out = Some (Inr out') \<and>
    ps_paths out' = ps_paths out @ per_file bs (rr_elems bs (unat T) (unat r)) (unat cur) ps"
  using assms(3,4)
proof (induction ps arbitrary: cur out)
  case (Cons p ps)
  have fits: "nfb bs p * unat bs < W64" "unat cur + (nfb bs p - 0) < W64" using Cons.prems by simp_all
  obtain out1 where o1: "rr_block_loop bs False r T p 0 cur out = Some (Inr (cur + of_nat (nfb bs p), out1))"
    "ps_paths out1 = ps_paths out @ rr_elems bs (unat T) (unat r) (unat cur) p"
    using rr_block_loop_result [OF bs T fits, of r out] by (auto simp: rr_elems_def)
  have c: "unat (cur + of_nat (nfb bs p)) = unat cur + nfb bs p"
    using Cons.prems(2) by (simp add: nat_of_word)
  have "\<forall>p \<in> set ps. totalLen p \<noteq> 0 \<and> nfb bs p * unat bs < W64"
    "unat (cur + of_nat (nfb bs p)) + blocks_sum bs ps < W64"
    using Cons.prems unfolding c by simp_all
  from Cons.IH [OF this, of out1] show ?case using o1 Cons.prems(1) T c by auto
qed simp

text \<open>A byte of a file is in the element of its own block only.\<close>

lemma rr_elems_covers:
  assumes bs: "bs \<noteq> 0" and x: "x < unat (totalLen p)"
  shows "(\<exists>y \<in> set (rr_elems bs T r cur p). elem_has y (pe_path p) x) \<longleftrightarrow> (cur + x div unat bs) mod T = r"
proof -
  let ?b = "unat bs" and ?l = "unat (totalLen p)"
  have b: "0 < ?b" using bs by (simp add: word_ne_0_pos)
  have n: "x div ?b < nfb bs p" using b x by (rule nblocks_bounds(3))
  have has: "elem_has (rr_elem bs p i) (pe_path p) x \<longleftrightarrow> i = x div ?b" if i: "i < nfb bs p" for i
  proof -
    have "i * ?b \<le> (nfb bs p - 1) * ?b" using i by (intro mult_le_mono1) simp
    then have lt: "i * ?b < ?l" using nblocks_bounds(2) [OF b, of ?l] x by linarith
    then have "unat (of_nat (i * ?b) :: u64) = i * ?b"
      "unat (of_nat (min ?b (?l - i * ?b)) :: u64) = min ?b (?l - i * ?b)"
      using unat_less_W64 [of "totalLen p"] by (intro unat_of_nat_no; linarith)+
    then have "elem_has (rr_elem bs p i) (pe_path p) x \<longleftrightarrow> i * ?b \<le> x \<and> x < i * ?b + ?b"
      using x lt unfolding rr_elem_def by (auto simp del: of_nat_mult)
    also have "\<dots> \<longleftrightarrow> i = x div ?b"
      using b div_nat_eqI [of ?b i x] div_times_less_eq_dividend [of x ?b] dividend_less_div_times [of ?b x]
      by (auto simp: mult.commute)
    finally show ?thesis .
  qed
  show ?thesis unfolding rr_elems_def using has n by auto
qed

lemma rr_ranges_covers:
  assumes "bs \<noteq> 0" "distinct (map pe_path ps)" "k < length ps" "x < unat (totalLen (ps ! k))"
  shows "(\<exists>y \<in> set (per_file bs (rr_elems bs T r) cur ps). elem_has y (pe_path (ps ! k)) x) \<longleftrightarrow>
    (cur + blocks_sum bs (take k ps) + x div unat bs) mod T = r"
proof (rule per_file_covers [where Q = "\<lambda>b. b mod T = r", OF _ _ assms(2-4)])
  show "\<forall>cur p. \<forall>y \<in> set (rr_elems bs T r cur p). pe_path y = pe_path p"
    by (auto simp: rr_elems_def rr_elem_def)
qed (rule rr_elems_covers [OF assms(1)])

lemma rr_worker_covers:
  assumes ok: "ps_blocks_ok st" and T: "T \<noteq> 0" and r: "r < unat T"
    and dist: "distinct (map pe_path (ps_paths st))"
    and fits: "\<forall>p \<in> set (ps_paths st). nfb (ps_blockSize st) p * unat (ps_blockSize st) < W64"
    and k: "k < length (ps_paths st)" and x: "x < unat (totalLen (ps_paths st ! k))"
  shows "\<exists>out. ps_getWorkerSublistSharedRoundRobin st (of_nat r) T False ps_new = Some (Inr out) \<and>
    (covers out (pe_path (ps_paths st ! k)) x \<longleftrightarrow>
       (blocks_sum (ps_blockSize st) (take k (ps_paths st)) + x div unat (ps_blockSize st)) mod unat T = r)"
proof -
  let ?bs = "ps_blockSize st" and ?ps = "ps_paths st"
  have bs: "?bs \<noteq> 0" using ok by (simp add: ps_blocks_ok_def)
  have ur: "unat (of_nat r :: u32) = r" using r by (rule unat_of_nat_u32)
  have "\<forall>p \<in> set ?ps. totalLen p \<noteq> 0 \<and> nfb ?bs p * unat ?bs < W64" "unat (0 :: u64) + blocks_sum ?bs ?ps < W64"
    using ok fits by (auto simp: ps_blocks_ok_def)
  from rr_path_loop_result [OF bs T this, of "of_nat r" ps_new] obtain out where
    o: "rr_path_loop ?bs False (of_nat r) T ?ps 0 ps_new = Some (Inr out)"
       "ps_paths out = per_file ?bs (rr_elems ?bs (unat T) r) 0 ?ps"
    unfolding ur by (auto simp: ps_new_def)
  have "(\<exists>y \<in> set (ps_paths out). elem_has y (pe_path (?ps ! k)) x) \<longleftrightarrow>
      (0 + blocks_sum ?bs (take k ?ps) + x div unat ?bs) mod unat T = r"
    unfolding o(2) by (rule rr_ranges_covers [OF bs dist k x])
  moreover have "?ps \<noteq> []" using k by auto
  ultimately show ?thesis using o(1) by (auto simp: ps_getWorkerSublistSharedRoundRobin_def covers_def)
qed

text \<open>
  C18: Sharing the blocks in turn (\<open>getWorkerSublistSharedRoundRobin\<close>) ends for every worker and divides
  the data set: every byte of every file is in the sublist of exactly one worker.
\<close>

theorem round_robin_sublists_partition_bytes:
  assumes "ps_blocks_ok st" "distinct (map pe_path (ps_paths st))" "T \<noteq> 0"
    and "\<forall>p \<in> set (ps_paths st). nfb (ps_blockSize st) p * unat (ps_blockSize st) < W64"
    and "k < length (ps_paths st)" "x < unat (totalLen (ps_paths st ! k))"
  shows "\<exists>outs. (\<forall>r < unat T. ps_getWorkerSublistSharedRoundRobin st (of_nat r) T False ps_new = Some (Inr (outs r))) \<and>
    (\<exists>!r. r < unat T \<and> covers (outs r) (pe_path (ps_paths st ! k)) x)"
proof -
  define b where "b = blocks_sum (ps_blockSize st) (take k (ps_paths st)) + x div unat (ps_blockSize st)"
  have "\<forall>r \<in> {..<unat T}. \<exists>out. ps_getWorkerSublistSharedRoundRobin st (of_nat r) T False ps_new = Some (Inr out) \<and>
      (covers out (pe_path (ps_paths st ! k)) x \<longleftrightarrow> b mod unat T = r)"
    using rr_worker_covers [OF assms(1,3) _ assms(2,4-6)] by (simp add: b_def)
  from bchoice [OF this] obtain outs where outs: "\<forall>r < unat T.
      ps_getWorkerSublistSharedRoundRobin st (of_nat r) T False ps_new = Some (Inr (outs r)) \<and>
      (covers (outs r) (pe_path (ps_paths st ! k)) x \<longleftrightarrow> b mod unat T = r)"
    by auto
  have "b mod unat T < unat T" using assms(3) by (simp add: unat_gt_0)
  with outs have "\<exists>!r. r < unat T \<and> covers (outs r) (pe_path (ps_paths st ! k)) x" by blast
  with outs show ?thesis by blast
qed

theorem round_robin_sublists_partition_bytes_witness:
  "\<exists>outs. (\<forall>r < unat (2 :: u32).
      ps_getWorkerSublistSharedRoundRobin example_store (of_nat r) 2 False ps_new = Some (Inr (outs r))) \<and>
    (\<exists>!r. r < unat (2 :: u32) \<and> covers (outs r) ''b'' 3)"
  using round_robin_sublists_partition_bytes [of example_store 2 1 3]
  by (simp add: example_store_def ps_blocks_ok_def nblocks_def)

lemma nonshared_worker_result:
  assumes "numPaths st = of_nat (length (ps_paths st))" "length (ps_paths st) + unat T < W64"
    and "T \<noteq> 0" "r < unat T" "\<not> thr \<or> (\<forall>e \<in> set (ps_paths st). ps_blockSize st \<le> totalLen e)"
  shows "\<exists>out. ps_getWorkerSublistNonShared st (of_nat r) T thr out0 = Some (Inr out) \<and>
    ps_paths out = ps_paths out0 @ map ((!) (ps_paths st)) (filter (\<lambda>j. j mod unat T = r) [0..<length (ps_paths st)])"
proof -
  let ?n = "length (ps_paths st)"
  have ur: "unat (of_nat r :: u32) = r" using assms(4) by (rule unat_of_nat_u32)
  have un: "unat (numPaths st) = ?n" using assms(1,2) by (simp add: nat_of_word)
  have cmp: "numPaths st \<le> ucast (of_nat r :: u32) \<longleftrightarrow> ?n \<le> r" using ur un by (simp add: word_le_nat_alt)
  have before: "filter (\<lambda>j. j mod unat T = r) [0..<min r ?n] = []" using assms(4) by (auto simp: filter_empty_conv)
  show ?thesis
  proof (cases "?n \<le> r")
    case True
    then show ?thesis using cmp before by (simp add: ps_getWorkerSublistNonShared_def min_absorb2)
  next
    case False
    have "[0..<?n] = [0..<min r ?n] @ [r..<?n]" using False upt_add_eq_append [of 0 r "?n - r"] by simp
    then have split: "filter (\<lambda>j. j mod unat T = r) [0..<?n] = filter (\<lambda>j. j mod unat T = r) [r..<?n]"
      using before by simp
    have "ucast T \<noteq> (0 :: u64)" using assms(4) by (auto simp: unat_eq_iff_u64)
    then show ?thesis
      using nonshared_loop_result [of st "ucast T" r r thr out0] assms False cmp ur
      by (auto simp: ps_getWorkerSublistNonShared_def split)
  qed
qed

text \<open>
  C19: Without sharing (\<open>getWorkerSublistNonShared\<close>) worker \<open>r\<close> of \<open>T\<close> gets the whole files at the
  positions congruent to \<open>r\<close>, in the order of the store, and the loop ends.
\<close>

theorem nonshared_sublist_every_nth:
  assumes "numPaths st = of_nat (length (ps_paths st))" "length (ps_paths st) + unat T < W64"
    and "T \<noteq> 0" "r < unat T" "\<not> thr \<or> (\<forall>e \<in> set (ps_paths st). ps_blockSize st \<le> totalLen e)"
  shows "\<exists>out. ps_getWorkerSublistNonShared st (of_nat r) T thr ps_new = Some (Inr out) \<and>
    ps_paths out = map ((!) (ps_paths st)) (filter (\<lambda>j. j mod unat T = r) [0..<length (ps_paths st)])"
  using nonshared_worker_result [OF assms, of ps_new] by (simp add: ps_new_def)

theorem nonshared_sublist_every_nth_witness:
  "\<exists>out. ps_getWorkerSublistNonShared example_store (of_nat 1) 2 True ps_new = Some (Inr out) \<and>
    ps_paths out = [ps_paths example_store ! 1]"
  using nonshared_sublist_every_nth [of example_store 2 1 True]
  by (simp add: example_store_def upt_rec)

end
