(* ===== verification/Config.thy ===== *)
theory Config
  imports BlockSizeMix PathStore
begin

text \<open>
  The benchmark configuration: the enumerations of \<open>Common.h\<close>, the data members of
  \<open>ProgArgs\<close> (handles of the operating system and of libraries left out, each
  member with the prefix \<open>pa_\<close>), the defaults and the simple derived values.
\<close>

subsection \<open>Enumerations\<close>

datatype bench_mode =
    BenchMode_UNDEFINED
  | BenchMode_POSIX
  | BenchMode_S3
  | BenchMode_HDFS
  | BenchMode_NETBENCH
  | BenchMode_SPDK

datatype bench_phase =
    BenchPhase_IDLE
  | BenchPhase_TERMINATE
  | BenchPhase_CREATEDIRS
  | BenchPhase_DELETEDIRS
  | BenchPhase_CREATEFILES
  | BenchPhase_DELETEFILES
  | BenchPhase_READFILES
  | BenchPhase_SYNC
  | BenchPhase_DROPCACHES
  | BenchPhase_STATFILES
  | BenchPhase_STATDIRS
  | BenchPhase_LISTOBJECTS
  | BenchPhase_LISTOBJPARALLEL
  | BenchPhase_MULTIDELOBJ
  | BenchPhase_PUTOBJACL
  | BenchPhase_GETOBJACL
  | BenchPhase_PUTBUCKETACL
  | BenchPhase_GETBUCKETACL
  | BenchPhase_GET_S3_OBJECT_MD
  | BenchPhase_PUT_S3_OBJECT_MD
  | BenchPhase_DEL_S3_OBJECT_MD
  | BenchPhase_GET_S3_BUCKET_MD
  | BenchPhase_PUT_S3_BUCKET_MD
  | BenchPhase_DEL_S3_BUCKET_MD
  | BenchPhase_S3MPUCOMPLETE

datatype bench_path_type =
    BenchPathType_DIR
  | BenchPathType_FILE
  | BenchPathType_BLOCKDEV

record custom_tree =
  ct_dirs :: path_store
  ct_filesNonShared :: path_store
  ct_filesShared :: path_store

record net_bench_server_addr =
  nb_host :: string
  nb_port :: u16

definition RANDALGO_FAST_STR :: string where
  "RANDALGO_FAST_STR = ''fast''"

definition Log_NORMAL :: u16 where
  "Log_NORMAL = 0"

definition AWS_SDK_LOGPREFIX_DEFAULT :: string where
  "AWS_SDK_LOGPREFIX_DEFAULT = ''aws_sdk_''"

definition ARGDEFAULT_SERVICEPORT :: u16 where
  "ARGDEFAULT_SERVICEPORT = 1611"

subsection \<open>Program arguments\<close>

text \<open>
  The values of the command line options as strings, and the members in the order of the class
  (in three steps of extension).
\<close>

record prog_args_1 =
  pa_argsVariablesMap :: "string \<Rightarrow> string list option"
  pa_customTree :: custom_tree
  pa_progPath :: string
  pa_benchPathStr :: string
  pa_benchPathsVec :: "string list"
  pa_benchPathsServiceOverrideVec :: "string list"
  pa_benchPathFDsVec :: "int list"
  pa_benchPathSpdkNsIdsVec :: "int list"
  pa_benchPathType :: bench_path_type
  pa_s3SingletonEndpointStr :: string
  pa_s3MpuSharingUploadIDs :: "string list"
  pa_stdoutDupFD :: int
  pa_assignGPUPerService :: bool
  pa_benchLabel :: string
  pa_benchLabelNoCommas :: string
  pa_benchMode :: bench_mode
  pa_blockSize :: u64
  pa_blockSizeOrigStr :: string
  pa_blockSizeMix :: block_size_mix
  pa_blockVariancePercent :: u32
  pa_blockVarianceAlgo :: string
  pa_clientsFilePath :: string
  pa_clientsStr :: string
  pa_configFilePath :: string
  pa_cpuCoresStr :: string
  pa_cpuCoresVec :: "int list"
  pa_disableLiveStats :: bool
  pa_disablePathBracketsExpansion :: bool
  pa_doDirectVerify :: bool
  pa_doDirSharing :: bool
  pa_doInfiniteIOLoop :: bool
  pa_doPreallocFile :: bool
  pa_doReadInline :: bool
  pa_doReverseSeqOffsets :: bool
  pa_doS3AclPutInline :: bool
  pa_doS3AclVerify :: bool
  pa_doS3ListObjVerify :: bool
  pa_doStatInline :: bool
  pa_doS3BucketVersioning :: bool
  pa_doS3BucketVersioningVerify :: bool
  pa_doS3BucketTag :: bool
  pa_doS3BucketTagVerify :: bool
  pa_doS3ObjectTag :: bool
  pa_doS3ObjectTagVerify :: bool
  pa_doS3ObjectLockCfg :: bool
  pa_doS3ObjectLockCfgVerify :: bool
  pa_doTruncate :: bool
  pa_doTruncToSize :: bool
  pa_fadviseFlags :: u32
  pa_fadviseFlagsOrigStr :: string
  pa_fileOffset :: u64
  pa_fileOffsetOrigStr :: string
  pa_fileShareSize :: u64
  pa_fileShareSizeOrigStr :: string
  pa_fileSize :: u64
  pa_fileSizeOrigStr :: string
  pa_flockType :: u16
  pa_flockTypeOrigStr :: string
  pa_gpuIDsServiceOverride :: string
  pa_gpuIDsStr :: string
  pa_gpuIDsVec :: "int list"
  pa_hostsFilePath :: string
  pa_hostsVec :: "string list"
  pa_hostsStr :: string
  pa_ignore0USecErrors :: bool
  pa_ignoreDelErrors :: bool
  pa_ignoreS3Errors :: bool
  pa_ignoreS3PartNum :: bool
  pa_ioDepth :: u64
  pa_integrityCheckSalt :: u64
  pa_interruptServices :: bool
  pa_iterations :: u64
  pa_journalBlockSize :: u64
  pa_journalBlockSizeOrigStr :: string
  pa_journalDirStr :: string
  pa_journalSyncEnabled :: bool

record prog_args_2 = prog_args_1 +
  pa_logLevel :: u16
  pa_limitReadBps :: u64
  pa_limitReadBpsOrigStr :: string
  pa_limitWriteBps :: u64
  pa_limitWriteBpsOrigStr :: string
  pa_liveCSVFilePath :: string
  pa_liveJSONFilePath :: string
  pa_liveStatsSleepMS :: u64
  pa_madviseFlags :: u32
  pa_madviseFlagsOrigStr :: string
  pa_netBenchRespSizeOrigStr :: string
  pa_netBenchRespSize :: u64
  pa_netBenchServersStr :: string
  pa_netBenchServersVec :: "net_bench_server_addr list"
  pa_netDevsStr :: string
  pa_netDevsVec :: "string list"
  pa_nextPhaseDelaySecs :: u32
  pa_noCSVLabels :: bool
  pa_noDirectIOCheck :: bool
  pa_noSharedServicePath :: bool
  pa_numaZonesStr :: string
  pa_numaZonesVec :: "int list"
  pa_numHosts :: int
  pa_numDataSetThreads :: u64
  pa_numDirs :: u64
  pa_numDirsOrigStr :: string
  pa_numFiles :: u64
  pa_numFilesOrigStr :: string
  pa_numLatencyPercentile9s :: u16
  pa_numNetBenchServers :: u32
  pa_numRWMixReadThreads :: u64
  pa_numThreads :: u64
  pa_opsLogPath :: string
  pa_quitServices :: bool
  pa_randomAmount :: u64
  pa_randomAmountOrigStr :: string
  pa_randOffsetAlgo :: string
  pa_rankOffset :: u64
  pa_resFilePathCSV :: string
  pa_resFilePathJSON :: string
  pa_resFilePathTXT :: string
  pa_rotateHostsNum :: u16
  pa_runAsService :: bool
  pa_runCreateDirsPhase :: bool
  pa_runCreateFilesPhase :: bool
  pa_runDeleteDirsPhase :: bool
  pa_runDeleteFilesPhase :: bool
  pa_runDropCachesPhase :: bool
  pa_runReadPhase :: bool
  pa_runS3AclGet :: bool
  pa_runS3AclPut :: bool
  pa_runS3BucketAclGet :: bool
  pa_runS3BucketAclPut :: bool
  pa_runS3StatDirs :: bool
  pa_runS3ListObjNum :: u64
  pa_runS3ListObjParallel :: bool
  pa_runS3MPUSharingCompletionPhase :: bool
  pa_runS3MultiDelObjNum :: u64
  pa_runServiceInForeground :: bool
  pa_runStatFilesPhase :: bool
  pa_runSyncPhase :: bool
  pa_rwMixReadPercent :: u32
  pa_rwMixThreadsReadPercent :: u32
  pa_s3AccessKey :: string
  pa_s3AccessSecret :: string
  pa_s3AclGrantee :: string
  pa_s3AclGranteeType :: string
  pa_s3AclGranteePermissions :: string
  pa_s3CredentialsFile :: string
  pa_s3CredentialsList :: string
  pa_s3EndpointsServiceOverrideStr :: string
  pa_s3EndpointsVec :: "string list"
  pa_s3EndpointsStr :: string
  pa_s3IgnoreMultipartUpload404 :: bool
  pa_s3LogfilePrefix :: string

record prog_args = prog_args_2 +
  pa_s3LogLevel :: u16
  pa_s3MaxConnections :: u32
  pa_s3MpuSizeVariance :: u64
  pa_s3MpuSizeVarianceOrigStr :: string
  pa_s3MpuSplitSize :: u64
  pa_s3MpuSplitSizeOrigStr :: string
  pa_s3NoCompression :: bool
  pa_s3NoMpuCompletion :: bool
  pa_s3ObjectPrefix :: string
  pa_s3Region :: string
  pa_s3SessionToken :: string
  pa_s3SignPolicy :: u16
  pa_s3SSECKey :: string
  pa_s3SSEKMSKey :: string
  pa_s3ThroughputTargetGbps :: u32
  pa_servicePort :: u16
  pa_serversFilePath :: string
  pa_serversStr :: string
  pa_showAllElapsed :: bool
  pa_showCPUUtilization :: bool
  pa_showDirStats :: bool
  pa_showLatency :: bool
  pa_showLatencyHistogram :: bool
  pa_showLatencyHistogramGrouped :: bool
  pa_showLatencyPercentiles :: bool
  pa_showServicesElapsed :: bool
  pa_showThroughputBase10 :: bool
  pa_sockRecvBufSize :: int
  pa_sockSendBufSize :: int
  pa_sockRecvBufSizeOrigStr :: string
  pa_sockSendBufSizeOrigStr :: string
  pa_spdkConfFile :: string
  pa_spdkConfJSON :: string
  pa_startTime :: int
  pa_svcPasswordFile :: string
  pa_svcPasswordHash :: string
  pa_svcReadyWaitSec :: u64
  pa_svcShowPing :: bool
  pa_svcUpdateIntervalMS :: u64
  pa_treeFilePath :: string
  pa_treeRoundUpSize :: u64
  pa_treeRoundUpSizeOrigStr :: string
  pa_treeScanPath :: string
  pa_timeLimitSecs :: u64
  pa_useAlternativeHTTPService :: bool
  pa_useBriefLiveStats :: bool
  pa_useBriefLiveStatsNewLine :: bool
  pa_useCuFile :: bool
  pa_useCuFileDriverOpen :: bool
  pa_useCuHostBufReg :: bool
  pa_useCustomTreeRandomize :: bool
  pa_useCustomTreeRoundRobin :: bool
  pa_useDirectIO :: bool
  pa_useExtendedLiveCSV :: bool
  pa_useExtendedLiveJSON :: bool
  pa_useGDSBufReg :: bool
  pa_useHDFS :: bool
  pa_useMmap :: bool
  pa_useNetBench :: bool
  pa_useNoFDSharing :: bool
  pa_useOpsLogLocking :: bool
  pa_useRandomUnaligned :: bool
  pa_useRandomOffsets :: bool
  pa_useRWMixPercent :: bool
  pa_useRWMixReadThreads :: bool
  pa_useS3ClientSingleton :: bool
  pa_useS3MPUSharing :: bool
  pa_useS3ObjectPrefixRand :: bool
  pa_useS3RandObjSelect :: bool
  pa_useS3FastRead :: bool
  pa_useS3SSE :: bool
  pa_useS3VirtualAddressing :: bool
  pa_useStridedAccess :: bool
  pa_s3ChecksumAlgoStr :: string

text \<open>The defaults for options that are not given; the member \<open>numDataSetThreads\<close> is set from the value that
  \<open>numThreads\<close> has before.\<close>

definition defineDefaults :: "prog_args \<Rightarrow> prog_args" where
  "defineDefaults pa = pa\<lparr>
     pa_assignGPUPerService := False, pa_benchMode := BenchMode_UNDEFINED, pa_blockSize := 1024 * 1024,
     pa_blockSizeOrigStr := ''1M'', pa_blockVarianceAlgo := RANDALGO_FAST_STR, pa_blockVariancePercent := 100,
     pa_disableLiveStats := False, pa_disablePathBracketsExpansion := False, pa_doDirectVerify := False,
     pa_doDirSharing := False, pa_doInfiniteIOLoop := False, pa_doPreallocFile := False, pa_doReadInline := False,
     pa_doReverseSeqOffsets := False, pa_doS3AclVerify := False, pa_doS3AclPutInline := False,
     pa_doS3BucketTag := False, pa_doS3BucketTagVerify := False, pa_doS3BucketVersioning := False,
     pa_doS3BucketVersioningVerify := False, pa_doS3ListObjVerify := False, pa_doS3ObjectTag := False,
     pa_doS3ObjectTagVerify := False, pa_doS3ObjectLockCfg := False, pa_doS3ObjectLockCfgVerify := False,
     pa_doStatInline := False, pa_doTruncate := False, pa_doTruncToSize := False, pa_fadviseFlags := 0,
     pa_fileOffset := 0, pa_fileOffsetOrigStr := ''0'', pa_fileShareSize := 0, pa_fileShareSizeOrigStr := ''0'',
     pa_fileSize := 0, pa_fileSizeOrigStr := ''0'', pa_flockType := 0, pa_ignore0USecErrors := False,
     pa_ignoreDelErrors := False, pa_ignoreS3Errors := False, pa_ignoreS3PartNum := False,
     pa_integrityCheckSalt := 0, pa_interruptServices := False, pa_ioDepth := 1, pa_iterations := 1,
     pa_journalBlockSizeOrigStr := ''4K'', pa_journalDirStr := [], pa_journalSyncEnabled := False,
     pa_limitReadBps := 0, pa_limitReadBpsOrigStr := ''0'', pa_limitWriteBps := 0, pa_limitWriteBpsOrigStr := ''0'',
     pa_liveStatsSleepMS := 2000, pa_logLevel := Log_NORMAL, pa_madviseFlags := 0, pa_netBenchRespSize := 1,
     pa_netBenchRespSizeOrigStr := ''1'', pa_nextPhaseDelaySecs := 0, pa_noCSVLabels := False,
     pa_noDirectIOCheck := False, pa_noSharedServicePath := False, pa_numDataSetThreads := pa_numThreads pa,
     pa_numDirs := 1, pa_numDirsOrigStr := ''1'', pa_numFiles := 1, pa_numFilesOrigStr := ''1'', pa_numHosts := -1,
     pa_numLatencyPercentile9s := 0, pa_numNetBenchServers := 0, pa_numRWMixReadThreads := 0, pa_numThreads := 1,
     pa_quitServices := False, pa_randOffsetAlgo := [], pa_rotateHostsNum := 0, pa_randomAmount := 0,
     pa_randomAmountOrigStr := ''0'', pa_rankOffset := 0, pa_runCreateDirsPhase := False,
     pa_runCreateFilesPhase := False, pa_runDeleteDirsPhase := False, pa_runDeleteFilesPhase := False,
     pa_runAsService := False, pa_runDropCachesPhase := False, pa_runReadPhase := False, pa_runS3AclGet := False,
     pa_runS3AclPut := False, pa_runS3BucketAclGet := False, pa_runS3BucketAclPut := False, pa_runS3ListObjNum := 0,
     pa_runS3ListObjParallel := False, pa_runS3MPUSharingCompletionPhase := False, pa_runS3MultiDelObjNum := 0,
     pa_runS3StatDirs := False, pa_runStatFilesPhase := False, pa_runServiceInForeground := False,
     pa_runSyncPhase := False, pa_rwMixReadPercent := 0, pa_rwMixThreadsReadPercent := 0, pa_s3ChecksumAlgoStr := [],
     pa_s3CredentialsFile := [], pa_s3CredentialsList := [], pa_s3LogLevel := 0,
     pa_s3LogfilePrefix := AWS_SDK_LOGPREFIX_DEFAULT, pa_s3MaxConnections := 0, pa_s3MpuSizeVariance := 0,
     pa_s3MpuSizeVarianceOrigStr := ''0'', pa_s3MpuSplitSize := 0, pa_s3MpuSplitSizeOrigStr := ''0'',
     pa_s3NoCompression := False, pa_s3NoMpuCompletion := False, pa_s3IgnoreMultipartUpload404 := False,
     pa_s3SessionToken := [], pa_s3SignPolicy := 0, pa_s3ThroughputTargetGbps := 100,
     pa_servicePort := ARGDEFAULT_SERVICEPORT, pa_startTime := 0, pa_stdoutDupFD := -1, pa_showAllElapsed := False,
     pa_showCPUUtilization := False, pa_showDirStats := False, pa_showLatency := False,
     pa_showLatencyHistogram := False, pa_showLatencyHistogramGrouped := False, pa_showLatencyPercentiles := False,
     pa_showServicesElapsed := False, pa_showThroughputBase10 := False, pa_sockRecvBufSize := 0,
     pa_sockRecvBufSizeOrigStr := ''0'', pa_sockSendBufSize := 0, pa_sockSendBufSizeOrigStr := ''0'',
     pa_svcReadyWaitSec := 5, pa_svcShowPing := False, pa_svcUpdateIntervalMS := 500, pa_timeLimitSecs := 0,
     pa_useAlternativeHTTPService := False, pa_useRWMixPercent := False, pa_useBriefLiveStats := False,
     pa_useBriefLiveStatsNewLine := False, pa_useCustomTreeRandomize := False, pa_useCustomTreeRoundRobin := False,
     pa_useCuFile := False, pa_useCuFileDriverOpen := False, pa_useCuHostBufReg := False, pa_useDirectIO := False,
     pa_useExtendedLiveCSV := False, pa_useExtendedLiveJSON := False, pa_useGDSBufReg := False, pa_useHDFS := False,
     pa_useMmap := False, pa_useNetBench := False, pa_useNoFDSharing := False, pa_useOpsLogLocking := False,
     pa_useRandomOffsets := False, pa_useRandomUnaligned := False, pa_useRWMixReadThreads := False,
     pa_useS3ClientSingleton := False, pa_useS3FastRead := False, pa_useS3MPUSharing := False,
     pa_useS3ObjectPrefixRand := False, pa_useS3RandObjSelect := False, pa_useS3SSE := False,
     pa_useS3VirtualAddressing := False, pa_useStridedAccess := False, pa_treeRoundUpSize := 0,
     pa_treeRoundUpSizeOrigStr := ''0''\<rparr>"

text \<open>A configuration with every member zero or empty, for concrete examples.\<close>

definition blank_args :: prog_args where
  "blank_args = \<lparr>
     pa_argsVariablesMap = Map.empty,
     pa_customTree = \<lparr>ct_dirs = ps_new, ct_filesNonShared = ps_new, ct_filesShared = ps_new\<rparr>,
     pa_progPath = [], pa_benchPathStr = [], pa_benchPathsVec = [], pa_benchPathsServiceOverrideVec = [],
     pa_benchPathFDsVec = [], pa_benchPathSpdkNsIdsVec = [], pa_benchPathType = BenchPathType_DIR,
     pa_s3SingletonEndpointStr = [], pa_s3MpuSharingUploadIDs = [], pa_stdoutDupFD = 0,
     pa_assignGPUPerService = False, pa_benchLabel = [], pa_benchLabelNoCommas = [],
     pa_benchMode = BenchMode_UNDEFINED, pa_blockSize = 0, pa_blockSizeOrigStr = [],
     pa_blockSizeMix = \<lparr>sizesAndWeights = [], cumulativeWeights = [], totalWeight = 0, maxSize = 0, minSize = 0\<rparr>,
     pa_blockVariancePercent = 0, pa_blockVarianceAlgo = [], pa_clientsFilePath = [], pa_clientsStr = [],
     pa_configFilePath = [], pa_cpuCoresStr = [], pa_cpuCoresVec = [], pa_disableLiveStats = False,
     pa_disablePathBracketsExpansion = False, pa_doDirectVerify = False, pa_doDirSharing = False,
     pa_doInfiniteIOLoop = False, pa_doPreallocFile = False, pa_doReadInline = False, pa_doReverseSeqOffsets = False,
     pa_doS3AclPutInline = False, pa_doS3AclVerify = False, pa_doS3ListObjVerify = False, pa_doStatInline = False,
     pa_doS3BucketVersioning = False, pa_doS3BucketVersioningVerify = False, pa_doS3BucketTag = False,
     pa_doS3BucketTagVerify = False, pa_doS3ObjectTag = False, pa_doS3ObjectTagVerify = False,
     pa_doS3ObjectLockCfg = False, pa_doS3ObjectLockCfgVerify = False, pa_doTruncate = False,
     pa_doTruncToSize = False, pa_fadviseFlags = 0, pa_fadviseFlagsOrigStr = [], pa_fileOffset = 0,
     pa_fileOffsetOrigStr = [], pa_fileShareSize = 0, pa_fileShareSizeOrigStr = [], pa_fileSize = 0,
     pa_fileSizeOrigStr = [], pa_flockType = 0, pa_flockTypeOrigStr = [], pa_gpuIDsServiceOverride = [],
     pa_gpuIDsStr = [], pa_gpuIDsVec = [], pa_hostsFilePath = [], pa_hostsVec = [], pa_hostsStr = [],
     pa_ignore0USecErrors = False, pa_ignoreDelErrors = False, pa_ignoreS3Errors = False, pa_ignoreS3PartNum = False,
     pa_ioDepth = 0, pa_integrityCheckSalt = 0, pa_interruptServices = False, pa_iterations = 0,
     pa_journalBlockSize = 0, pa_journalBlockSizeOrigStr = [], pa_journalDirStr = [], pa_journalSyncEnabled = False,
     pa_logLevel = 0, pa_limitReadBps = 0, pa_limitReadBpsOrigStr = [], pa_limitWriteBps = 0,
     pa_limitWriteBpsOrigStr = [], pa_liveCSVFilePath = [], pa_liveJSONFilePath = [], pa_liveStatsSleepMS = 0,
     pa_madviseFlags = 0, pa_madviseFlagsOrigStr = [], pa_netBenchRespSizeOrigStr = [], pa_netBenchRespSize = 0,
     pa_netBenchServersStr = [], pa_netBenchServersVec = [], pa_netDevsStr = [], pa_netDevsVec = [],
     pa_nextPhaseDelaySecs = 0, pa_noCSVLabels = False, pa_noDirectIOCheck = False, pa_noSharedServicePath = False,
     pa_numaZonesStr = [], pa_numaZonesVec = [], pa_numHosts = 0, pa_numDataSetThreads = 0, pa_numDirs = 0,
     pa_numDirsOrigStr = [], pa_numFiles = 0, pa_numFilesOrigStr = [], pa_numLatencyPercentile9s = 0,
     pa_numNetBenchServers = 0, pa_numRWMixReadThreads = 0, pa_numThreads = 0, pa_opsLogPath = [],
     pa_quitServices = False, pa_randomAmount = 0, pa_randomAmountOrigStr = [], pa_randOffsetAlgo = [],
     pa_rankOffset = 0, pa_resFilePathCSV = [], pa_resFilePathJSON = [], pa_resFilePathTXT = [],
     pa_rotateHostsNum = 0, pa_runAsService = False, pa_runCreateDirsPhase = False, pa_runCreateFilesPhase = False,
     pa_runDeleteDirsPhase = False, pa_runDeleteFilesPhase = False, pa_runDropCachesPhase = False,
     pa_runReadPhase = False, pa_runS3AclGet = False, pa_runS3AclPut = False, pa_runS3BucketAclGet = False,
     pa_runS3BucketAclPut = False, pa_runS3StatDirs = False, pa_runS3ListObjNum = 0, pa_runS3ListObjParallel = False,
     pa_runS3MPUSharingCompletionPhase = False, pa_runS3MultiDelObjNum = 0, pa_runServiceInForeground = False,
     pa_runStatFilesPhase = False, pa_runSyncPhase = False, pa_rwMixReadPercent = 0, pa_rwMixThreadsReadPercent = 0,
     pa_s3AccessKey = [], pa_s3AccessSecret = [], pa_s3AclGrantee = [], pa_s3AclGranteeType = [],
     pa_s3AclGranteePermissions = [], pa_s3CredentialsFile = [], pa_s3CredentialsList = [],
     pa_s3EndpointsServiceOverrideStr = [], pa_s3EndpointsVec = [], pa_s3EndpointsStr = [],
     pa_s3IgnoreMultipartUpload404 = False, pa_s3LogfilePrefix = [], pa_s3LogLevel = 0, pa_s3MaxConnections = 0,
     pa_s3MpuSizeVariance = 0, pa_s3MpuSizeVarianceOrigStr = [], pa_s3MpuSplitSize = 0,
     pa_s3MpuSplitSizeOrigStr = [], pa_s3NoCompression = False, pa_s3NoMpuCompletion = False, pa_s3ObjectPrefix = [],
     pa_s3Region = [], pa_s3SessionToken = [], pa_s3SignPolicy = 0, pa_s3SSECKey = [], pa_s3SSEKMSKey = [],
     pa_s3ThroughputTargetGbps = 0, pa_servicePort = 0, pa_serversFilePath = [], pa_serversStr = [],
     pa_showAllElapsed = False, pa_showCPUUtilization = False, pa_showDirStats = False, pa_showLatency = False,
     pa_showLatencyHistogram = False, pa_showLatencyHistogramGrouped = False, pa_showLatencyPercentiles = False,
     pa_showServicesElapsed = False, pa_showThroughputBase10 = False, pa_sockRecvBufSize = 0, pa_sockSendBufSize = 0,
     pa_sockRecvBufSizeOrigStr = [], pa_sockSendBufSizeOrigStr = [], pa_spdkConfFile = [], pa_spdkConfJSON = [],
     pa_startTime = 0, pa_svcPasswordFile = [], pa_svcPasswordHash = [], pa_svcReadyWaitSec = 0,
     pa_svcShowPing = False, pa_svcUpdateIntervalMS = 0, pa_treeFilePath = [], pa_treeRoundUpSize = 0,
     pa_treeRoundUpSizeOrigStr = [], pa_treeScanPath = [], pa_timeLimitSecs = 0,
     pa_useAlternativeHTTPService = False, pa_useBriefLiveStats = False, pa_useBriefLiveStatsNewLine = False,
     pa_useCuFile = False, pa_useCuFileDriverOpen = False, pa_useCuHostBufReg = False,
     pa_useCustomTreeRandomize = False, pa_useCustomTreeRoundRobin = False, pa_useDirectIO = False,
     pa_useExtendedLiveCSV = False, pa_useExtendedLiveJSON = False, pa_useGDSBufReg = False, pa_useHDFS = False,
     pa_useMmap = False, pa_useNetBench = False, pa_useNoFDSharing = False, pa_useOpsLogLocking = False,
     pa_useRandomUnaligned = False, pa_useRandomOffsets = False, pa_useRWMixPercent = False,
     pa_useRWMixReadThreads = False, pa_useS3ClientSingleton = False, pa_useS3MPUSharing = False,
     pa_useS3ObjectPrefixRand = False, pa_useS3RandObjSelect = False, pa_useS3FastRead = False, pa_useS3SSE = False,
     pa_useS3VirtualAddressing = False, pa_useStridedAccess = False, pa_s3ChecksumAlgoStr = []\<rparr>"

end
