(* ===== verification/StringTk.thy ===== *)
theory StringTk
  imports Decimal RandAlgo
begin

text \<open>
  \<open>toolkits/StringTk\<close>: random hex strings, the checksummed random values of S3 tags, prefix
  handling and joining. A \<open>char\<close> is signed, so a checksum adds its sign-extended value.
\<close>

subsection \<open>Definitions\<close>

definition HEX_ALPHABET :: string where
  "HEX_ALPHABET = ''0123456789ABCDEF''"

definition HEX_ALPHABET_LEN :: u64 where
  "HEX_ALPHABET_LEN = of_nat (length HEX_ALPHABET)"

text \<open>The generator is a local object seeded from the random device \<open>rd\<close>.\<close>

fun random_hex_chars :: "nat \<Rightarrow> goldenprime \<Rightarrow> string" where
  "random_hex_chars 0 g = []"
| "random_hex_chars (Suc n) g =
     (let (v, g) = goldenprime_next g
      in HEX_ALPHABET ! unat (v mod HEX_ALPHABET_LEN) # random_hex_chars n g)"

definition generateRandomHexString :: "(nat \<Rightarrow> u32) \<Rightarrow> u32 \<Rightarrow> string" where
  "generateRandomHexString rd strLen = random_hex_chars (unat strLen) (goldenprime_new rd)"

definition char_unsigned :: "char \<Rightarrow> u32" where
  "char_unsigned c = scast (of_nat (code c) :: u8)"

fun checksum_chars :: "nat \<Rightarrow> u32 \<Rightarrow> string" where
  "checksum_chars 0 checkSum = []"
| "checksum_chars (Suc n) checkSum =
     HEX_ALPHABET ! unat (ucast checkSum mod HEX_ALPHABET_LEN) #
     checksum_chars n (ucast (ucast checkSum div HEX_ALPHABET_LEN))"

definition generateChecksumString :: "string \<Rightarrow> u32 \<Rightarrow> string" where
  "generateChecksumString str checksumLen =
     (let checkSum = foldl (\<lambda>acc c. acc + char_unsigned c) 0 str
      in checksum_chars (unat checksumLen) checkSum)"

definition verifyChecksumString :: "string \<Rightarrow> string \<Rightarrow> bool" where
  "verifyChecksumString str checksumStr =
     (generateChecksumString str (of_nat (length checksumStr)) = checksumStr)"

definition generateRandomS3TagValue :: "(nat \<Rightarrow> u32) \<Rightarrow> string \<Rightarrow> u32 \<Rightarrow> u32 \<Rightarrow> string result" where
  "generateRandomS3TagValue rd objectName strLen checksumLen =
     (if strLen \<le> checksumLen
      then Inl (WorkerException ''generateRandomS3Tag() was given a strLen that is not larger than checksumLen'')
      else
        let randomStr = generateRandomHexString rd (strLen - checksumLen);
            checksumStr = generateChecksumString (objectName @ randomStr) checksumLen
        in Inr (randomStr @ checksumStr))"

definition verifyRandomS3TagValue :: "string \<Rightarrow> string \<Rightarrow> u32 \<Rightarrow> bool" where
  "verifyRandomS3TagValue s3TagValue objectName checksumLen =
     (if length s3TagValue \<le> unat checksumLen then False
      else
        let checksumStr = drop (length s3TagValue - unat checksumLen) s3TagValue;
            tagValueWithoutChecksum = take (length s3TagValue - unat checksumLen) s3TagValue
        in generateChecksumString (objectName @ tagValueWithoutChecksum) checksumLen = checksumStr)"

definition checkForPrefix :: "string \<Rightarrow> string \<Rightarrow> bool" where
  "checkForPrefix str pre = (take (length pre) str = pre)"

definition checkAndErasePrefix :: "string \<Rightarrow> string \<Rightarrow> bool \<times> string" where
  "checkAndErasePrefix str pre =
     (if checkForPrefix str pre then (True, drop (length pre) str) else (False, str))"

fun checkVecForPrefix :: "string list \<Rightarrow> string \<Rightarrow> bool" where
  "checkVecForPrefix [] pre = False"
| "checkVecForPrefix (str # vec) pre = (if checkForPrefix str pre then True else checkVecForPrefix vec pre)"

definition vecToStr :: "string list \<Rightarrow> string \<Rightarrow> string" where
  "vecToStr vec delimiter =
     (case vec of [] \<Rightarrow> [] | v # vs \<Rightarrow> foldl (\<lambda>retVal s. retVal @ delimiter @ s) v vs)"

definition iscntrl :: "char \<Rightarrow> bool" where
  "iscntrl c \<longleftrightarrow> code c < 32 \<or> code c = 127"

definition eraseControlChars :: "string \<Rightarrow> string" where
  "eraseControlChars str = filter (\<lambda>c. \<not> iscntrl c) str"

definition hasOnlyDigits :: "string \<Rightarrow> bool" where
  "hasOnlyDigits str \<longleftrightarrow> str \<noteq> [] \<and> (\<forall>c \<in> set str. c \<in> set ''0123456789'')"

subsection \<open>Lengths\<close>

lemma length_random_hex_chars [simp]: "length (random_hex_chars n g) = n"
  by (induction n arbitrary: g) (simp_all add: split_beta Let_def)

lemma length_checksum_chars [simp]: "length (checksum_chars n s) = n"
  by (induction n s rule: checksum_chars.induct) simp_all

lemma length_generateChecksumString [simp]: "length (generateChecksumString s n) = unat n"
  by (simp add: generateChecksumString_def Let_def)

lemma vecToStr_Cons: "vecToStr (v # vs) d = v @ concat (map ((@) d) vs)"
proof -
  have "foldl (\<lambda>retVal s. retVal @ d @ s) acc vs = acc @ concat (map ((@) d) vs)" for acc
    by (induction vs arbitrary: acc) simp_all
  then show ?thesis by (simp add: vecToStr_def)
qed

lemma checkVecForPrefix_iff: "checkVecForPrefix vec pre \<longleftrightarrow> (\<exists>s \<in> set vec. checkForPrefix s pre)"
  by (induction vec) auto

lemma checkForPrefix_iff: "checkForPrefix s pre \<longleftrightarrow> (\<exists>r. s = pre @ r)"
  unfolding checkForPrefix_def by (metis append_eq_conv_conj append_take_drop_id)

subsection \<open>Properties\<close>

text \<open>
  C39: A random S3 tag value has the requested length and passes its verification for the same object
  name; for another object name it passes exactly when that name's checksum over the random part is
  the same.
\<close>

theorem s3_tag_value_verifies:
  assumes "checksumLen < strLen"
  shows "\<exists>v. generateRandomS3TagValue rd objectName strLen checksumLen = Inr v \<and>
    length v = unat strLen \<and> verifyRandomS3TagValue v objectName checksumLen \<and>
    (\<forall>other. verifyRandomS3TagValue v other checksumLen \<longleftrightarrow>
       generateChecksumString (other @ take (unat strLen - unat checksumLen) v) checksumLen =
       generateChecksumString (objectName @ take (unat strLen - unat checksumLen) v) checksumLen)"
proof -
  define r where "r = generateRandomHexString rd (strLen - checksumLen)"
  define c where "c = generateChecksumString (objectName @ r) checksumLen"
  have lt: "unat checksumLen < unat strLen" using assms by (simp add: word_less_nat_alt)
  have lr: "length r = unat strLen - unat checksumLen"
    using assms by (simp add: r_def generateRandomHexString_def unat_sub less_imp_le)
  have lc: "length c = unat checksumLen" by (simp add: c_def)
  have "generateRandomS3TagValue rd objectName strLen checksumLen = Inr (r @ c)"
    using assms by (simp add: generateRandomS3TagValue_def not_le r_def c_def Let_def)
  moreover have "verifyRandomS3TagValue (r @ c) other checksumLen \<longleftrightarrow>
      generateChecksumString (other @ r) checksumLen = c" for other
    using lt lr lc by (simp add: verifyRandomS3TagValue_def)
  ultimately show ?thesis using lt lr lc by (simp add: c_def)
qed

theorem s3_tag_value_verifies_witness:
  "\<exists>v. generateRandomS3TagValue (\<lambda>_. 1) ''obj'' 5 2 = Inr v \<and> length v = 5 \<and> verifyRandomS3TagValue v ''obj'' 2"
  using s3_tag_value_verifies [of 2 5 "\<lambda>_. 1" "''obj''"] by auto

end
