(* ===== verification/TreeFile.thy ===== *)
theory TreeFile
  imports Config StringTk "HOL-Library.Multiset"
begin

text \<open>
  Custom trees: writing a tree file from a directory scan (\<open>FileTk::scanCustomTree\<close>), from a
  bucket listing (\<open>S3Tk::scanCustomTree\<close>) or from given S3 paths
  (\<open>ProgArgs::convertS3PathsToCustomTree\<close>), loading it into the path stores
  (\<open>ProgArgs::loadCustomTreeFile\<close>) and taking a worker's share
  (\<open>LocalWorker::prepareCustomTreePathStores\<close>). What the directory iterator and the S3
  client return, \<open>boost::trim\<close>, \<open>boost::split\<close> and the shuffle are parameters; console
  messages are left out.
\<close>

subsection \<open>Scanning a directory\<close>

definition newline :: char where
  "newline = char_of (10 :: nat)"

definition TREEFILE_BASE64ENCODING_HEADER :: string where
  "TREEFILE_BASE64ENCODING_HEADER = ''# encoding=base64''"

datatype dir_entry =
    RegularFile string u64
  | Directory string
  | OtherEntry string

record tree_scan =
  ts_fileStream :: string
  ts_numFilesFound :: u64
  ts_numDirsFound :: u64
  ts_numBytesFound :: u64

fun scan_entry :: "dir_entry \<Rightarrow> tree_scan \<Rightarrow> tree_scan" where
  "scan_entry (RegularFile currentEntry file_size) ts =
     ts\<lparr>ts_numFilesFound := ts_numFilesFound ts + 1,
        ts_numBytesFound := ts_numBytesFound ts + file_size,
        ts_fileStream := ts_fileStream ts @ ''f '' @ to_string (unat file_size) @ '' '' @
          base64_encode currentEntry @ [newline]\<rparr>"
| "scan_entry (Directory currentEntry) ts =
     ts\<lparr>ts_numDirsFound := ts_numDirsFound ts + 1,
        ts_fileStream := ts_fileStream ts @ ''d '' @ base64_encode currentEntry @ [newline]\<rparr>"
| "scan_entry (OtherEntry currentEntry) ts = ts"

text \<open>The iterator gives entries with paths relative to the scanned directory, or fails.\<close>

fun scan_entries :: "dir_entry result list \<Rightarrow> tree_scan \<Rightarrow> tree_scan result" where
  "scan_entries [] ts = Inr ts"
| "scan_entries (e # es) ts = bindE e (\<lambda>dirEntry. scan_entries es (scan_entry dirEntry ts))"

definition empty_scan :: tree_scan where
  "empty_scan =
     \<lparr>ts_fileStream = TREEFILE_BASE64ENCODING_HEADER @ [newline],
      ts_numFilesFound = 0, ts_numDirsFound = 0, ts_numBytesFound = 0\<rparr>"

definition FileTk_scanCustomTree :: "bool \<Rightarrow> dir_entry result list \<Rightarrow> tree_scan result" where
  "FileTk_scanCustomTree fileStreamOpen entries =
     (if \<not> fileStreamOpen then Inl (ProgException ''Opening tree scan results file failed: '')
      else scan_entries entries empty_scan)"

subsection \<open>Scanning a bucket\<close>

text \<open>
  One page of a listing: the objects with their sizes, the continuation token and whether more
  objects are left. The client answers a request (bucket, prefix, token) with a page or fails.
\<close>

record s3_listing =
  sl_contents :: "(string \<times> nat) list"
  sl_nextContinuationToken :: string
  sl_isTruncated :: bool

type_synonym s3_list_client = "string \<Rightarrow> string \<Rightarrow> string \<Rightarrow> s3_listing option"

fun s3_scan_objects :: "string \<Rightarrow> (string \<times> nat) list \<Rightarrow> tree_scan \<Rightarrow> tree_scan result" where
  "s3_scan_objects objectPrefix [] ts = Inr ts"
| "s3_scan_objects objectPrefix ((objKey, objSize) # objs) ts =
     (if length objKey < length objectPrefix then Inl (OutOfRange ''basic_string::substr'')
      else
        let currentEntry = drop (length objectPrefix) objKey
        in s3_scan_objects objectPrefix objs
             (ts\<lparr>ts_numFilesFound := ts_numFilesFound ts + 1,
                 ts_numBytesFound := ts_numBytesFound ts + of_nat objSize,
                 ts_fileStream := ts_fileStream ts @ ''f '' @ to_string objSize @ '' '' @
                   base64_encode currentEntry @ [newline]\<rparr>))"

partial_function (option) s3_scan_loop ::
    "s3_list_client \<Rightarrow> string \<Rightarrow> string \<Rightarrow> string \<Rightarrow> tree_scan \<Rightarrow> tree_scan result option" where
  "s3_scan_loop s3Client bucketName objectPrefix nextContinuationToken ts =
     (case s3Client bucketName objectPrefix nextContinuationToken of
        None \<Rightarrow> Some (Inl (WorkerException ''Object listing v2 failed. ''))
      | Some listOutcome \<Rightarrow>
          (case s3_scan_objects objectPrefix (sl_contents listOutcome) ts of
             Inl ex \<Rightarrow> Some (Inl ex)
           | Inr ts \<Rightarrow>
               if sl_isTruncated listOutcome
               then s3_scan_loop s3Client bucketName objectPrefix (sl_nextContinuationToken listOutcome) ts
               else Some (Inr ts)))"

definition S3Tk_scanCustomTree ::
    "s3_list_client \<Rightarrow> string \<Rightarrow> string \<Rightarrow> bool \<Rightarrow> tree_scan result option" where
  "S3Tk_scanCustomTree s3Client bucketName objectPrefix fileStreamOpen =
     (if \<not> fileStreamOpen then Some (Inl (ProgException ''Opening tree scan results file failed: ''))
      else s3_scan_loop s3Client bucketName objectPrefix [] empty_scan)"

text \<open>
  \<open>ProgArgs::scanCustomTree\<close>: a bucket scan or a directory scan, by the prefix of the path. The
  result has the arguments with the prefix taken off the scan path and the scan with the text of the
  tree file, or \<open>None\<close> when there is nothing to scan.
\<close>

definition BENCHPATH_PREFIX_POSIX :: string where
  "BENCHPATH_PREFIX_POSIX = ''file://''"

definition BENCHPATH_PREFIX_S3 :: string where
  "BENCHPATH_PREFIX_S3 = ''s3://''"

text \<open>The position of the first slash from position 1 on.\<close>

definition slash_pos :: "string \<Rightarrow> nat option" where
  "slash_pos s =
     (if CHR ''/'' \<in> set (drop 1 s) then Some (1 + length (takeWhile (\<lambda>c. c \<noteq> CHR ''/'') (drop 1 s))) else None)"

definition split_bucket :: "string \<Rightarrow> string \<times> string" where
  "split_bucket p =
     (case slash_pos p of
        None \<Rightarrow> (p, [])
      | Some i \<Rightarrow> (take i p, drop (i + 1) p))"

definition scanCustomTree ::
    "(string \<Rightarrow> dir_entry result list) \<Rightarrow> s3_list_client \<Rightarrow> bool \<Rightarrow> prog_args \<Rightarrow> (prog_args \<times> tree_scan option) result option" where
  "scanCustomTree dir_iterator s3Client fileStreamOpen pa =
     (if pa_treeScanPath pa = [] then Some (Inr (pa, None))
      else if pa_runAsService pa
      then Some (Inl (ProgException ''Tree scan cannot be used in service instance startup mode.''))
      else if checkForPrefix (pa_treeScanPath pa) BENCHPATH_PREFIX_S3
      then
        let (bucketName, scanObjectPrefix) = split_bucket (snd (checkAndErasePrefix (pa_treeScanPath pa) BENCHPATH_PREFIX_S3))
        in bindOE (S3Tk_scanCustomTree s3Client bucketName scanObjectPrefix fileStreamOpen)
             (\<lambda>ts. Some (Inr (pa\<lparr>pa_treeScanPath := bucketName\<rparr>, Some ts)))
      else
        let p = snd (checkAndErasePrefix (pa_treeScanPath pa) BENCHPATH_PREFIX_POSIX)
        in Some (bindE (FileTk_scanCustomTree fileStreamOpen (dir_iterator p))
             (\<lambda>ts. Inr (pa\<lparr>pa_treeScanPath := p\<rparr>, Some ts))))"

subsection \<open>Tree files from given S3 paths\<close>

fun join_slash :: "string list \<Rightarrow> string" where
  "join_slash [] = []"
| "join_slash [p] = p"
| "join_slash (p # ps) = p @ ''/'' @ join_slash ps"

text \<open>The loop over the paths, with the bucket name and the text written so far.\<close>

fun convert_paths ::
    "(string \<Rightarrow> string) \<Rightarrow> (string \<Rightarrow> string list) \<Rightarrow> u64 \<Rightarrow> string list \<Rightarrow> string \<Rightarrow> string \<Rightarrow> (string \<times> string) result" where
  "convert_paths trim_slashes split_slashes fileSize [] bucketName fileStream = Inr (bucketName, fileStream)"
| "convert_paths trim_slashes split_slashes fileSize (currentPath # rest) bucketName fileStream =
     (let currentPathVec = split_slashes (trim_slashes currentPath) in
      if length currentPathVec < 2
      then Inl (ProgException ''Conversion to S3 custom tree mode failed because a path without elements after slash was found: '')
      else if bucketName \<noteq> [] \<and> bucketName \<noteq> currentPathVec ! 0
      then Inl (ProgException ''Different bucket names are not suppported in this mode. '')
      else
        let bucketName = (if bucketName = [] then currentPathVec ! 0 else bucketName);
            objectName = join_slash (tl currentPathVec)
        in convert_paths trim_slashes split_slashes fileSize rest bucketName
             (fileStream @ ps_generateFileLine objectName fileSize))"

definition convertS3PathsToCustomTree ::
    "(string \<Rightarrow> string) \<Rightarrow> (string \<Rightarrow> string list) \<Rightarrow> string \<Rightarrow> bool \<Rightarrow> prog_args \<Rightarrow> (prog_args \<times> string option) result" where
  "convertS3PathsToCustomTree trim_slashes split_slashes implicitTreeFilePath fileStreamOpen pa =
     (if pa_benchMode pa \<noteq> BenchMode_S3 \<or> pa_treeFilePath pa \<noteq> [] \<or> pa_benchPathsVec pa = [] then Inr (pa, None)
      else if slash_pos (pa_benchPathsVec pa ! 0) = None then Inr (pa, None)
      else if \<not> fileStreamOpen then Inl (ProgException ''Opening output tree file failed: '')
      else
        bindE (convert_paths trim_slashes split_slashes (pa_fileSize pa) (pa_benchPathsVec pa) [] [])
          (\<lambda>(bucketName, fileStream).
             Inr (pa\<lparr>pa_benchPathsVec := [bucketName], pa_treeFilePath := implicitTreeFilePath\<rparr>, Some fileStream)))"

subsection \<open>Loading\<close>

definition load_tree_dirs :: "(string \<Rightarrow> string) \<Rightarrow> file_system \<Rightarrow> prog_args \<Rightarrow> prog_args result" where
  "load_tree_dirs trim fs pa =
     (if pa_runCreateDirsPhase pa \<or> pa_runDeleteDirsPhase pa
      then
        bindE (ps_loadDirsFromFile trim fs (pa_treeFilePath pa) (ct_dirs (pa_customTree pa))) (\<lambda>dirs.
          Inr (pa\<lparr>pa_customTree := (pa_customTree pa)\<lparr>ct_dirs := ps_sortByPathLen dirs\<rparr>\<rparr>))
      else Inr pa)"

definition tree_split_per_service :: "prog_args \<Rightarrow> bool" where
  "tree_split_per_service pa \<longleftrightarrow>
     pa_runAsService pa \<and> pa_benchMode pa = BenchMode_S3 \<and> pa_runCreateFilesPhase pa \<and>
     pa_numDataSetThreads pa \<noteq> pa_numThreads pa \<and> \<not> pa_useS3MPUSharing pa"

text \<open>A path store with the files of the tree file whose size is in a range.\<close>

definition load_tree_files ::
    "(string \<Rightarrow> string) \<Rightarrow> file_system \<Rightarrow> prog_args \<Rightarrow> u64 \<Rightarrow> u64 \<Rightarrow> path_store \<Rightarrow> path_store result" where
  "load_tree_files trim fs pa minFileSize maxFileSize st =
     bindE (ps_setBlockSize (pa_blockSize pa) st)
       (ps_loadFilesFromFile trim fs (pa_treeFilePath pa) minFileSize maxFileSize (pa_treeRoundUpSize pa))"

definition loadCustomTreeFile :: "(string \<Rightarrow> string) \<Rightarrow> file_system \<Rightarrow> prog_args \<Rightarrow> prog_args result option" where
  "loadCustomTreeFile trim fs pa =
     (if pa_treeFilePath pa = [] then Some (Inr pa)
      else
        bindOE (Some (load_tree_dirs trim fs pa)) (\<lambda>pa.
        if \<not> (pa_runCreateFilesPhase pa \<or> pa_runStatFilesPhase pa \<or> pa_runReadPhase pa \<or> pa_runDeleteFilesPhase pa \<or>
              pa_runS3AclPut pa \<or> pa_runS3AclGet pa \<or> pa_runS3BucketAclPut pa \<or> pa_runS3BucketAclGet pa)
        then Some (Inr pa)
        else
          bindOE (Some (load_tree_files trim fs pa 0 (pa_fileShareSize pa - 1) (ct_filesNonShared (pa_customTree pa)))) (\<lambda>st.
          let nonShared = ps_sortByFileSize st in
          if tree_split_per_service pa
          then
            if pa_numThreads pa = 0 then Some (Inl (Fault ''division by zero''))
            else
              let serviceRank = pa_rankOffset pa div pa_numThreads pa;
                  numServiceRanksTotal = pa_numDataSetThreads pa div pa_numThreads pa
              in bindOE (Some (load_tree_files trim fs pa (pa_fileShareSize pa) (- 1) ps_new)) (\<lambda>filesSharedTemp.
                 bindOE (Some (ps_setBlockSize (pa_blockSize pa) (ct_filesShared (pa_customTree pa)))) (\<lambda>filesShared.
                 bindOE (ps_getWorkerSublistNonShared (ps_sortByFileSize filesSharedTemp)
                           (ucast serviceRank) (ucast numServiceRanksTotal) False filesShared) (\<lambda>filesShared.
                 Some (Inr (pa\<lparr>pa_customTree := (pa_customTree pa)\<lparr>ct_filesNonShared := nonShared, ct_filesShared := filesShared\<rparr>\<rparr>)))))
          else
            bindOE (Some (load_tree_files trim fs pa (pa_fileShareSize pa) (- 1) (ct_filesShared (pa_customTree pa)))) (\<lambda>filesShared.
            Some (Inr (pa\<lparr>pa_customTree :=
              (pa_customTree pa)\<lparr>ct_filesNonShared := ps_sortByFileSize nonShared, ct_filesShared := filesShared\<rparr>\<rparr>))))))"

subsection \<open>A worker's share\<close>

record worker_tree =
  customTreeDirs :: path_store
  customTreeFiles :: path_store

definition prepareCustomTreePathStores ::
    "(path_elem list \<Rightarrow> path_elem list) \<Rightarrow> prog_args \<Rightarrow> u64 \<Rightarrow> worker_tree \<Rightarrow> worker_tree result option" where
  "prepareCustomTreePathStores shuffle pa workerRank wt =
     (if pa_treeFilePath pa = [] then Some (Inr wt)
      else
        let throwOnSmaller = (\<not> pa_noDirectIOCheck pa \<and> pa_useDirectIO pa \<and> pa_useRandomOffsets pa);
            T = ucast (pa_numDataSetThreads pa)
        in bindOE (ps_getWorkerSublistNonShared (ct_dirs (pa_customTree pa)) (ucast workerRank) T False (customTreeDirs wt)) (\<lambda>dirs.
           bindOE (ps_getWorkerSublistNonShared (ct_filesNonShared (pa_customTree pa)) (ucast workerRank) T throwOnSmaller
                     (customTreeFiles wt)) (\<lambda>files.
           bindOE
             (if tree_split_per_service pa
              then Some (ps_getWorkerSublistShared (ct_filesShared (pa_customTree pa))
                           (ucast (workerRank - pa_rankOffset pa)) (ucast (pa_numThreads pa)) throwOnSmaller files)
              else if pa_useCustomTreeRoundRobin pa
              then ps_getWorkerSublistSharedRoundRobin (ct_filesShared (pa_customTree pa)) (ucast workerRank) T throwOnSmaller files
              else Some (ps_getWorkerSublistShared (ct_filesShared (pa_customTree pa)) (ucast workerRank) T throwOnSmaller files))
             (\<lambda>files.
           Some (Inr (wt\<lparr>customTreeDirs := dirs,
                         customTreeFiles := (if pa_useCustomTreeRandomize pa then ps_randomShuffle shuffle files else files)\<rparr>))))))"

subsection \<open>What a loaded store holds\<close>

definition whole_file :: "path_elem \<Rightarrow> bool" where
  "whole_file e \<longleftrightarrow> rangeStart e = 0 \<and> rangeLen e = totalLen e"

abbreviation blocks_word :: "u64 \<Rightarrow> path_elem list \<Rightarrow> u64" where
  "blocks_word bs es \<equiv> sum_list (map (\<lambda>e. num_file_blocks (totalLen e) bs) es)"

text \<open>A store that has gained the elements \<open>es\<close>, with all its counters.\<close>

definition gained :: "path_elem list \<Rightarrow> path_store \<Rightarrow> path_store \<Rightarrow> bool" where
  "gained es st st' \<longleftrightarrow>
     ps_paths st' = ps_paths st @ es \<and> ps_blockSize st' = ps_blockSize st \<and>
     numPaths st' = numPaths st + of_nat (length es) \<and>
     numBlocksTotal st' = numBlocksTotal st + blocks_word (ps_blockSize st) es \<and>
     ps_numBytesTotal st' = ps_numBytesTotal st + sum_list (map totalLen es)"

lemma gained_refl [simp]: "gained [] st st"
  by (simp add: gained_def)

lemma gained_trans: "gained xs a b \<Longrightarrow> gained ys b c \<Longrightarrow> gained (xs @ ys) a c"
  by (simp add: gained_def add.assoc)

lemma gained_one:
  "gained [e] st (st\<lparr>ps_paths := ps_paths st @ [e], numPaths := numPaths st + 1,
     numBlocksTotal := numBlocksTotal st + num_file_blocks (totalLen e) (ps_blockSize st),
     ps_numBytesTotal := ps_numBytesTotal st + totalLen e\<rparr>)"
  by (simp add: gained_def)

text \<open>
  If all files can be loaded, so can those of a size range, and these are the files of the range
  in the order of the tree file.
\<close>

lemma load_file_lines_filter:
  assumes "load_file_lines trim b64 0 (- 1) rnd ls st = Inr alls" "ps_blockSize st \<noteq> 0"
  shows "\<exists>new. gained new st alls \<and> (\<forall>e \<in> set new. whole_file e) \<and>
    (\<forall>mn mx st0. ps_blockSize st0 = ps_blockSize st \<longrightarrow>
      (\<exists>out. load_file_lines trim b64 mn mx rnd ls st0 = Inr out \<and>
        gained (filter (\<lambda>e. mn \<le> totalLen e \<and> totalLen e \<le> mx) new) st0 out))"
  using assms
proof (induction ls arbitrary: st)
  case (Cons l ls)
  obtain pre rest where w: "read_word l = (pre, rest)" by fastforce
  show ?case
  proof (cases "pre = ''f''")
    case False
    then show ?thesis using Cons.IH [of st] Cons.prems w by simp
  next
    case True
    from Cons.prems True w obtain n rest' where n: "read_u64 rest = Some (n, rest')"
      by (cases "read_u64 rest") auto
    define sz p where d: "sz = round_up rnd n" "p = decode_path b64 (trim rest')"
    define e where "e = \<lparr>pe_path = p, totalLen = sz, rangeStart = 0, rangeLen = sz\<rparr>"
    define add where "add = (\<lambda>s :: path_store. s\<lparr>ps_paths := ps_paths s @ [e], numPaths := numPaths s + 1,
      numBlocksTotal := numBlocksTotal s + num_file_blocks sz (ps_blockSize s),
      ps_numBytesTotal := ps_numBytesTotal s + sz\<rparr>)"
    have step: "load_file_lines trim b64 mn mx rnd (l # ls) s =
        (if sz < mn \<or> mx < sz then load_file_lines trim b64 mn mx rnd ls s
         else if p = [] then Inl (ProgException ''Encountered invalid file line without path in input file. '')
         else load_file_lines trim b64 mn mx rnd ls (add s))" if "ps_blockSize s \<noteq> 0" for mn mx s
      using True w n that by (simp add: Let_def d add_def e_def)
    have nl: "\<not> - 1 < sz" by (simp add: not_less word_order.extremum)
    have bsa: "ps_blockSize (add s) = ps_blockSize s" for s by (simp add: add_def)
    have one: "gained [e] s (add s)" for s using gained_one [of e s] by (simp add: add_def e_def)
    have p: "p \<noteq> []" "load_file_lines trim b64 0 (- 1) rnd ls (add st) = Inr alls"
      using Cons.prems(1) nl unfolding step [OF Cons.prems(2)] by (simp_all split: if_splits)
    obtain new where new: "gained new (add st) alls" "\<forall>e \<in> set new. whole_file e"
      "\<forall>mn mx st0. ps_blockSize st0 = ps_blockSize st \<longrightarrow>
        (\<exists>out. load_file_lines trim b64 mn mx rnd ls st0 = Inr out \<and>
          gained (filter (\<lambda>e. mn \<le> totalLen e \<and> totalLen e \<le> mx) new) st0 out)"
      using Cons.IH [OF p(2)] Cons.prems(2) bsa by auto
    have sub: "\<exists>out. load_file_lines trim b64 mn mx rnd (l # ls) st0 = Inr out \<and>
        gained (filter (\<lambda>e. mn \<le> totalLen e \<and> totalLen e \<le> mx) (e # new)) st0 out"
      if bs0: "ps_blockSize st0 = ps_blockSize st" for mn mx st0
    proof (cases "sz < mn \<or> mx < sz")
      case True
      moreover have "\<not> (mn \<le> totalLen e \<and> totalLen e \<le> mx)" using True by (auto simp: e_def)
      ultimately show ?thesis using new(3) bs0 step [of st0 mn mx] Cons.prems(2) by (auto simp del: load_file_lines.simps)
    next
      case False
      then have "mn \<le> totalLen e" "totalLen e \<le> mx" by (auto simp: e_def)
      moreover obtain out where "load_file_lines trim b64 mn mx rnd ls (add st0) = Inr out"
        "gained (filter (\<lambda>e. mn \<le> totalLen e \<and> totalLen e \<le> mx) new) (add st0) out"
        using new(3) bs0 bsa by metis
      ultimately show ?thesis
        using False p(1) bs0 step [of st0 mn mx] Cons.prems(2) gained_trans [OF one, of _ st0]
        by (simp del: load_file_lines.simps)
    qed
    have "gained (e # new) st alls" using gained_trans [OF one new(1)] by simp
    moreover have "\<forall>e' \<in> set (e # new). whole_file e'" using new(2) by (simp add: whole_file_def e_def)
    ultimately show ?thesis using sub by blast
  qed
qed (auto intro!: exI [of _ "[]"])

lemma unat_blocks_word:
  assumes "bs \<noteq> 0" "blocks_sum bs es < W64"
  shows "unat (blocks_word bs es) = blocks_sum bs es"
  using assms(2)
proof (induction es)
  case (Cons e es)
  then have "unat (blocks_word bs es) = blocks_sum bs es" by simp
  then show ?case using Cons.prems unat_num_file_blocks [OF assms(1), of "totalLen e"]
    by (subst list.map, subst sum_list.Cons, subst unat_add_no) simp_all
qed simp

subsection \<open>Bytes of whole files\<close>

lemma nth_share_covers:
  assumes dist: "distinct (map pe_path ps)" and whole: "\<forall>e \<in> set ps. whole_file e"
    and k: "k < length ps" and x: "x < unat (totalLen (ps ! k))"
  shows "(\<exists>y \<in> set (map ((!) ps) (filter (\<lambda>j. j mod T = r) [0..<length ps])). elem_has y (pe_path (ps ! k)) x) \<longleftrightarrow>
    k mod T = r"
proof -
  have "elem_has (ps ! j) (pe_path (ps ! k)) x \<longleftrightarrow> j = k" if "j < length ps" for j
    using that dist k x whole by (auto simp: whole_file_def distinct_conv_nth)
  then show ?thesis using k by auto
qed

subsection \<open>Every worker's share of a loaded tree\<close>

lemma ps_loadFiles_filter:
  assumes "ps_loadFilesFromFile trim fs path 0 (- 1) rnd (ps_new\<lparr>ps_blockSize := bs\<rparr>) = Inr alls" "bs \<noteq> 0"
  shows "(\<forall>e \<in> set (ps_paths alls). whole_file e) \<and>
    (\<forall>mn mx. \<exists>out. ps_loadFilesFromFile trim fs path mn mx rnd (ps_new\<lparr>ps_blockSize := bs\<rparr>) = Inr out \<and>
      gained (filter (\<lambda>e. mn \<le> totalLen e \<and> totalLen e \<le> mx) (ps_paths alls)) (ps_new\<lparr>ps_blockSize := bs\<rparr>) out)"
proof -
  let ?st = "ps_new\<lparr>ps_blockSize := bs\<rparr>"
  obtain ls where ls: "fs path = Some ls" "load_file_lines trim (base64_header ls) 0 (- 1) rnd ls ?st = Inr alls"
    using assms(1) by (auto simp: ps_loadFilesFromFile_def ps_checkBase64Encoding_def split: option.splits)
  have "ps_blockSize ?st \<noteq> 0" using assms(2) by simp
  from load_file_lines_filter [OF ls(2) this] obtain new where new: "gained new ?st alls" "\<forall>e \<in> set new. whole_file e"
    "\<forall>mn mx st0. ps_blockSize st0 = bs \<longrightarrow>
      (\<exists>out. load_file_lines trim (base64_header ls) mn mx rnd ls st0 = Inr out \<and>
        gained (filter (\<lambda>e. mn \<le> totalLen e \<and> totalLen e \<le> mx) new) st0 out)" by auto
  have "ps_paths alls = new" using new(1) by (simp add: gained_def ps_new_def)
  moreover have "ps_loadFilesFromFile trim fs path mn mx rnd ?st =
      load_file_lines trim (base64_header ls) mn mx rnd ls ?st" for mn mx
    using ls(1) by (simp add: ps_loadFilesFromFile_def ps_checkBase64Encoding_def)
  ultimately show ?thesis using new(2,3) by simp
qed

text \<open>The elements of the shared files that a worker takes.\<close>

definition shared_share :: "bool \<Rightarrow> u64 \<Rightarrow> nat \<Rightarrow> nat \<Rightarrow> path_elem list \<Rightarrow> path_elem list" where
  "shared_share roundRobin bs T r ps =
     (if roundRobin then per_file bs (rr_elems bs T r) 0 ps
      else shared_ranges bs (wstart (blocks_sum bs ps) T r) (wend (blocks_sum bs ps) T r) 0 ps)"

lemma shared_share_covers:
  assumes bs: "bs \<noteq> 0" and T: "0 < T" and dist: "distinct (map pe_path ps)"
    and k: "k < length ps" and x: "x < unat (totalLen (ps ! k))"
  shows "\<exists>!r. r < T \<and> (\<exists>y \<in> set (shared_share rr bs T r ps). elem_has y (pe_path (ps ! k)) x)"
proof (cases rr)
  case True
  have "(\<exists>y \<in> set (shared_share rr bs T r ps). elem_has y (pe_path (ps ! k)) x) \<longleftrightarrow>
      (0 + blocks_sum bs (take k ps) + x div unat bs) mod T = r" for r
    using True rr_ranges_covers [OF bs dist k x, where cur = 0] by (simp add: shared_share_def)
  then show ?thesis using T by auto
next
  case False
  have "(\<exists>y \<in> set (shared_share rr bs T r ps). elem_has y (pe_path (ps ! k)) x) \<longleftrightarrow>
      wstart (blocks_sum bs ps) T r \<le> blocks_sum bs (take k ps) + x div unat bs \<and>
      blocks_sum bs (take k ps) + x div unat bs < wend (blocks_sum bs ps) T r" for r
    using False shared_ranges_covers [OF bs dist k x, where cur = 0] by (simp add: shared_share_def)
  then show ?thesis using worker_blocks_partition [OF byte_block_less [OF bs k x] T] by simp
qed

lemma shared_share_paths: "y \<in> set (shared_share rr bs T r ps) \<Longrightarrow> pe_path y \<in> pe_path ` set ps"
proof -
  have "\<forall>cur p. \<forall>y \<in> set (rr_elems bs T r cur p). pe_path y = pe_path p"
    "\<forall>cur p. \<forall>y \<in> set (range_elem bs s e cur p). pe_path y = pe_path p" for s e
    by (auto simp: rr_elems_def rr_elem_def range_elem_def split: option.splits)
  then show "y \<in> set (shared_share rr bs T r ps) \<Longrightarrow> pe_path y \<in> pe_path ` set ps"
    unfolding shared_share_def by (auto split: if_splits dest: per_file_paths [rotated])
qed

lemma shared_store_share:
  assumes ok: "ps_blocks_ok sh" and T: "T \<noteq> 0" and r: "r < unat T"
    and fits: "rr \<longrightarrow> (\<forall>p \<in> set (ps_paths sh). nfb (ps_blockSize sh) p * unat (ps_blockSize sh) < W64)"
  shows "\<exists>out'. (if rr then ps_getWorkerSublistSharedRoundRobin sh (of_nat r) T False out
      else Some (ps_getWorkerSublistShared sh (of_nat r) T False out)) = Some (Inr out') \<and>
    ps_paths out' = ps_paths out @ shared_share rr (ps_blockSize sh) (unat T) r (ps_paths sh)"
proof (cases rr)
  case False
  then show ?thesis using shared_worker_result [OF ok r, of out] ok
    by (auto simp: shared_share_def ps_blocks_ok_def)
next
  case True
  let ?bs = "ps_blockSize sh" and ?ps = "ps_paths sh"
  have bs: "?bs \<noteq> 0" using ok by (simp add: ps_blocks_ok_def)
  have "\<forall>p \<in> set ?ps. totalLen p \<noteq> 0 \<and> nfb ?bs p * unat ?bs < W64" "unat (0 :: u64) + blocks_sum ?bs ?ps < W64"
    using ok fits True by (auto simp: ps_blocks_ok_def)
  from rr_path_loop_result [OF bs T this, of "of_nat r" out] show ?thesis
    using True unat_of_nat_u32 [OF r]
    by (auto simp: ps_getWorkerSublistSharedRoundRobin_def shared_share_def)
qed

text \<open>A tree as it is after loading: no directories, whole unshared files and shared files with blocks.\<close>

definition tree_ready :: "prog_args \<Rightarrow> bool" where
  "tree_ready pa \<longleftrightarrow> pa_treeFilePath pa \<noteq> [] \<and>
     (pa_noDirectIOCheck pa \<or> \<not> pa_useDirectIO pa \<or> \<not> pa_useRandomOffsets pa) \<and> \<not> tree_split_per_service pa \<and>
     0 < unat (pa_numDataSetThreads pa) \<and> unat (pa_numDataSetThreads pa) < 2 ^ 32 \<and>
     (let ns = ct_filesNonShared (pa_customTree pa); sh = ct_filesShared (pa_customTree pa)
      in ct_dirs (pa_customTree pa) = ps_new \<and> numPaths ns = of_nat (length (ps_paths ns)) \<and>
         length (ps_paths ns) + unat (pa_numDataSetThreads pa) < W64 \<and> ps_blocks_ok sh \<and>
         (pa_useCustomTreeRoundRobin pa \<longrightarrow> (\<forall>p \<in> set (ps_paths sh). nfb (ps_blockSize sh) p * unat (ps_blockSize sh) < W64)))"

lemma ucast_threads:
  assumes "unat (n :: u64) < 2 ^ 32"
  shows "unat (ucast n :: u32) = unat n"
  using assms by (simp add: unsigned_ucast_eq take_bit_nat_eq_self)

lemma ucast_rank:
  assumes "r < 2 ^ 32"
  shows "ucast (of_nat r :: u64) = (of_nat r :: u32)"
proof -
  have "unat (of_nat r :: u64) = r" using assms by (intro unat_of_nat_no less_trans [OF assms]) simp
  then have "unat (ucast (of_nat r :: u64) :: u32) = r" using ucast_threads assms by metis
  moreover have "unat (of_nat r :: u32) = r" using assms by (simp add: unsigned_of_nat take_bit_nat_eq_self)
  ultimately show ?thesis by (simp add: word_unat_eq_iff)
qed

lemma ps_randomShuffle_paths: "ps_paths (ps_randomShuffle shuffle st) = shuffle (ps_paths st)"
proof -
  have "foldr (#) xs [] = xs" for xs :: "path_elem list" by (induction xs) simp_all
  then show ?thesis by (simp add: ps_randomShuffle_def Let_def)
qed

lemma worker_tree_share:
  assumes ready: "tree_ready pa" and r: "r < unat (pa_numDataSetThreads pa)"
    and perm: "\<And>xs. mset (shuffle xs) = mset xs"
  defines "ns \<equiv> ct_filesNonShared (pa_customTree pa)" and "sh \<equiv> ct_filesShared (pa_customTree pa)"
    and "T \<equiv> unat (pa_numDataSetThreads pa)"
  shows "\<exists>wt. prepareCustomTreePathStores shuffle pa (of_nat r) \<lparr>customTreeDirs = ps_new, customTreeFiles = ps_new\<rparr> = Some (Inr wt) \<and>
    set (ps_paths (customTreeFiles wt)) =
      set (map ((!) (ps_paths ns)) (filter (\<lambda>j. j mod T = r) [0..<length (ps_paths ns)])) \<union>
      set (shared_share (pa_useCustomTreeRoundRobin pa) (ps_blockSize sh) T r (ps_paths sh))"
proof -
  define T' where "T' = (ucast (pa_numDataSetThreads pa) :: u32)"
  have T32: "T < 2 ^ 32" and T0: "0 < T" using ready by (simp_all add: tree_ready_def T_def)
  have uT: "unat T' = T" using T32 by (simp add: T'_def T_def ucast_threads)
  then have nz: "T' \<noteq> 0" using T0 by auto
  have rT: "r < unat T'" using r uT by (simp add: T_def)
  have rank: "ucast (of_nat r :: u64) = (of_nat r :: u32)" using r T32 by (intro ucast_rank) (simp add: T_def)
  have thr: "(\<not> pa_noDirectIOCheck pa \<and> pa_useDirectIO pa \<and> pa_useRandomOffsets pa) = False"
    and env: "pa_treeFilePath pa \<noteq> []" "\<not> tree_split_per_service pa" "ct_dirs (pa_customTree pa) = ps_new"
    using ready by (auto simp: tree_ready_def Let_def)
  have dirs: "ps_getWorkerSublistNonShared ps_new (of_nat r) T' False out = Some (Inr out)" for out
    by (simp add: ps_getWorkerSublistNonShared_def ps_new_def)
  have lens: "numPaths ns = of_nat (length (ps_paths ns))" "length (ps_paths ns) + unat T' < W64"
    using ready uT by (simp_all add: tree_ready_def ns_def T_def Let_def)
  from nonshared_worker_result [OF lens nz rT, of False ps_new] obtain f1 where
    f1: "ps_getWorkerSublistNonShared ns (of_nat r) T' False ps_new = Some (Inr f1)"
    "ps_paths f1 = map ((!) (ps_paths ns)) (filter (\<lambda>j. j mod T = r) [0..<length (ps_paths ns)])"
    using uT by (auto simp: ps_new_def)
  have sh: "ps_blocks_ok sh" "pa_useCustomTreeRoundRobin pa \<longrightarrow>
      (\<forall>p \<in> set (ps_paths sh). nfb (ps_blockSize sh) p * unat (ps_blockSize sh) < W64)"
    using ready by (simp_all add: tree_ready_def sh_def Let_def)
  from shared_store_share [OF sh(1) nz rT sh(2), of f1] obtain f2 where
    f2: "(if pa_useCustomTreeRoundRobin pa then ps_getWorkerSublistSharedRoundRobin sh (of_nat r) T' False f1
      else Some (ps_getWorkerSublistShared sh (of_nat r) T' False f1)) = Some (Inr f2)"
    "ps_paths f2 = ps_paths f1 @ shared_share (pa_useCustomTreeRoundRobin pa) (ps_blockSize sh) T r (ps_paths sh)"
    using uT by auto
  have "prepareCustomTreePathStores shuffle pa (of_nat r) \<lparr>customTreeDirs = ps_new, customTreeFiles = ps_new\<rparr> =
      Some (Inr \<lparr>customTreeDirs = ps_new,
        customTreeFiles = (if pa_useCustomTreeRandomize pa then ps_randomShuffle shuffle f2 else f2)\<rparr>)"
    unfolding prepareCustomTreePathStores_def Let_def thr rank ns_def [symmetric] sh_def [symmetric] T'_def [symmetric] env(3)
    using env(1,2) f2(1) by (simp add: dirs f1(1))
  moreover have "set (ps_paths (if pa_useCustomTreeRandomize pa then ps_randomShuffle shuffle f2 else f2)) = set (ps_paths f2)"
    using perm [THEN mset_eq_setD] by (simp add: ps_randomShuffle_paths)
  ultimately show ?thesis using f1(2) f2(2) by auto
qed

text \<open>The tree after a successful load of the files, with no directory phase.\<close>

lemma loadCustomTreeFile_ready:
  fixes pa :: prog_args
  assumes path: "pa_treeFilePath pa \<noteq> []" and run: "pa_runReadPhase pa \<or> pa_runCreateFilesPhase pa"
    and nodirs: "\<not> pa_runCreateDirsPhase pa" "\<not> pa_runDeleteDirsPhase pa"
    and fresh: "pa_customTree pa = \<lparr>ct_dirs = ps_new, ct_filesNonShared = ps_new, ct_filesShared = ps_new\<rparr>"
    and all: "ps_loadFilesFromFile trim fs (pa_treeFilePath pa) 0 (- 1) (pa_treeRoundUpSize pa)
      (ps_new\<lparr>ps_blockSize := pa_blockSize pa\<rparr>) = Inr alls" and bs: "pa_blockSize pa \<noteq> 0"
    and norm: "\<not> tree_split_per_service pa"
  shows "\<exists>ns sh. loadCustomTreeFile trim fs pa = Some (Inr (pa\<lparr>pa_customTree :=
      \<lparr>ct_dirs = ps_new, ct_filesNonShared = ps_sortByFileSize (ps_sortByFileSize ns), ct_filesShared = sh\<rparr>\<rparr>)) \<and>
    gained (filter (\<lambda>e. 0 \<le> totalLen e \<and> totalLen e \<le> pa_fileShareSize pa - 1) (ps_paths alls))
      (ps_new\<lparr>ps_blockSize := pa_blockSize pa\<rparr>) ns \<and>
    gained (filter (\<lambda>e. pa_fileShareSize pa \<le> totalLen e \<and> totalLen e \<le> - 1) (ps_paths alls))
      (ps_new\<lparr>ps_blockSize := pa_blockSize pa\<rparr>) sh"
proof -
  let ?st = "ps_new\<lparr>ps_blockSize := pa_blockSize pa\<rparr>"
  have set_bs: "ps_setBlockSize (pa_blockSize pa) ps_new = Inr ?st" by (simp add: ps_setBlockSize_def ps_new_def)
  have load: "\<exists>out. load_tree_files trim fs pa mn mx ps_new = Inr out \<and>
      gained (filter (\<lambda>e. mn \<le> totalLen e \<and> totalLen e \<le> mx) (ps_paths alls)) ?st out" for mn mx
    unfolding load_tree_files_def set_bs bindE_simps using ps_loadFiles_filter [OF all bs] by blast
  obtain ns where ns: "load_tree_files trim fs pa 0 (pa_fileShareSize pa - 1) ps_new = Inr ns"
    "gained (filter (\<lambda>e. 0 \<le> totalLen e \<and> totalLen e \<le> pa_fileShareSize pa - 1) (ps_paths alls)) ?st ns"
    using load by blast
  obtain sh where sh: "load_tree_files trim fs pa (pa_fileShareSize pa) (- 1) ps_new = Inr sh"
    "gained (filter (\<lambda>e. pa_fileShareSize pa \<le> totalLen e \<and> totalLen e \<le> - 1) (ps_paths alls)) ?st sh"
    using load by blast
  have "load_tree_dirs trim fs pa = Inr pa" using nodirs by (simp add: load_tree_dirs_def)
  then have "loadCustomTreeFile trim fs pa = Some (Inr (pa\<lparr>pa_customTree :=
      \<lparr>ct_dirs = ps_new, ct_filesNonShared = ps_sortByFileSize (ps_sortByFileSize ns), ct_filesShared = sh\<rparr>\<rparr>))"
    using path run norm fresh ns(1) sh(1) by (auto simp: loadCustomTreeFile_def Let_def)
  then show ?thesis using ns(2) sh(2) by blast
qed

lemma blocks_sum_filter_le: "blocks_sum bs (filter P es) \<le> blocks_sum bs es"
  by (induction es) auto

lemma sorted_store [simp]:
  "set (ps_paths (ps_sortByFileSize st)) = set (ps_paths st)"
  "length (ps_paths (ps_sortByFileSize st)) = length (ps_paths st)"
  "numPaths (ps_sortByFileSize st) = numPaths st"
  "distinct (map pe_path (ps_paths (ps_sortByFileSize st))) = distinct (map pe_path (ps_paths st))"
  by (auto simp: ps_sortByFileSize_def distinct_map)

text \<open>Each byte of a file, shared or not, belongs to one worker's elements.\<close>

lemma tree_byte_owner:
  assumes dist: "distinct (map pe_path alls)" and whole: "\<forall>e \<in> set alls. whole_file e"
    and N: "set N = {e \<in> set alls. \<not> share \<le> totalLen e}" "distinct (map pe_path N)"
    and H: "set H = {e \<in> set alls. share \<le> totalLen e}" "distinct (map pe_path H)"
    and bs: "bs \<noteq> 0" and T: "0 < T" and e: "e \<in> set alls" and x: "x < unat (totalLen e)"
  shows "\<exists>!r. r < T \<and> (\<exists>y \<in> set (map ((!) N) (filter (\<lambda>j. j mod T = r) [0..<length N])) \<union> set (shared_share rr bs T r H).
    elem_has y (pe_path e) x)"
proof -
  have same: "e' = e" if "e' \<in> set alls" "pe_path e' = pe_path e" for e'
    using that e dist by (auto simp: distinct_map inj_on_def)
  show ?thesis
  proof (cases "share \<le> totalLen e")
    case False
    then have "e \<in> set N" using N e by simp
    then obtain k where k: "k < length N" "N ! k = e" by (auto simp: in_set_conv_nth)
    have "pe_path e \<notin> pe_path ` set H" using False H(1) same by auto
    then have "\<not> (\<exists>y \<in> set (shared_share rr bs T r H). elem_has y (pe_path e) x)" for r
      using shared_share_paths [of _ rr bs T r H] by metis
    moreover have "(\<exists>y \<in> set (map ((!) N) (filter (\<lambda>j. j mod T = r) [0..<length N])). elem_has y (pe_path e) x) \<longleftrightarrow>
        k mod T = r" for r
      using nth_share_covers [OF N(2) _ k(1), of x T r] whole N(1) k(2) x by auto
    ultimately show ?thesis using T unfolding bex_Un by (metis mod_less_divisor)
  next
    case True
    then have "e \<in> set H" using H e by simp
    then obtain k where k: "k < length H" "H ! k = e" by (auto simp: in_set_conv_nth)
    have "pe_path e \<notin> pe_path ` set N" using True N(1) same by auto
    then have "\<not> (\<exists>y \<in> set (map ((!) N) (filter (\<lambda>j. j mod T = r) [0..<length N])). elem_has y (pe_path e) x)" for r
      by (auto simp: image_iff dest!: nth_mem)
    moreover have "\<exists>!r. r < T \<and> (\<exists>y \<in> set (shared_share rr bs T r H). elem_has y (pe_path e) x)"
      using shared_share_covers [OF bs T H(2) k(1), of x rr] k(2) x by simp
    ultimately show ?thesis unfolding bex_Un by blast
  qed
qed

subsection \<open>Properties\<close>

text \<open>\<open>std::getline\<close> on a text file: the lines, without the newline characters.\<close>

fun lines_from :: "string \<Rightarrow> string \<Rightarrow> string list" where
  "lines_from acc [] = (if acc = [] then [] else [acc])"
| "lines_from acc (c # cs) = (if c = newline then acc # lines_from [] cs else lines_from (acc @ [c]) cs)"

definition getlines :: "string \<Rightarrow> string list" where
  "getlines text = lines_from [] text"

lemma lines_from_line: "newline \<notin> set l \<Longrightarrow> lines_from acc (l @ newline # rest) = (acc @ l) # lines_from [] rest"
  by (induction l arbitrary: acc) auto

fun entry_line :: "dir_entry \<Rightarrow> string list" where
  "entry_line (RegularFile p n) = [''f '' @ to_string (unat n) @ '' '' @ base64_encode p]"
| "entry_line (Directory p) = [''d '' @ base64_encode p]"
| "entry_line (OtherEntry p) = []"

fun file_elems :: "dir_entry list \<Rightarrow> path_elem list" where
  "file_elems [] = []"
| "file_elems (RegularFile p n # es) = \<lparr>pe_path = p, totalLen = n, rangeStart = 0, rangeLen = n\<rparr> # file_elems es"
| "file_elems (e # es) = file_elems es"

fun dir_elems :: "dir_entry list \<Rightarrow> path_elem list" where
  "dir_elems [] = []"
| "dir_elems (Directory p # es) = \<lparr>pe_path = p, totalLen = 0, rangeStart = 0, rangeLen = 0\<rparr> # dir_elems es"
| "dir_elems (e # es) = dir_elems es"

fun entry_path :: "dir_entry \<Rightarrow> string" where
  "entry_path (RegularFile p n) = p"
| "entry_path (Directory p) = p"
| "entry_path (OtherEntry p) = p"

text \<open>What \<open>boost::trim\<close> documents: white space at both ends is removed.\<close>

definition trims :: "(string \<Rightarrow> string) \<Rightarrow> bool" where
  "trims trim \<longleftrightarrow> (\<forall>a s b. s \<noteq> [] \<and> \<not> isspace (hd s) \<and> \<not> isspace (last s) \<and> (\<forall>c \<in> set a \<union> set b. isspace c) \<longrightarrow>
     trim (a @ s @ b) = s)"

lemma isspace_newline: "isspace newline"
  by (simp add: newline_def isspace_def)

lemma entry_line_no_newline: "l \<in> set (entry_line e) \<Longrightarrow> newline \<notin> set l"
  using base64_encode_no_space isspace_newline to_string_digits isdigit_not_space
  by (cases e) (auto simp: newline_def char_of_def bit_0)

lemma scan_entry_text:
  "ts_fileStream (scan_entry e ts) = ts_fileStream ts @ concat (map (\<lambda>l. l @ [newline]) (entry_line e))"
  by (cases e) simp_all

lemma scan_entries_text:
  "\<exists>ts'. scan_entries (map Inr es) ts = Inr ts' \<and>
     ts_fileStream ts' = ts_fileStream ts @ concat (map (\<lambda>l. l @ [newline]) (concat (map entry_line es)))"
proof (induction es arbitrary: ts)
  case (Cons e es)
  then show ?case using Cons.IH [of "scan_entry e ts"] by (auto simp: scan_entry_text)
qed simp

lemma getlines_concat:
  "\<forall>l \<in> set ls. newline \<notin> set l \<Longrightarrow> getlines (concat (map (\<lambda>l. l @ [newline]) ls)) = ls"
  by (induction ls) (simp_all add: getlines_def lines_from_line)

lemma trim_word:
  assumes "trims trim" "w \<noteq> []" "\<forall>c \<in> set w. \<not> isspace c"
  shows "trim (CHR '' '' # w) = w"
proof -
  have sp: "\<forall>c \<in> set '' '' \<union> set ([] :: string). isspace c" by (simp add: isspace_def code_def)
  have "\<not> isspace (hd w)" "\<not> isspace (last w)" using assms(2,3) by simp_all
  then have "trim ('' '' @ w @ []) = w" using assms(1,2) sp unfolding trims_def by blast
  then show ?thesis by simp
qed

lemma read_file_line:
  "read_word (''f '' @ to_string (unat n) @ '' '' @ w) = (''f'', CHR '' '' # to_string (unat n) @ CHR '' '' # w)"
  "read_u64 (CHR '' '' # to_string (unat n) @ CHR '' '' # w) = Some (n, CHR '' '' # w)"
proof -
  show "read_word (''f '' @ to_string (unat n) @ '' '' @ w) = (''f'', CHR '' '' # to_string (unat n) @ CHR '' '' # w)"
    by (simp add: read_word_def isspace_def code_def)
  obtain c cs where c: "to_string (unat n) = c # cs" "isdigit c" using to_string_Cons by blast
  have sp: "isspace (CHR '' '')" "\<not> isdigit (CHR '' '')" by (simp_all add: isspace_def isdigit_def code_def)
  let ?r = "to_string (unat n) @ CHR '' '' # w"
  have d: "dropWhile isspace (CHR '' '' # ?r) = ?r" using c sp isdigit_not_space [OF c(2)] by simp
  have sg: "strip_sign ?r = (False, ?r)" using c isdigit_not_sign [OF c(2)] by (simp add: strip_sign_def)
  have tw: "takeWhile isdigit ?r = to_string (unat n)" using sp by (intro takeWhile_to_string) simp
  then have dw: "dropWhile isdigit ?r = CHR '' '' # w"
    by (metis append_eq_append_conv takeWhile_dropWhile_id)
  have "\<not> W64 \<le> unat n" using unat_less_W64 [of n] by (simp only: not_le)
  then show "read_u64 (CHR '' '' # ?r) = Some (n, CHR '' '' # w)"
    by (simp add: read_u64_def d sg tw dw del: dropWhile.simps takeWhile.simps)
qed

lemma load_files_of_entries:
  assumes "trims trim" "\<forall>e \<in> set es. entry_path e \<noteq> []" "ps_blockSize st \<noteq> 0"
  shows "\<exists>out. load_file_lines trim True 0 (- 1) 0 (concat (map entry_line es)) st = Inr out \<and> gained (file_elems es) st out"
  using assms(2,3)
proof (induction es arbitrary: st)
  case (Cons e es)
  show ?case
  proof (cases e)
    case (RegularFile p n)
    let ?e = "\<lparr>pe_path = p, totalLen = n, rangeStart = 0, rangeLen = n\<rparr>"
    let ?st = "st\<lparr>ps_paths := ps_paths st @ [?e], numPaths := numPaths st + 1,
      numBlocksTotal := numBlocksTotal st + num_file_blocks n (ps_blockSize st),
      ps_numBytesTotal := ps_numBytesTotal st + n\<rparr>"
    have p: "p \<noteq> []" using Cons.prems(1) RegularFile by simp
    have t: "trim (CHR '' '' # base64_encode p) = base64_encode p"
      using assms(1) base64_encode_nonempty [OF p] base64_encode_no_space by (intro trim_word) auto
    have nl: "\<not> - 1 < n" by (simp add: not_less word_order.extremum)
    have "load_file_lines trim True 0 (- 1) 0 (concat (map entry_line (e # es))) st =
        load_file_lines trim True 0 (- 1) 0 (concat (map entry_line es)) ?st"
      using p t nl Cons.prems(2) RegularFile
      by (simp add: read_file_line [simplified] round_up_def decode_path_def)
    moreover obtain out where "load_file_lines trim True 0 (- 1) 0 (concat (map entry_line es)) ?st = Inr out"
      "gained (file_elems es) ?st out" using Cons.IH [of ?st] Cons.prems by auto
    ultimately show ?thesis
      using gained_trans [OF gained_one [of ?e st]] RegularFile by fastforce
  next
    case (Directory p)
    have "read_word (''d '' @ base64_encode p) = (''d'', CHR '' '' # base64_encode p)"
      by (simp add: read_word_def isspace_def code_def)
    then show ?thesis using Cons Directory by simp
  next
    case (OtherEntry p)
    then show ?thesis using Cons by simp
  qed
qed simp

lemma load_dirs_of_entries:
  assumes "trims trim" "\<forall>e \<in> set es. entry_path e \<noteq> []"
  shows "\<exists>out. load_dir_lines trim True (concat (map entry_line es)) st = Inr out \<and> ps_paths out = ps_paths st @ dir_elems es"
  using assms(2)
proof (induction es arbitrary: st)
  case (Cons e es)
  show ?case
  proof (cases e)
    case (RegularFile p n)
    then show ?thesis using Cons by (simp add: read_file_line [simplified])
  next
    case (Directory p)
    have w: "read_word (''d '' @ base64_encode p) = (''d'', CHR '' '' # base64_encode p)"
      by (simp add: read_word_def isspace_def code_def)
    have p: "p \<noteq> []" using Cons.prems Directory by simp
    have t: "trim (CHR '' '' # base64_encode p) = base64_encode p"
      using assms(1) base64_encode_nonempty [OF p] base64_encode_no_space by (intro trim_word) auto
    let ?st = "st\<lparr>ps_paths := ps_paths st @ [\<lparr>pe_path = p, totalLen = 0, rangeStart = 0, rangeLen = 0\<rparr>],
      numPaths := numPaths st + 1\<rparr>"
    show ?thesis using Cons.IH [of ?st] Cons.prems w p t Directory by (simp add: decode_path_def)
  next
    case (OtherEntry p)
    then show ?thesis using Cons by simp
  qed
qed simp

lemma tree_header_lines:
  "base64_header (TREEFILE_BASE64ENCODING_HEADER # ls)"
  "load_file_lines trim b64 mn mx rnd (TREEFILE_BASE64ENCODING_HEADER # ls) st = load_file_lines trim b64 mn mx rnd ls st"
  "load_dir_lines trim b64 (TREEFILE_BASE64ENCODING_HEADER # ls) st = load_dir_lines trim b64 ls st"
proof -
  have "read_word TREEFILE_BASE64ENCODING_HEADER = (''#'', '' encoding=base64'')"
    by (simp add: TREEFILE_BASE64ENCODING_HEADER_def read_word_def isspace_def code_def)
  then show "load_file_lines trim b64 mn mx rnd (TREEFILE_BASE64ENCODING_HEADER # ls) st = load_file_lines trim b64 mn mx rnd ls st"
    "load_dir_lines trim b64 (TREEFILE_BASE64ENCODING_HEADER # ls) st = load_dir_lines trim b64 ls st" by simp_all
qed (simp add: TREEFILE_BASE64ENCODING_HEADER_def)

text \<open>
  C24: A tree file written by a directory scan loads back to exactly the scanned files with their sizes and
  the scanned directories, in scan order, whatever characters (blanks and newlines included) the
  names have.
\<close>

theorem scanned_tree_loads_back:
  assumes "trims trim" "\<forall>e \<in> set es. entry_path e \<noteq> []" "ps_blockSize st \<noteq> 0"
  shows "\<exists>ts st' ds'. FileTk_scanCustomTree True (map Inr es) = Inr ts \<and>
    ps_loadFilesFromFile trim (\<lambda>_. Some (getlines (ts_fileStream ts))) path 0 (- 1) 0 st = Inr st' \<and>
    ps_paths st' = ps_paths st @ file_elems es \<and>
    ps_loadDirsFromFile trim (\<lambda>_. Some (getlines (ts_fileStream ts))) path ds = Inr ds' \<and>
    ps_paths ds' = ps_paths ds @ dir_elems es"
proof -
  obtain ts where ts: "FileTk_scanCustomTree True (map Inr es) = Inr ts"
    "ts_fileStream ts = TREEFILE_BASE64ENCODING_HEADER @ [newline] @ concat (map (\<lambda>l. l @ [newline]) (concat (map entry_line es)))"
    using scan_entries_text [of es empty_scan] by (auto simp: FileTk_scanCustomTree_def empty_scan_def)
  have "newline \<notin> set TREEFILE_BASE64ENCODING_HEADER"
    by (simp add: newline_def TREEFILE_BASE64ENCODING_HEADER_def char_of_def bit_0)
  then have ls: "getlines (ts_fileStream ts) = TREEFILE_BASE64ENCODING_HEADER # concat (map entry_line es)"
    using getlines_concat [of "TREEFILE_BASE64ENCODING_HEADER # concat (map entry_line es)"] entry_line_no_newline
    unfolding ts(2) by auto
  obtain st' where st': "load_file_lines trim True 0 (- 1) 0 (concat (map entry_line es)) st = Inr st'" "gained (file_elems es) st st'"
    using load_files_of_entries [OF assms] by blast
  obtain ds' where ds': "load_dir_lines trim True (concat (map entry_line es)) ds = Inr ds'" "ps_paths ds' = ps_paths ds @ dir_elems es"
    using load_dirs_of_entries [OF assms(1,2)] by blast
  have "ps_loadFilesFromFile trim (\<lambda>_. Some (getlines (ts_fileStream ts))) path 0 (- 1) 0 st = Inr st'"
    using st'(1) unfolding ps_loadFilesFromFile_def ps_checkBase64Encoding_def ls by (simp only: tree_header_lines option.case bindE_simps)
  moreover have "ps_loadDirsFromFile trim (\<lambda>_. Some (getlines (ts_fileStream ts))) path ds = Inr ds'"
    using ds'(1) unfolding ps_loadDirsFromFile_def ps_checkBase64Encoding_def ls by (simp only: tree_header_lines option.case bindE_simps)
  moreover have "ps_paths st' = ps_paths st @ file_elems es" using st'(2) by (simp add: gained_def)
  ultimately show ?thesis using ts(1) ds'(2) by blast
qed

definition trim_spaces :: "string \<Rightarrow> string" where
  "trim_spaces s = rev (dropWhile isspace (rev (dropWhile isspace s)))"

lemma trims_trim_spaces: "trims trim_spaces"
proof -
  have "trim_spaces (a @ s @ b) = s"
    if "s \<noteq> []" "\<not> isspace (hd s)" "\<not> isspace (last s)" "\<forall>c \<in> set a \<union> set b. isspace c" for a s b
  proof -
    have "dropWhile isspace (a @ s @ b) = s @ b" using that by (subst dropWhile_append2) (auto simp: dropWhile_eq_self_iff)
    moreover have "dropWhile isspace (rev b @ rev s) = rev s"
      using that by (subst dropWhile_append2) (auto simp: dropWhile_eq_self_iff hd_rev)
    ultimately show ?thesis by (simp add: trim_spaces_def)
  qed
  then show ?thesis unfolding trims_def by blast
qed

theorem scanned_tree_loads_back_witness:
  "\<exists>ts st' ds'. FileTk_scanCustomTree True (map Inr [Directory ''d 1'', RegularFile ''d 1/x'' 7]) = Inr ts \<and>
    ps_loadFilesFromFile trim_spaces (\<lambda>_. Some (getlines (ts_fileStream ts))) ''t'' 0 (- 1) 0 example_store = Inr st' \<and>
    ps_paths st' = ps_paths example_store @ [\<lparr>pe_path = ''d 1/x'', totalLen = 7, rangeStart = 0, rangeLen = 7\<rparr>] \<and>
    ps_loadDirsFromFile trim_spaces (\<lambda>_. Some (getlines (ts_fileStream ts))) ''t'' ps_new = Inr ds' \<and>
    ps_paths ds' = [\<lparr>pe_path = ''d 1'', totalLen = 0, rangeStart = 0, rangeLen = 0\<rparr>]"
proof -
  have "ps_blockSize example_store \<noteq> 0" "ps_paths ps_new = []" by (simp_all add: example_store_def ps_new_def)
  then show ?thesis
    using scanned_tree_loads_back [OF trims_trim_spaces, of "[Directory ''d 1'', RegularFile ''d 1/x'' 7]" example_store "''t''" ps_new]
    by simp
qed

text \<open>
  C3: Loading a custom tree and taking every worker's share divides the data set: when the tree file's
  files can be loaded and have distinct paths, loading succeeds, every worker gets its path stores,
  and every byte of every file of the tree, whether the file is shared between workers or not, is
  in the list of exactly one worker. This holds for contiguous and for round-robin sharing and with
  any shuffling of the workers' lists.
\<close>

theorem custom_tree_bytes_partition:
  fixes pa :: prog_args
  assumes "pa_treeFilePath pa \<noteq> []" "pa_runReadPhase pa \<or> pa_runCreateFilesPhase pa"
    and "\<not> pa_runCreateDirsPhase pa" "\<not> pa_runDeleteDirsPhase pa"
    and "pa_customTree pa = \<lparr>ct_dirs = ps_new, ct_filesNonShared = ps_new, ct_filesShared = ps_new\<rparr>"
    and "ps_loadFilesFromFile trim fs (pa_treeFilePath pa) 0 (- 1) (pa_treeRoundUpSize pa)
      (ps_new\<lparr>ps_blockSize := pa_blockSize pa\<rparr>) = Inr alls"
    and "pa_blockSize pa \<noteq> 0" "\<not> tree_split_per_service pa" "pa_fileShareSize pa \<noteq> 0"
    and threads: "0 < unat (pa_numDataSetThreads pa)" "unat (pa_numDataSetThreads pa) < 2 ^ 32"
    and dio: "pa_noDirectIOCheck pa \<or> \<not> pa_useDirectIO pa \<or> \<not> pa_useRandomOffsets pa"
    and dist: "distinct (map pe_path (ps_paths alls))"
    and small: "blocks_sum (pa_blockSize pa) (ps_paths alls) < W64"
      "length (ps_paths alls) + unat (pa_numDataSetThreads pa) < W64"
    and rr: "pa_useCustomTreeRoundRobin pa \<longrightarrow>
      (\<forall>p \<in> set (ps_paths alls). nfb (pa_blockSize pa) p * unat (pa_blockSize pa) < W64)"
    and perm: "\<forall>xs. mset (shuffle xs) = mset xs"
    and e: "e \<in> set (ps_paths alls)" "x < unat (totalLen e)"
  shows "\<exists>pa' wts. loadCustomTreeFile trim fs pa = Some (Inr pa') \<and>
    (\<forall>r < unat (pa_numDataSetThreads pa). prepareCustomTreePathStores shuffle pa' (of_nat r)
       \<lparr>customTreeDirs = ps_new, customTreeFiles = ps_new\<rparr> = Some (Inr (wts r))) \<and>
    (\<exists>!r. r < unat (pa_numDataSetThreads pa) \<and> covers (customTreeFiles (wts r)) (pe_path e) x)"
proof -
  let ?bs = "pa_blockSize pa" and ?share = "pa_fileShareSize pa" and ?T = "unat (pa_numDataSetThreads pa)"
  let ?st = "ps_new\<lparr>ps_blockSize := ?bs\<rparr>"
  obtain ns sh where load: "loadCustomTreeFile trim fs pa = Some (Inr (pa\<lparr>pa_customTree :=
      \<lparr>ct_dirs = ps_new, ct_filesNonShared = ps_sortByFileSize (ps_sortByFileSize ns), ct_filesShared = sh\<rparr>\<rparr>))"
    and ns: "gained (filter (\<lambda>e. 0 \<le> totalLen e \<and> totalLen e \<le> ?share - 1) (ps_paths alls)) ?st ns"
    and sh: "gained (filter (\<lambda>e. ?share \<le> totalLen e \<and> totalLen e \<le> - 1) (ps_paths alls)) ?st sh"
    using loadCustomTreeFile_ready [OF assms(1-8)] by blast
  define pa' where "pa' = pa\<lparr>pa_customTree :=
      \<lparr>ct_dirs = ps_new, ct_filesNonShared = ps_sortByFileSize (ps_sortByFileSize ns), ct_filesShared = sh\<rparr>\<rparr>"
  define N H where "N = ps_paths (ps_sortByFileSize (ps_sortByFileSize ns))" and "H = ps_paths sh"
  have "unat (?share - 1) = unat ?share - 1" "0 < unat ?share"
    using assms(9) by (simp_all add: word_ne_0_pos unat_sub word_le_nat_alt)
  then have le1: "t \<le> ?share - 1 \<longleftrightarrow> \<not> ?share \<le> t" for t
    by (auto simp: word_le_nat_alt)
  have Hf: "H = filter (\<lambda>e. ?share \<le> totalLen e) (ps_paths alls)"
    using sh by (simp add: H_def gained_def ps_new_def word_order.extremum)
  have N: "set N = {e \<in> set (ps_paths alls). \<not> ?share \<le> totalLen e}" "distinct (map pe_path N)"
      "length N \<le> length (ps_paths alls)"
    using ns dist by (auto simp: N_def gained_def ps_new_def le1 distinct_map_filter)
  have H: "set H = {e \<in> set (ps_paths alls). ?share \<le> totalLen e}" "distinct (map pe_path H)"
    using dist by (auto simp: Hf distinct_map_filter)
  have bsH: "blocks_sum ?bs H < W64" using small(1) blocks_sum_filter_le unfolding Hf by (rule le_less_trans [rotated])
  have shok: "ps_blocks_ok sh"
    using sh H assms(7,9) bsH unat_blocks_word [OF assms(7) bsH]
    by (auto simp: ps_blocks_ok_def gained_def ps_new_def H_def)
  have ready: "tree_ready pa'"
  proof -
    have cnt: "numPaths ns = of_nat (length N)" using ns by (simp add: N_def gained_def ps_new_def)
    have len: "length N + ?T < W64" using N(3) small(2) by linarith
    have "ps_blockSize sh = ?bs" using sh by (simp add: gained_def)
    then show ?thesis
      using assms(1,8) threads dio shok rr H(1) cnt len
      by (simp add: tree_ready_def pa'_def tree_split_per_service_def N_def H_def)
  qed
  have perm': "\<And>xs. mset (shuffle xs) = mset xs" using perm by blast
  have "\<forall>r \<in> {..<?T}. \<exists>wt. prepareCustomTreePathStores shuffle pa' (of_nat r)
        \<lparr>customTreeDirs = ps_new, customTreeFiles = ps_new\<rparr> = Some (Inr wt) \<and>
      set (ps_paths (customTreeFiles wt)) = set (map ((!) N) (filter (\<lambda>j. j mod ?T = r) [0..<length N])) \<union>
        set (shared_share (pa_useCustomTreeRoundRobin pa) ?bs ?T r H)"
    using worker_tree_share [where shuffle = shuffle, OF ready _ perm'] sh
    by (simp add: pa'_def N_def H_def gained_def)
  from bchoice [OF this] obtain wts where wts: "\<forall>r < ?T. prepareCustomTreePathStores shuffle pa' (of_nat r)
        \<lparr>customTreeDirs = ps_new, customTreeFiles = ps_new\<rparr> = Some (Inr (wts r)) \<and>
      set (ps_paths (customTreeFiles (wts r))) = set (map ((!) N) (filter (\<lambda>j. j mod ?T = r) [0..<length N])) \<union>
        set (shared_share (pa_useCustomTreeRoundRobin pa) ?bs ?T r H)" by auto
  have whole: "\<forall>e \<in> set (ps_paths alls). whole_file e" using ps_loadFiles_filter [OF assms(6,7)] by blast
  have "\<exists>!r. r < ?T \<and> covers (customTreeFiles (wts r)) (pe_path e) x"
    using tree_byte_owner [OF dist whole N(1,2) H assms(7) threads(1) e, of "pa_useCustomTreeRoundRobin pa"] wts
    unfolding covers_def by (metis (no_types, lifting))
  then show ?thesis using load wts unfolding pa'_def by blast
qed

definition example_tree_args :: prog_args where
  "example_tree_args = blank_args\<lparr>pa_treeFilePath := ''t'', pa_runReadPhase := True, pa_blockSize := 4,
     pa_fileShareSize := 8, pa_numDataSetThreads := 2\<rparr>"

lemma example_tree_load:
  "ps_loadFilesFromFile trim_spaces (\<lambda>_. Some [''f 12 a'', ''f 5 b'']) ''t'' 0 (- 1) 0
     (ps_new\<lparr>ps_blockSize := 4\<rparr>) = Inr example_store"
proof -
  have w: "read_word ''f 12 a'' = (''f'', '' 12 a'')" "read_word ''f 5 b'' = (''f'', '' 5 b'')"
    by (simp_all add: read_word_def isspace_def code_def)
  have n: "read_u64 '' 12 a'' = Some (12, '' a'')" "read_u64 '' 5 b'' = Some (5, '' b'')"
    by (simp_all add: read_u64_def strip_sign_def isspace_def isdigit_def digits_value_def code_def)
  have t: "trim_spaces '' a'' = ''a''" "trim_spaces '' b'' = ''b''"
    by (simp_all add: trim_spaces_def isspace_def code_def)
  show ?thesis
    by (simp add: ps_loadFilesFromFile_def ps_checkBase64Encoding_def w n t round_up_def decode_path_def
        num_file_blocks_def ps_new_def example_store_def)
qed

theorem custom_tree_bytes_partition_witness:
  "\<exists>pa' wts. loadCustomTreeFile trim_spaces (\<lambda>_. Some [''f 12 a'', ''f 5 b'']) example_tree_args = Some (Inr pa') \<and>
    (\<forall>r < unat (2 :: u64). prepareCustomTreePathStores (\<lambda>xs. xs) pa' (of_nat r)
       \<lparr>customTreeDirs = ps_new, customTreeFiles = ps_new\<rparr> = Some (Inr (wts r))) \<and>
    (\<exists>!r. r < unat (2 :: u64) \<and> covers (customTreeFiles (wts r)) ''a'' 7)"
  using custom_tree_bytes_partition [of example_tree_args trim_spaces "\<lambda>_. Some [''f 12 a'', ''f 5 b'']"
      example_store "\<lambda>xs. xs" "\<lparr>pe_path = ''a'', totalLen = 12, rangeStart = 0, rangeLen = 12\<rparr>" 7]
    example_tree_load
  by (simp add: example_tree_args_def blank_args_def tree_split_per_service_def example_store_def nblocks_def)

end
