(* ===== verification/Journal.thy ===== *)
theory Journal
  imports RandAlgo
begin

text \<open>
  The write journal of one target (\<open>toolkits/Journal.h\<close>, \<open>toolkits/Journal.cpp\<close>) and the
  functions of \<open>LocalWorker\<close> that fill and verify buffers from it: two-bit generation cells packed
  four to a byte, the mapping of journal blocks to lock regions and stripes, the reader/writer
  stripe locks, and one I/O's life cycle (\<open>JournalBlockIO\<close>). The memory mapping is the list of its
  bytes. What \<open>msync\<close> answers and the page size are parameters. A call that has to wait for a lock
  returns the status \<open>WaitingIn\<close>, from which \<open>jio_resume\<close> goes on.
\<close>

subsection \<open>The journal and its cells\<close>

record journal =
  jn_binaryPath :: string
  jn_sidecarPath :: string
  jn_mapBase :: "u8 list"
  jn_mapLength :: u64
  jn_journalBlockSize :: u64
  jn_targetOffset :: u64
  jn_targetSize :: u64
  jn_numJournalBlocks :: u64
  jn_journalSeed :: u64
  jn_journalSyncEnabled :: bool
  jn_lockRegionShift :: u32
  jn_stripeSalt :: u64

definition cellLocation :: "u64 \<Rightarrow> u64 \<times> nat \<times> u8" where
  "cellLocation blockIndex =
     (let outShift = unat (blockIndex mod 4) * 2 in (blockIndex div 4, outShift, push_bit outShift 3))"

text \<open>A byte outside of the mapping traps.\<close>

definition map_byte :: "journal \<Rightarrow> u64 \<Rightarrow> u8 result" where
  "map_byte jn byteIdx =
     (if unat byteIdx < length (jn_mapBase jn) then Inr (jn_mapBase jn ! unat byteIdx)
      else Inl (Fault ''access outside of the journal mapping''))"

definition loadBlockGen :: "u64 \<Rightarrow> journal \<Rightarrow> u8 result" where
  "loadBlockGen journalBlockIndex jn =
     (let (byteIdx, shift, mask) = cellLocation journalBlockIndex in
      bindE (map_byte jn byteIdx) (\<lambda>byteVal. Inr (drop_bit shift (byteVal AND mask))))"

definition markBlockBusy :: "u64 \<Rightarrow> journal \<Rightarrow> journal result" where
  "markBlockBusy journalBlockIndex jn =
     (let (byteIdx, shift, mask) = cellLocation journalBlockIndex in
      bindE (map_byte jn byteIdx) (\<lambda>byteVal.
        Inr (jn\<lparr>jn_mapBase := (jn_mapBase jn)[unat byteIdx := byteVal AND NOT mask]\<rparr>)))"

definition commitBlockGen :: "u64 \<Rightarrow> u8 \<Rightarrow> journal \<Rightarrow> journal result" where
  "commitBlockGen journalBlockIndex newGen jn =
     (let (byteIdx, shift, mask) = cellLocation journalBlockIndex in
      bindE (map_byte jn byteIdx) (\<lambda>byteVal.
        Inr (jn\<lparr>jn_mapBase := (jn_mapBase jn)[unat byteIdx := byteVal OR (push_bit shift newGen AND mask)]\<rparr>)))"

definition nextGen :: "u8 \<Rightarrow> u8" where
  "nextGen prevGen = (if prevGen = 0 then 1 else prevGen mod 3 + 1)"

definition offsetToBlockIndex :: "u64 \<Rightarrow> journal \<Rightarrow> u64" where
  "offsetToBlockIndex absoluteOffset jn = (absoluteOffset - jn_targetOffset jn) div jn_journalBlockSize jn"

text \<open>\<open>msync\<close> gets the start and the length of the bytes to make durable and answers whether it succeeded.\<close>

record sync_env =
  se_pageSize :: u64
  se_msync :: "u64 \<Rightarrow> u64 \<Rightarrow> bool"

definition syncRange :: "sync_env \<Rightarrow> u64 \<Rightarrow> u64 \<Rightarrow> journal \<Rightarrow> unit result" where
  "syncRange env firstBlockIdx numBlocks jn =
     (if \<not> jn_journalSyncEnabled jn then Inr ()
      else
        let startByteIdx = firstBlockIdx div 4;
            endByteIdx = min ((firstBlockIdx + numBlocks + 3) div 4) (jn_mapLength jn);
            pageAlignedStart = (startByteIdx div se_pageSize env) * se_pageSize env
        in if se_msync env pageAlignedStart (endByteIdx - pageAlignedStart) then Inr ()
           else Inl (ProgException ''Unable to msync journal. ''))"

subsection \<open>The expected content of a block\<close>

definition xorshift33 :: "u64 \<Rightarrow> u64" where
  "xorshift33 x = x XOR drop_bit 33 x"

definition computeExpectedTileValue :: "u64 \<Rightarrow> u64 \<Rightarrow> u8 \<Rightarrow> u64" where
  "computeExpectedTileValue blockAlignedOffset journalSeed generation =
     (let x = blockAlignedOffset XOR (journalSeed * 0x9E3779B97F4A7C15) XOR (ucast generation * 0xBF58476D1CE4E5B9);
          x = xorshift33 x * 0xFF51AFD7ED558CCD;
          x = xorshift33 x * 0xC4CEB9FE1A85EC53
      in xorshift33 x)"

text \<open>\<open>LocalWorker::journalFillTileBlock\<close>: the bytes that it stores.\<close>

definition journalFillTileBlock :: "nat \<Rightarrow> u64 \<Rightarrow> u64 \<Rightarrow> u8 \<Rightarrow> u8 list" where
  "journalFillTileBlock len blockAlignedOffset journalSeed generation =
     (let tileBytes = le_bytes (computeExpectedTileValue blockAlignedOffset journalSeed generation)
      in map (\<lambda>i. tileBytes ! (i mod 8)) [0..<len])"

subsection \<open>Sharing of stripe locks\<close>

definition NUM_STRIPES :: nat where
  "NUM_STRIPES = 65536"

definition NUM_STRIPES_SHIFT :: nat where
  "NUM_STRIPES_SHIFT = 16"

definition blockIndexToStripe :: "u64 \<Rightarrow> journal \<Rightarrow> nat" where
  "blockIndexToStripe journalBlockIndex jn =
     (let regionIdx = drop_bit (unat (jn_lockRegionShift jn)) journalBlockIndex XOR jn_stripeSalt jn
      in unat (drop_bit (64 - NUM_STRIPES_SHIFT) (regionIdx * 0x9E3779B97F4A7C15)))"

text \<open>
  The search for the region size; shifting by 64 bits or more is undefined, which the trap
  stands for.
\<close>

function region_shift_loop :: "u64 \<Rightarrow> nat \<Rightarrow> nat result" where
  "region_shift_loop maxBlocksPerIO lockRegionShift =
     (if 64 \<le> lockRegionShift then Inl (Fault ''shift by the width of the type'')
      else if push_bit lockRegionShift 1 < maxBlocksPerIO then region_shift_loop maxBlocksPerIO (lockRegionShift + 1)
      else Inr lockRegionShift)"
  by pat_completeness auto
termination
  by (relation "measure (\<lambda>(_, k). 64 - k)") auto

declare region_shift_loop.simps [simp del]

definition initRunOptions :: "u64 \<Rightarrow> bool \<Rightarrow> journal \<Rightarrow> journal result" where
  "initRunOptions maxIOSize journalSyncEnabled jn =
     (if jn_journalBlockSize jn = 0 then Inl (Fault ''division by zero'')
      else
        let maxBlocksPerIO = (maxIOSize + jn_journalBlockSize jn - 1) div jn_journalBlockSize jn
        in bindE (region_shift_loop maxBlocksPerIO 0) (\<lambda>lockRegionShift.
             Inr (jn\<lparr>jn_journalSyncEnabled := journalSyncEnabled,
                     jn_lockRegionShift := of_nat lockRegionShift,
                     jn_stripeSalt := jn_journalSeed jn\<rparr>)))"

text \<open>A \<open>std::shared_mutex\<close> is held exclusively or shared by a number of holders, free at none.\<close>

datatype shared_mutex = Exclusive | Shared nat

fun try_lock :: "shared_mutex \<Rightarrow> shared_mutex option" where
  "try_lock (Shared 0) = Some Exclusive"
| "try_lock _ = None"

fun try_lock_shared :: "shared_mutex \<Rightarrow> shared_mutex option" where
  "try_lock_shared (Shared n) = Some (Shared (Suc n))"
| "try_lock_shared Exclusive = None"

fun unlock :: "shared_mutex \<Rightarrow> shared_mutex" where
  "unlock _ = Shared 0"

fun unlock_shared :: "shared_mutex \<Rightarrow> shared_mutex" where
  "unlock_shared (Shared n) = Shared (n - 1)"
| "unlock_shared Exclusive = Exclusive"

type_synonym stripe_locks = "nat \<Rightarrow> shared_mutex"

text \<open>\<open>JournalRangeGuard\<close>: the stripes wanted, in locking order, and how many of them are held.\<close>

record journal_range_guard =
  gd_locks :: "nat list"
  gd_numLocks :: nat
  gd_isExclusive :: bool

definition guard_new :: journal_range_guard where
  "guard_new = \<lparr>gd_locks = [], gd_numLocks = 0, gd_isExclusive = False\<rparr>"

definition unlock_stripe :: "bool \<Rightarrow> nat \<Rightarrow> stripe_locks \<Rightarrow> stripe_locks" where
  "unlock_stripe isExclusive l L = L(l := (if isExclusive then unlock (L l) else unlock_shared (L l)))"

definition guard_release :: "journal_range_guard \<Rightarrow> stripe_locks \<Rightarrow> journal_range_guard \<times> stripe_locks" where
  "guard_release g L =
     (g\<lparr>gd_numLocks := 0\<rparr>, fold (unlock_stripe (gd_isExclusive g)) (take (gd_numLocks g) (gd_locks g)) L)"

datatype acquire_status = Acquired | Refused | Waiting

text \<open>The loop over the wanted locks from the first that is not held yet.\<close>

fun acquire_loop :: "bool \<Rightarrow> nat list \<Rightarrow> journal_range_guard \<Rightarrow> stripe_locks \<Rightarrow> acquire_status \<times> journal_range_guard \<times> stripe_locks" where
  "acquire_loop mayBlock [] g L = (Acquired, g, L)"
| "acquire_loop mayBlock (l # ls) g L =
     (case (if gd_isExclusive g then try_lock (L l) else try_lock_shared (L l)) of
        Some m \<Rightarrow> acquire_loop mayBlock ls (g\<lparr>gd_numLocks := gd_numLocks g + 1\<rparr>) (L(l := m))
      | None \<Rightarrow>
          if mayBlock then (Waiting, g, L)
          else let (g, L) = guard_release g L in (Refused, g, L))"

definition acquireRange ::
    "u64 \<Rightarrow> u64 \<Rightarrow> bool \<Rightarrow> bool \<Rightarrow> journal \<Rightarrow> stripe_locks \<Rightarrow> acquire_status \<times> journal_range_guard \<times> stripe_locks" where
  "acquireRange firstBlockIdx numBlocks isExclusive mayBlock jn L =
     (let firstStripe = blockIndexToStripe firstBlockIdx jn;
          lastStripe = blockIndexToStripe (firstBlockIdx + numBlocks - 1) jn;
          ls = min firstStripe lastStripe # (if firstStripe \<noteq> lastStripe then [max firstStripe lastStripe] else [])
      in acquire_loop mayBlock ls \<lparr>gd_locks = ls, gd_numLocks = 0, gd_isExclusive = isExclusive\<rparr> L)"

subsection \<open>One I/O\<close>

datatype jio_intent = INTENT_WRITE | INTENT_READ_SKIP_UNINIT | INTENT_READ_OR_INIT

datatype jio_action = ACTION_READ | ACTION_WRITE | ACTION_SKIP | ACTION_DEFER

text \<open>\<open>io_journal\<close> is the number of the journal in the store that the pointer refers to.\<close>

record journal_block_io =
  io_journal :: nat
  io_baseBlockIdx :: u64
  io_numBlocks :: u64
  io_action :: jio_action
  io_gens :: "u8 list"
  io_guard :: journal_range_guard

definition jio_new :: journal_block_io where
  "jio_new = \<lparr>io_journal = 0, io_baseBlockIdx = 0, io_numBlocks = 0, io_action = ACTION_SKIP, io_gens = [],
              io_guard = guard_new\<rparr>"

definition jio_isWrite :: "journal_block_io \<Rightarrow> bool" where
  "jio_isWrite io \<longleftrightarrow> io_action io = ACTION_WRITE"

text \<open>What a call came to: it returned, waits for a lock (to write, or to read with an intent), or threw.\<close>

datatype jio_wait = WaitToWrite | WaitToRead jio_intent

datatype jio_status = Returned jio_action | WaitingIn jio_wait | Raised exn

type_synonym jio_outcome = "jio_status \<times> journal_block_io \<times> journal \<times> stripe_locks"

fun stamp_loop :: "u64 \<Rightarrow> nat list \<Rightarrow> bool \<Rightarrow> u8 list \<Rightarrow> journal \<Rightarrow> exn option \<times> bool \<times> u8 list \<times> journal" where
  "stamp_loop baseBlockIdx [] anyWasVerifiable gens jn = (None, anyWasVerifiable, gens, jn)"
| "stamp_loop baseBlockIdx (i # is) anyWasVerifiable gens jn =
     (case loadBlockGen (baseBlockIdx + of_nat i) jn of
        Inl ex \<Rightarrow> (Some ex, anyWasVerifiable, gens, jn)
      | Inr oldGen \<Rightarrow>
          (let gens = gens[i := nextGen oldGen]; anyWasVerifiable = (anyWasVerifiable \<or> oldGen \<noteq> 0) in
           case markBlockBusy (baseBlockIdx + of_nat i) jn of
             Inl ex \<Rightarrow> (Some ex, anyWasVerifiable, gens, jn)
           | Inr jn \<Rightarrow> stamp_loop baseBlockIdx is anyWasVerifiable gens jn))"

text \<open>\<open>claimForWrite\<close>, from where the exclusive locks are held, and the whole of it.\<close>

definition claim_locked :: "sync_env \<Rightarrow> journal_block_io \<Rightarrow> journal \<Rightarrow> stripe_locks \<Rightarrow> jio_outcome" where
  "claim_locked env io jn L =
     (case stamp_loop (io_baseBlockIdx io) [0..<unat (io_numBlocks io)] False (io_gens io) jn of
        (Some ex, _, gens, jn) \<Rightarrow> (Raised ex, io\<lparr>io_gens := gens\<rparr>, jn, L)
      | (None, anyWasVerifiable, gens, jn) \<Rightarrow>
          (let io = io\<lparr>io_gens := gens\<rparr> in
           case (if anyWasVerifiable then syncRange env (io_baseBlockIdx io) (io_numBlocks io) jn else Inr ()) of
             Inl ex \<Rightarrow> (Raised ex, io, jn, L)
           | Inr _ \<Rightarrow> (Returned ACTION_WRITE, io\<lparr>io_action := ACTION_WRITE\<rparr>, jn, L)))"

definition claim_after ::
    "sync_env \<Rightarrow> journal_block_io \<Rightarrow> journal \<Rightarrow> acquire_status \<times> journal_range_guard \<times> stripe_locks \<Rightarrow> jio_outcome" where
  "claim_after env io jn acq =
     (case acq of (st, g, L) \<Rightarrow>
        (case st of
           Refused \<Rightarrow> (Returned ACTION_DEFER, io\<lparr>io_guard := g\<rparr>, jn, L)
         | Waiting \<Rightarrow> (WaitingIn WaitToWrite, io\<lparr>io_guard := g\<rparr>, jn, L)
         | Acquired \<Rightarrow> claim_locked env (io\<lparr>io_guard := g\<rparr>) jn L))"

definition claimForWrite :: "sync_env \<Rightarrow> bool \<Rightarrow> journal_block_io \<Rightarrow> journal \<Rightarrow> stripe_locks \<Rightarrow> jio_outcome" where
  "claimForWrite env mayBlock io jn L =
     claim_after env io jn (acquireRange (io_baseBlockIdx io) (io_numBlocks io) True mayBlock jn L)"

fun snapshot_loop :: "u64 \<Rightarrow> nat list \<Rightarrow> u8 list \<Rightarrow> journal \<Rightarrow> exn option \<times> u8 list" where
  "snapshot_loop baseBlockIdx [] gens jn = (None, gens)"
| "snapshot_loop baseBlockIdx (i # is) gens jn =
     (case loadBlockGen (baseBlockIdx + of_nat i) jn of
        Inl ex \<Rightarrow> (Some ex, gens)
      | Inr gen \<Rightarrow> snapshot_loop baseBlockIdx is (gens[i := gen]) jn)"

text \<open>
  The part of \<open>begin\<close> from where the shared locks are held. The flags \<open>anyUninit\<close> and
  \<open>allUninit\<close> of the loop are over the generations that the loop stored, so they are computed
  from these.
\<close>

definition read_locked :: "sync_env \<Rightarrow> jio_intent \<Rightarrow> bool \<Rightarrow> journal_block_io \<Rightarrow> journal \<Rightarrow> stripe_locks \<Rightarrow> jio_outcome" where
  "read_locked env intent mayBlock io jn L =
     (case snapshot_loop (io_baseBlockIdx io) [0..<unat (io_numBlocks io)] (io_gens io) jn of
        (Some ex, gens) \<Rightarrow> (Raised ex, io\<lparr>io_gens := gens\<rparr>, jn, L)
      | (None, gens) \<Rightarrow>
          (let io = io\<lparr>io_gens := gens\<rparr>;
               anyUninit = (\<exists>i < unat (io_numBlocks io). gens ! i = 0);
               allUninit = (\<forall>i < unat (io_numBlocks io). gens ! i = 0)
           in if \<not> anyUninit then (Returned ACTION_READ, io\<lparr>io_action := ACTION_READ\<rparr>, jn, L)
              else if intent = INTENT_READ_SKIP_UNINIT
              then
                if allUninit
                then let (g, L) = guard_release (io_guard io) L
                     in (Returned ACTION_SKIP, io\<lparr>io_guard := g, io_action := ACTION_SKIP\<rparr>, jn, L)
                else (Returned ACTION_READ, io\<lparr>io_action := ACTION_READ\<rparr>, jn, L)
              else let (g, L) = guard_release (io_guard io) L
                   in claimForWrite env mayBlock (io\<lparr>io_guard := g\<rparr>) jn L))"

definition read_after ::
    "sync_env \<Rightarrow> jio_intent \<Rightarrow> bool \<Rightarrow> journal_block_io \<Rightarrow> journal \<Rightarrow>
     acquire_status \<times> journal_range_guard \<times> stripe_locks \<Rightarrow> jio_outcome" where
  "read_after env intent mayBlock io jn acq =
     (case acq of (st, g, L) \<Rightarrow>
        (case st of
           Refused \<Rightarrow> (Returned ACTION_DEFER, io\<lparr>io_guard := g\<rparr>, jn, L)
         | Waiting \<Rightarrow> (WaitingIn (WaitToRead intent), io\<lparr>io_guard := g\<rparr>, jn, L)
         | Acquired \<Rightarrow> read_locked env intent mayBlock (io\<lparr>io_guard := g\<rparr>) jn L))"

definition jio_setup :: "nat \<Rightarrow> u64 \<Rightarrow> u64 \<Rightarrow> journal_block_io \<Rightarrow> journal \<Rightarrow> journal_block_io" where
  "jio_setup j absoluteOffset ioLen io jn =
     (let journalBlockSize = jn_journalBlockSize jn;
          numBlocks = (ioLen + journalBlockSize - 1) div journalBlockSize;
          n = unat numBlocks
      in io\<lparr>io_journal := j, io_baseBlockIdx := offsetToBlockIndex absoluteOffset jn, io_numBlocks := numBlocks,
            io_gens := take n (io_gens io) @ replicate (n - length (io_gens io)) 0\<rparr>)"

definition jio_begin ::
    "sync_env \<Rightarrow> nat \<Rightarrow> u64 \<Rightarrow> u64 \<Rightarrow> jio_intent \<Rightarrow> bool \<Rightarrow> journal_block_io \<Rightarrow> journal \<Rightarrow> stripe_locks \<Rightarrow> jio_outcome" where
  "jio_begin env j absoluteOffset ioLen intent mayBlock io jn L =
     (if jn_journalBlockSize jn = 0 then (Raised (Fault ''division by zero''), io, jn, L)
      else
        let io = jio_setup j absoluteOffset ioLen io jn in
        if intent = INTENT_WRITE then claimForWrite env mayBlock io jn L
        else read_after env intent mayBlock io jn
               (acquireRange (io_baseBlockIdx io) (io_numBlocks io) False mayBlock jn L))"

text \<open>Going on in \<open>lock()\<close> of the lock that was waited for.\<close>

definition jio_resume :: "sync_env \<Rightarrow> jio_wait \<Rightarrow> journal_block_io \<Rightarrow> journal \<Rightarrow> stripe_locks \<Rightarrow> jio_outcome" where
  "jio_resume env w io jn L =
     (let g = io_guard io; acq = acquire_loop True (drop (gd_numLocks g) (gd_locks g)) g L in
      case w of
        WaitToWrite \<Rightarrow> claim_after env io jn acq
      | WaitToRead intent \<Rightarrow> read_after env intent True io jn acq)"

definition jio_release :: "journal_block_io \<Rightarrow> stripe_locks \<Rightarrow> journal_block_io \<times> stripe_locks" where
  "jio_release io L = (let (g, L) = guard_release (io_guard io) L in (io\<lparr>io_guard := g\<rparr>, L))"

fun commit_loop :: "u64 \<Rightarrow> nat list \<Rightarrow> u8 list \<Rightarrow> journal \<Rightarrow> exn option \<times> journal" where
  "commit_loop baseBlockIdx [] gens jn = (None, jn)"
| "commit_loop baseBlockIdx (i # is) gens jn =
     (case commitBlockGen (baseBlockIdx + of_nat i) (gens ! i) jn of
        Inl ex \<Rightarrow> (Some ex, jn)
      | Inr jn \<Rightarrow> commit_loop baseBlockIdx is gens jn)"

definition jio_commit ::
    "sync_env \<Rightarrow> journal_block_io \<Rightarrow> journal \<Rightarrow> stripe_locks \<Rightarrow> exn option \<times> journal_block_io \<times> journal \<times> stripe_locks" where
  "jio_commit env io jn L =
     (case
        (if io_action io = ACTION_WRITE
         then case commit_loop (io_baseBlockIdx io) [0..<unat (io_numBlocks io)] (io_gens io) jn of
                (Some ex, jn) \<Rightarrow> (Some ex, jn)
              | (None, jn) \<Rightarrow>
                  (case syncRange env (io_baseBlockIdx io) (io_numBlocks io) jn of Inl ex \<Rightarrow> (Some ex, jn) | Inr _ \<Rightarrow> (None, jn))
         else (None, jn))
      of (Some ex, jn) \<Rightarrow> (Some ex, io, jn, L)
       | (None, jn) \<Rightarrow> (let (io, L) = jio_release io L in (None, io, jn, L)))"

subsection \<open>The verifiable part of a journal\<close>

definition popcount :: "'a::len word \<Rightarrow> nat" where
  "popcount w = length (filter (bit w) [0..<LENGTH('a)])"

definition le_word :: "u8 list \<Rightarrow> u64" where
  "le_word bs = foldr (\<lambda>b w. ucast b OR push_bit 8 w) bs 0"

fun verifiable_bytes :: "u8 list \<Rightarrow> nat" where
  "verifiable_bytes [] = 0"
| "verifiable_bytes (byteVal # bs) = popcount ((byteVal OR drop_bit 1 byteVal) AND 0x55) + verifiable_bytes bs"

text \<open>
  The count of \<open>getVerifiablePercent\<close>, eight bytes at a time as long as there are eight. The number
  stays below the number of cells, so the 64-bit counter of the code does not wrap; the final division
  in floating point is left out.
\<close>

function verifiable_words :: "u8 list \<Rightarrow> nat" where
  "verifiable_words bs =
     (if 8 \<le> length bs
      then let wordVal = le_word (take 8 bs)
           in popcount ((wordVal OR drop_bit 1 wordVal) AND 0x5555555555555555) + verifiable_words (drop 8 bs)
      else verifiable_bytes bs)"
  by pat_completeness auto
termination
  by (relation "measure length") auto

declare verifiable_words.simps [simp del]

definition numVerifiable :: "journal \<Rightarrow> nat" where
  "numVerifiable jn = (if jn_numJournalBlocks jn = 0 then 0 else verifiable_words (jn_mapBase jn))"

subsection \<open>Buffers of a journaled I/O\<close>

text \<open>
  \<open>LocalWorker::preWriteJournalFillBuf\<close> and \<open>LocalWorker::postReadJournalVerifyBuf\<close>, with the
  buffer as the list of its bytes. The loops advance by the journal block size, at most to the end
  of the buffer.
\<close>

function journal_fill_loop :: "journal \<Rightarrow> u8 list \<Rightarrow> u64 \<Rightarrow> nat \<Rightarrow> nat \<Rightarrow> u8 list" where
  "journal_fill_loop jn gens fileOffset bufLen numBytesDone =
     (if numBytesDone < bufLen \<and> jn_journalBlockSize jn \<noteq> 0
      then
        let subBlockIdx = numBytesDone div unat (jn_journalBlockSize jn);
            subBlockCopyLen = min (bufLen - numBytesDone) (unat (jn_journalBlockSize jn))
        in journalFillTileBlock subBlockCopyLen (fileOffset + of_nat numBytesDone) (jn_journalSeed jn) (gens ! subBlockIdx) @
           journal_fill_loop jn gens fileOffset bufLen (numBytesDone + subBlockCopyLen)
      else [])"
  by pat_completeness auto
termination
  by (relation "measure (\<lambda>(jn, gens, fileOffset, bufLen, numBytesDone). bufLen - numBytesDone)") (auto simp: word_ne_0_pos min_def)

declare journal_fill_loop.simps [simp del]

definition preWriteJournalFillBuf :: "journal_block_io \<Rightarrow> journal \<Rightarrow> u64 \<Rightarrow> u8 list \<Rightarrow> u8 list result" where
  "preWriteJournalFillBuf activeJournalIO jn fileOffset hostIOBuf =
     (if \<not> jio_isWrite activeJournalIO then Inr hostIOBuf
      else if jn_journalBlockSize jn = 0 \<and> hostIOBuf \<noteq> [] then Inl (Fault ''division by zero'')
      else Inr (journal_fill_loop jn (io_gens activeJournalIO) fileOffset (length hostIOBuf) 0))"

function journal_verify_loop :: "journal \<Rightarrow> u8 list \<Rightarrow> u64 \<Rightarrow> u8 list \<Rightarrow> nat \<Rightarrow> unit result" where
  "journal_verify_loop jn gens fileOffset hostIOBuf numBytesDone =
     (if numBytesDone < length hostIOBuf \<and> jn_journalBlockSize jn \<noteq> 0
      then
        let subBlockIdx = numBytesDone div unat (jn_journalBlockSize jn);
            subBlockCopyLen = min (length hostIOBuf - numBytesDone) (unat (jn_journalBlockSize jn));
            generation = gens ! subBlockIdx
        in if generation = 0 then journal_verify_loop jn gens fileOffset hostIOBuf (numBytesDone + subBlockCopyLen)
           else if take subBlockCopyLen (drop numBytesDone hostIOBuf) \<noteq>
             journalFillTileBlock subBlockCopyLen (fileOffset + of_nat numBytesDone) (jn_journalSeed jn) generation
           then Inl (WorkerException ''Journal data verification failed. '')
           else journal_verify_loop jn gens fileOffset hostIOBuf (numBytesDone + subBlockCopyLen)
      else Inr ())"
  by pat_completeness auto
termination
  by (relation "measure (\<lambda>(jn, gens, fileOffset, hostIOBuf, numBytesDone). length hostIOBuf - numBytesDone)") (auto simp: word_ne_0_pos min_def)

declare journal_verify_loop.simps [simp del]

definition postReadJournalVerifyBuf :: "journal_block_io \<Rightarrow> journal \<Rightarrow> u64 \<Rightarrow> u8 list \<Rightarrow> unit result" where
  "postReadJournalVerifyBuf activeJournalIO jn fileOffset hostIOBuf =
     (if jio_isWrite activeJournalIO then Inr ()
      else if jn_journalBlockSize jn = 0 \<and> hostIOBuf \<noteq> [] then Inl (Fault ''division by zero'')
      else journal_verify_loop jn (io_gens activeJournalIO) fileOffset hostIOBuf 0)"

subsection \<open>Cells as an array of generations\<close>

text \<open>The generation in cell \<open>b\<close> of the mapped bytes.\<close>

definition cell :: "u8 list \<Rightarrow> nat \<Rightarrow> u8" where
  "cell bs b = drop_bit (2 * (b mod 4)) (bs ! (b div 4)) AND 3"

text \<open>The mapping has a cell for every journal block.\<close>

definition jn_covers :: "journal \<Rightarrow> bool" where
  "jn_covers jn \<longleftrightarrow> unat (jn_numJournalBlocks jn) \<le> 4 * length (jn_mapBase jn)"

lemma bit_3_u8: "bit (3 :: u8) n \<longleftrightarrow> n < 2"
proof -
  have m: "(3 :: u8) = mask 2" by (simp add: mask_eq_exp_minus_1)
  show ?thesis unfolding m bit_mask_iff by auto
qed

lemma bit_cell_mask: "bit (push_bit s 3 :: u8) n \<longleftrightarrow> s \<le> n \<and> n < s + 2 \<and> n < 8"
  unfolding bit_push_bit_iff bit_3_u8 by auto

lemma bit_cell: "bit (cell bs b) n \<longleftrightarrow> n < 2 \<and> bit (bs ! (b div 4)) (2 * (b mod 4) + n)"
  unfolding cell_def bit_and_iff bit_drop_bit_eq comp_def bit_3_u8 by (auto simp: add.commute)

lemma cell_le_3: "unat (cell bs b) \<le> 3"
proof -
  have "cell bs b = take_bit 2 (cell bs b)"
    by (rule bit_word_eqI) (auto simp: bit_cell bit_take_bit_iff)
  then have "unat (cell bs b) = take_bit 2 (unat (cell bs b))" by (metis unsigned_take_bit_eq)
  moreover have "take_bit 2 (unat (cell bs b)) < 2 ^ 2" by (rule take_bit_nat_less_exp)
  ultimately have "unat (cell bs b) < 2 ^ 2" by argo
  then show ?thesis by simp
qed

lemma cellLocation_nat:
  assumes "b < W64"
  shows "cellLocation (of_nat b) = (of_nat (b div 4), 2 * (b mod 4), push_bit (2 * (b mod 4)) 3)"
    "unat (of_nat (b div 4) :: u64) = b div 4"
proof -
  have "unat (of_nat b :: u64) = b" using assms by (rule unat_of_nat_no)
  then have "unat (of_nat b mod 4 :: u64) = b mod 4" "unat (of_nat b div 4 :: u64) = b div 4"
    by (simp_all add: unat_mod unat_div)
  moreover show d: "unat (of_nat (b div 4) :: u64) = b div 4" using assms by (intro unat_of_nat_no) simp
  ultimately show "cellLocation (of_nat b) = (of_nat (b div 4), 2 * (b mod 4), push_bit (2 * (b mod 4)) 3)"
    by (simp add: cellLocation_def Let_def mult.commute unat_eq_iff_u64)
qed

lemma mod_4_offset: "(b :: nat) mod 4 * 2 + n < 8" if "n < 2"
proof -
  have "b mod 4 < 4" by simp
  then show ?thesis using that by linarith
qed

lemma loadBlockGen_cell:
  assumes "b < W64" "b < 4 * length (jn_mapBase jn)"
  shows "loadBlockGen (of_nat b) jn = Inr (cell (jn_mapBase jn) b)"
proof -
  have "drop_bit (2 * (b mod 4)) (x AND push_bit (2 * (b mod 4)) 3) = drop_bit (2 * (b mod 4)) x AND 3" for x :: u8
    by (rule bit_word_eqI, unfold bit_and_iff bit_drop_bit_eq comp_def bit_3_u8 bit_cell_mask)
      (use mod_4_offset [of _ b] in auto)
  then show ?thesis
    using assms by (simp add: loadBlockGen_def cellLocation_nat map_byte_def cell_def less_mult_imp_div_less mult.commute)
qed

lemma cell_busy_byte:
  assumes "b < 4 * length bs"
  shows "cell (bs[b div 4 := bs ! (b div 4) AND NOT (push_bit (2 * (b mod 4)) 3)]) c = ((cell bs)(b := 0)) c"
proof (rule bit_word_eqI)
  fix n
  have len: "b div 4 < length bs" using assms by (simp add: less_mult_imp_div_less mult.commute)
  have "2 * (c mod 4) + n < 8" if "n < 2" using mod_4_offset [OF that, of c] by linarith
  moreover have "b = c" if "b div 4 = c div 4" "b mod 4 = c mod 4" using that by (metis div_mult_mod_eq)
  ultimately show "bit (cell (bs[b div 4 := bs ! (b div 4) AND NOT (push_bit (2 * (b mod 4)) 3)]) c) n = bit (((cell bs)(b := 0)) c) n"
    using len unfolding bit_cell fun_upd_apply
    by (cases "b div 4 = c div 4"; cases "b = c") (auto simp: bit_cell bit_and_iff bit_not_iff bit_cell_mask)
qed

lemma bit_gen_small: "unat (g :: u8) \<le> 3 \<Longrightarrow> bit g n \<Longrightarrow> n < 2"
proof -
  assume "unat g \<le> 3" "bit g n"
  then have "g = take_bit 2 g" unfolding word_unat_eq_iff by (simp add: unsigned_take_bit_eq take_bit_nat_eq_self)
  then show "n < 2" using \<open>bit g n\<close> by (metis bit_take_bit_iff)
qed

lemma bit_commit_mask: "bit (push_bit s g AND push_bit s 3 :: u8) k \<longleftrightarrow> s \<le> k \<and> k < s + 2 \<and> k < 8 \<and> bit g (k - s)"
  unfolding bit_and_iff bit_cell_mask by (auto simp: bit_push_bit_iff)

lemma cell_commit_byte:
  assumes "b < 4 * length bs" "unat g \<le> 3"
  shows "cell (bs[b div 4 := bs ! (b div 4) OR (push_bit (2 * (b mod 4)) g AND push_bit (2 * (b mod 4)) 3)]) c =
    ((cell bs)(b := cell bs b OR g)) c"
proof (rule bit_word_eqI)
  fix n
  have len: "b div 4 < length bs" using assms by (simp add: less_mult_imp_div_less mult.commute)
  have "2 * (c mod 4) + n < 8" if "n < 2" using mod_4_offset [OF that, of c] by linarith
  moreover have "b = c" if "b div 4 = c div 4" "b mod 4 = c mod 4" using that by (metis div_mult_mod_eq)
  moreover have "n < 2" if "bit g n" using bit_gen_small [OF assms(2) that] .
  ultimately show "bit (cell (bs[b div 4 := bs ! (b div 4) OR (push_bit (2 * (b mod 4)) g AND push_bit (2 * (b mod 4)) 3)]) c) n =
    bit (((cell bs)(b := cell bs b OR g)) c) n"
    using len unfolding bit_cell fun_upd_apply
    by (cases "b div 4 = c div 4"; cases "b = c")
      (auto simp: bit_cell bit_or_iff bit_commit_mask)
qed

text \<open>
  The interface that an I/O uses: an array of generations with a load, a clear and a set on a
  cleared cell, each in range and without effect on other cells or on the rest of the journal.
\<close>

locale generation_cells =
  fixes cells :: "'j \<Rightarrow> nat \<Rightarrow> u8" and num_cells :: "'j \<Rightarrow> nat" and same_meta :: "'j \<Rightarrow> 'j \<Rightarrow> bool"
    and load :: "u64 \<Rightarrow> 'j \<Rightarrow> u8 result" and busy :: "u64 \<Rightarrow> 'j \<Rightarrow> 'j result" and commit :: "u64 \<Rightarrow> u8 \<Rightarrow> 'j \<Rightarrow> 'j result"
  assumes load_cell: "b < num_cells jn \<Longrightarrow> load (of_nat b) jn = Inr (cells jn b)"
    and gen_range: "unat (cells jn b) \<le> 3"
    and busy_cell: "b < num_cells jn \<Longrightarrow> \<exists>jn'. busy (of_nat b) jn = Inr jn' \<and> cells jn' = (cells jn)(b := 0) \<and> same_meta jn jn'"
    and commit_cell: "b < num_cells jn \<Longrightarrow> cells jn b = 0 \<Longrightarrow> unat g \<le> 3 \<Longrightarrow>
      \<exists>jn'. commit (of_nat b) g jn = Inr jn' \<and> cells jn' = (cells jn)(b := g) \<and> same_meta jn jn'"
    and meta_refl: "same_meta jn jn"
    and meta_trans: "same_meta jn jn' \<Longrightarrow> same_meta jn' jn'' \<Longrightarrow> same_meta jn jn''"
    and meta_num: "same_meta jn jn' \<Longrightarrow> num_cells jn' = num_cells jn"
begin

text \<open>Clearing, then setting a cell is an update of it; a reload sees the new generation.\<close>

lemma busy_commit_load:
  assumes "b < num_cells jn" "unat g \<le> 3"
  shows "\<exists>jn' jn''. busy (of_nat b) jn = Inr jn' \<and> commit (of_nat b) g jn' = Inr jn'' \<and>
    cells jn'' = (cells jn)(b := g) \<and> load (of_nat b) jn'' = Inr g \<and> same_meta jn jn''"
proof -
  obtain jn' where b: "busy (of_nat b) jn = Inr jn'" "cells jn' = (cells jn)(b := 0)" "same_meta jn jn'"
    using busy_cell [OF assms(1)] by blast
  then have "b < num_cells jn'" "cells jn' b = 0" using assms(1) meta_num [OF b(3)] by simp_all
  then obtain jn'' where c: "commit (of_nat b) g jn' = Inr jn''" "cells jn'' = (cells jn')(b := g)" "same_meta jn' jn''"
    using commit_cell [OF _ _ assms(2)] by blast
  then have "load (of_nat b) jn'' = Inr g"
    using load_cell [of b jn''] \<open>b < num_cells jn'\<close> meta_num [OF c(3)] by simp
  then show ?thesis using b c meta_trans [OF b(3) c(3)] by (intro exI) (auto simp: fun_eq_iff)
qed

end

definition jcell :: "journal \<Rightarrow> nat \<Rightarrow> u8" where
  "jcell jn = cell (jn_mapBase jn)"

definition jn_num_cells :: "journal \<Rightarrow> nat" where
  "jn_num_cells jn = min W64 (4 * length (jn_mapBase jn))"

definition jn_same_meta :: "journal \<Rightarrow> journal \<Rightarrow> bool" where
  "jn_same_meta jn jn' \<longleftrightarrow>
     (\<exists>bs. jn' = jn\<lparr>jn_mapBase := bs\<rparr> \<and> length bs = length (jn_mapBase jn))"

lemma markBlockBusy_cell:
  assumes "b < W64" "b < 4 * length (jn_mapBase jn)"
  shows "\<exists>jn'. markBlockBusy (of_nat b) jn = Inr jn' \<and> jcell jn' = (jcell jn)(b := 0) \<and> jn_same_meta jn jn'"
  using assms cell_busy_byte [OF assms(2)]
  by (auto simp: markBlockBusy_def cellLocation_nat map_byte_def less_mult_imp_div_less mult.commute jcell_def jn_same_meta_def fun_eq_iff)

lemma commitBlockGen_cell:
  assumes "b < W64" "b < 4 * length (jn_mapBase jn)" "jcell jn b = 0" "unat g \<le> 3"
  shows "\<exists>jn'. commitBlockGen (of_nat b) g jn = Inr jn' \<and> jcell jn' = (jcell jn)(b := g) \<and> jn_same_meta jn jn'"
  using assms cell_commit_byte [OF assms(2,4)]
  by (auto simp: commitBlockGen_def cellLocation_nat map_byte_def less_mult_imp_div_less mult.commute jcell_def jn_same_meta_def fun_eq_iff)

interpretation jc: generation_cells jcell jn_num_cells jn_same_meta loadBlockGen markBlockBusy commitBlockGen
proof
  show "jn_same_meta jn jn" for jn by (auto simp: jn_same_meta_def intro: exI [of _ "jn_mapBase jn"])
  show "jn_same_meta jn jn''" if "jn_same_meta jn jn'" "jn_same_meta jn' jn''" for jn jn' jn''
    using that by (auto simp: jn_same_meta_def)
  show "unat (jcell jn b) \<le> 3" for jn b unfolding jcell_def by (rule cell_le_3)
qed (auto simp: jn_num_cells_def jn_same_meta_def jcell_def [symmetric] loadBlockGen_cell
  intro: markBlockBusy_cell [unfolded jn_same_meta_def] commitBlockGen_cell [unfolded jn_same_meta_def])

subsection \<open>Expected contents\<close>

lemma xorshift33_involution [simp]: "xorshift33 (xorshift33 x) = x"
  by (rule bit_word_eqI) (auto simp: xorshift33_def bit_xor_iff bit_drop_bit_eq dest: bit_imp_le_length)

lemma mult_cancel_inverse:
  assumes "c * c' = (1 :: u64)" "x * c = y * c"
  shows "x = y"
proof -
  have "x * c * c' = y * c * c'" using assms(2) by simp
  then show ?thesis using assms(1) by (simp add: mult.assoc)
qed

lemma xor_cancel:
  assumes "a XOR c XOR d = b XOR c XOR (e :: u64)"
  shows "a XOR d = b XOR e"
proof (rule bit_word_eqI)
  fix n
  have "bit (a XOR c XOR d) n = bit (b XOR c XOR e) n" using assms by simp
  then show "bit (a XOR d) n = bit (b XOR e) n" by (auto simp: bit_xor_iff)
qed

lemma xor_cancel_right: "a XOR c = b XOR (c :: u64) \<longleftrightarrow> a = b"
  using xor_cancel [of a c 0 b 0] by auto

text \<open>The tile value determines the mixed input: the mixing steps are all invertible.\<close>

lemma tile_value_inj:
  assumes "computeExpectedTileValue a s g = computeExpectedTileValue b s h"
  shows "a XOR (ucast g * 0xBF58476D1CE4E5B9) = b XOR (ucast h * 0xBF58476D1CE4E5B9)"
proof -
  have i: "0xFF51AFD7ED558CCD * 0x4F74430C22A54005 = (1 :: u64)" "0xC4CEB9FE1A85EC53 * 0x9CB4B2F8129337DB = (1 :: u64)"
    by simp_all
  have x: "x = y" if "xorshift33 x = xorshift33 y" for x y
    using arg_cong [OF that, of xorshift33] by simp
  have "a XOR (s * 0x9E3779B97F4A7C15) XOR (ucast g * 0xBF58476D1CE4E5B9) =
    b XOR (s * 0x9E3779B97F4A7C15) XOR (ucast h * 0xBF58476D1CE4E5B9)"
    using assms unfolding computeExpectedTileValue_def Let_def
    by (blast dest: x mult_cancel_inverse [OF i(1)] mult_cancel_inverse [OF i(2)])
  then show ?thesis by (rule xor_cancel)
qed

lemma tile_value_offset_inj:
  "computeExpectedTileValue a s g = computeExpectedTileValue b s g \<longleftrightarrow> a = b"
  using tile_value_inj [of a s g b g] by (auto simp: xor_cancel_right)

lemma gen_cases: "unat (g :: u8) \<le> 3 \<Longrightarrow> g = 0 \<or> g = 1 \<or> g = 2 \<or> g = 3"
proof -
  assume "unat g \<le> 3"
  then have "unat g = 0 \<or> unat g = 1 \<or> unat g = 2 \<or> unat g = 3" by linarith
  then show ?thesis by (auto simp: word_unat_eq_iff)
qed

text \<open>
  The products of the generations differ in their three highest bits, so for offsets below
  \<open>2^61\<close> neither another offset nor another generation gives the same value.
\<close>

lemma tile_value_inj_small:
  assumes "unat g \<le> 3" "unat h \<le> 3" "unat a < 2 ^ 61" "unat b < 2 ^ 61"
  shows "computeExpectedTileValue a s g = computeExpectedTileValue b s h \<longleftrightarrow> a = b \<and> g = h"
proof
  assume eq: "computeExpectedTileValue a s g = computeExpectedTileValue b s h"
  have z: "drop_bit 61 x = 0" if "unat x < 2 ^ 61" for x :: u64
    using that by (simp add: drop_bit_eq_div word_unat_eq_iff unat_div)
  have "drop_bit 61 (ucast g * 0xBF58476D1CE4E5B9) = (drop_bit 61 (ucast h * 0xBF58476D1CE4E5B9) :: u64)"
    using arg_cong [OF tile_value_inj [OF eq], of "drop_bit 61"] z [OF assms(3)] z [OF assms(4)] by simp
  then have "g = h" using gen_cases [OF assms(1)] gen_cases [OF assms(2)] by auto
  with eq show "a = b \<and> g = h" by (simp add: tile_value_offset_inj)
qed simp

lemma nextGen_range: "unat g \<le> 3 \<Longrightarrow> unat (nextGen g) \<le> 3 \<and> nextGen g \<noteq> 0 \<and> nextGen g \<noteq> g"
  using gen_cases [of g] by (auto simp: nextGen_def)

lemma le_bytes_inj: "le_bytes x = le_bytes y \<Longrightarrow> x = y"
proof (rule bit_word_eqI)
  fix n
  assume "le_bytes x = le_bytes y" "n < LENGTH(64)"
  then have "n div 8 < 8" "(ucast (drop_bit (8 * (n div 8)) x) :: u8) = ucast (drop_bit (8 * (n div 8)) y)"
    by (auto simp: le_bytes_def)
  then have "bit (ucast (drop_bit (8 * (n div 8)) x) :: u8) (n mod 8) = bit (ucast (drop_bit (8 * (n div 8)) y) :: u8) (n mod 8)"
    by simp
  then show "bit x n = bit y n" by (simp add: bit_ucast_iff bit_drop_bit_eq)
qed

lemma length_fill_tile [simp]: "length (journalFillTileBlock len a s g) = len"
  by (simp add: journalFillTileBlock_def Let_def)

lemma fill_tile_inj:
  assumes "8 \<le> len" "journalFillTileBlock len a s g = journalFillTileBlock len b s h"
  shows "computeExpectedTileValue a s g = computeExpectedTileValue b s h"
proof -
  have "take 8 (journalFillTileBlock len a s g) = le_bytes (computeExpectedTileValue a s g)" for a g
    using assms(1) by (intro nth_equalityI) (simp_all add: journalFillTileBlock_def Let_def)
  then show ?thesis using assms(2) le_bytes_inj by metis
qed

text \<open>Block \<open>i\<close> of the content that an I/O at an offset writes.\<close>

definition io_tile :: "journal \<Rightarrow> u64 \<Rightarrow> u8 list \<Rightarrow> nat \<Rightarrow> u8 list" where
  "io_tile jn fileOffset gens i =
     journalFillTileBlock (unat (jn_journalBlockSize jn)) (fileOffset + of_nat (i * unat (jn_journalBlockSize jn)))
       (jn_journalSeed jn) (gens ! i)"

definition sub_block :: "journal \<Rightarrow> u8 list \<Rightarrow> nat \<Rightarrow> u8 list" where
  "sub_block jn buf i = take (unat (jn_journalBlockSize jn)) (drop (i * unat (jn_journalBlockSize jn)) buf)"

lemma length_io_tile [simp]: "length (io_tile jn off gens i) = unat (jn_journalBlockSize jn)"
  by (simp add: io_tile_def)

lemma block_step:
  assumes "k < n" "0 < (B :: nat)"
  shows "k * B < n * B" "min (n * B - k * B) B = B" "k * B + B = Suc k * B"
proof -
  have "Suc k * B \<le> n * B" using assms(1) by (intro mult_right_mono) simp_all
  then show "k * B < n * B" "min (n * B - k * B) B = B" "k * B + B = Suc k * B" using assms by simp_all
qed

lemma journal_fill_loop_tiles:
  assumes "jn_journalBlockSize jn \<noteq> 0" "k \<le> n"
  shows "journal_fill_loop jn gens off (n * unat (jn_journalBlockSize jn)) (k * unat (jn_journalBlockSize jn)) =
    concat (map (io_tile jn off gens) [k..<n])"
  using assms(2)
proof (induction "n - k" arbitrary: k)
  case 0
  then show ?case by (simp add: journal_fill_loop.simps)
next
  case (Suc d)
  let ?B = "unat (jn_journalBlockSize jn)"
  have B: "0 < ?B" using assms(1) by (simp add: word_ne_0_pos)
  have k: "k < n" using Suc.hyps(2) by linarith
  note e = block_step [OF k B]
  have "journal_fill_loop jn gens off (n * ?B) (Suc k * ?B) = concat (map (io_tile jn off gens) [Suc k..<n])"
    using Suc.hyps k by (intro Suc.hyps(1)) simp_all
  then show ?case
    using k B e assms(1) by (subst journal_fill_loop.simps) (simp add: Let_def io_tile_def upt_conv_Cons del: mult_Suc)
qed

lemma journal_verify_loop_iff:
  assumes "jn_journalBlockSize jn \<noteq> 0" "length buf = n * unat (jn_journalBlockSize jn)" "k \<le> n"
  shows "journal_verify_loop jn gens off buf (k * unat (jn_journalBlockSize jn)) =
    (if \<forall>i. k \<le> i \<and> i < n \<and> gens ! i \<noteq> 0 \<longrightarrow> sub_block jn buf i = io_tile jn off gens i then Inr ()
     else Inl (WorkerException ''Journal data verification failed. ''))"
  using assms(3)
proof (induction "n - k" arbitrary: k)
  case 0
  then show ?case using assms(2) by (subst journal_verify_loop.simps) simp
next
  case (Suc d)
  let ?B = "unat (jn_journalBlockSize jn)"
  have B: "0 < ?B" using assms(1) by (simp add: word_ne_0_pos)
  have k: "k < n" using Suc.hyps(2) by linarith
  note e = block_step [OF k B]
  have IH: "journal_verify_loop jn gens off buf (Suc k * ?B) =
    (if \<forall>i. Suc k \<le> i \<and> i < n \<and> gens ! i \<noteq> 0 \<longrightarrow> sub_block jn buf i = io_tile jn off gens i then Inr ()
     else Inl (WorkerException ''Journal data verification failed. ''))"
    using Suc.hyps k by (intro Suc.hyps(1)) simp_all
  have step: "journal_verify_loop jn gens off buf (k * ?B) =
    (if gens ! k \<noteq> 0 \<and> sub_block jn buf k \<noteq> io_tile jn off gens k then Inl (WorkerException ''Journal data verification failed. '')
     else journal_verify_loop jn gens off buf (Suc k * ?B))"
    using k B e assms(1,2)
    by (subst journal_verify_loop.simps) (simp add: Let_def io_tile_def sub_block_def del: mult_Suc)
  have "(\<forall>i. k \<le> i \<and> i < n \<and> gens ! i \<noteq> 0 \<longrightarrow> P i) \<longleftrightarrow> (gens ! k \<noteq> 0 \<longrightarrow> P k) \<and> (\<forall>i. Suc k \<le> i \<and> i < n \<and> gens ! i \<noteq> 0 \<longrightarrow> P i)"
    for P using k by (metis Suc_leD Suc_leI le_neq_implies_less order_refl)
  then show ?case unfolding step IH by auto
qed

subsection \<open>Lock regions\<close>

lemma region_shift_loop_result:
  assumes "unat maxBlocks \<le> 2 ^ 63" "k \<le> 63" "\<forall>i < k. 2 ^ i < unat maxBlocks"
  shows "\<exists>r. region_shift_loop maxBlocks k = Inr r \<and> k \<le> r \<and> r \<le> 63 \<and> unat maxBlocks \<le> 2 ^ r \<and> (\<forall>i < r. 2 ^ i < unat maxBlocks)"
  using assms(2,3)
proof (induction "63 - k" arbitrary: k)
  case 0
  then have "k = 63" by linarith
  moreover have "unat (push_bit 63 1 :: u64) = 2 ^ 63" by (simp add: push_bit_eq_mult)
  ultimately show ?case using assms(1) 0 by (subst region_shift_loop.simps) (simp add: word_less_nat_alt)
next
  case (Suc d)
  have p: "unat (push_bit k 1 :: u64) = 2 ^ k" using Suc(3) by (simp add: push_bit_eq_mult unat_two_power)
  show ?case
  proof (cases "push_bit k 1 < maxBlocks")
    case True
    then have "\<forall>i < Suc k. 2 ^ i < unat maxBlocks" using p Suc(4) by (simp add: word_less_nat_alt less_Suc_eq)
    then have "\<exists>r. region_shift_loop maxBlocks (Suc k) = Inr r \<and> Suc k \<le> r \<and> r \<le> 63 \<and> unat maxBlocks \<le> 2 ^ r \<and>
      (\<forall>i < r. 2 ^ i < unat maxBlocks)" using Suc(2) by (intro Suc(1)) simp_all
    then show ?thesis using True Suc(2,3) by (subst region_shift_loop.simps) auto
  next
    case False
    then show ?thesis using p Suc(3,4) by (subst region_shift_loop.simps) (simp add: word_less_nat_alt)
  qed
qed

lemma stripe_first_or_last:
  fixes a b n :: nat
  assumes "a \<le> b" "b < a + n" "n \<le> 2 ^ k"
  shows "b div 2 ^ k = a div 2 ^ k \<or> b div 2 ^ k = (a + n - 1) div 2 ^ k"
proof -
  have "a div 2 ^ k \<le> b div 2 ^ k" "b div 2 ^ k \<le> (a + n - 1) div 2 ^ k" using assms by (auto intro: div_le_mono)
  moreover have "(a + n - 1) div 2 ^ k \<le> a div 2 ^ k + 1"
  proof -
    have "a + n - 1 \<le> a + 2 ^ k" using assms(3) by linarith
    then have "(a + n - 1) div 2 ^ k \<le> (a + 2 ^ k) div 2 ^ k" by (rule div_le_mono)
    moreover have "(a + 2 ^ k) div 2 ^ k = a div 2 ^ k + 1" by (rule div_add_self2) simp
    ultimately show ?thesis by argo
  qed
  ultimately show ?thesis by linarith
qed

lemma drop_bit_of_nat_eq:
  assumes "a < W64" "b < W64"
  shows "drop_bit k (of_nat a :: u64) = drop_bit k (of_nat b) \<longleftrightarrow> a div 2 ^ k = b div 2 ^ k"
  unfolding unat_eq_iff_u64 unat_drop_bit_eq unat_of_nat_no [OF assms(1)] unat_of_nat_no [OF assms(2)]
  by (simp add: drop_bit_eq_div)

text \<open>The stripes of an I/O: its first and its last block's, in ascending order.\<close>

definition stripes :: "journal \<Rightarrow> u64 \<Rightarrow> u64 \<Rightarrow> nat list" where
  "stripes jn first num =
     (let a = blockIndexToStripe first jn; b = blockIndexToStripe (first + num - 1) jn
      in min a b # (if a \<noteq> b then [max a b] else []))"

lemma set_stripes: "set (stripes jn first num) = {blockIndexToStripe first jn, blockIndexToStripe (first + num - 1) jn}"
  by (auto simp: stripes_def Let_def min_def max_def)

lemma stripes_sorted: "sorted (stripes jn first num)" "distinct (stripes jn first num)"
  by (auto simp: stripes_def Let_def)

lemma stripes_length: "length (stripes jn first num) \<in> {1, 2}"
  by (simp add: stripes_def Let_def)

text \<open>The locks of an I/O that is not larger than a region cover every block of it.\<close>

lemma stripes_cover:
  assumes "unat first \<le> b" "b < unat first + unat num" "unat first + unat num \<le> W64"
    and "unat num \<le> 2 ^ unat (jn_lockRegionShift jn)"
  shows "blockIndexToStripe (of_nat b) jn \<in> set (stripes jn first num)"
proof -
  let ?k = "unat (jn_lockRegionShift jn)"
  have n: "0 < unat num" using assms(1,2) by linarith
  have "unat (first + (num - 1)) = unat first + (unat num - 1)"
  proof -
    have "unat (num - 1) = unat num - 1" using n by (subst unat_sub_no) (simp_all add: word_le_nat_alt)
    then show ?thesis using assms(3) n by (subst unat_add_no) simp_all
  qed
  then have last: "first + num - 1 = of_nat (unat first + unat num - 1)"
    using n assms(3) by (simp add: unat_eq_iff_u64 unat_of_nat_no add_diff_eq)
  have "b < W64" "unat first + unat num - 1 < W64" using assms(2,3) by linarith+
  then have "drop_bit ?k (of_nat b :: u64) = drop_bit ?k (of_nat (unat first)) \<or> drop_bit ?k (of_nat b :: u64) = drop_bit ?k (first + num - 1)"
    using stripe_first_or_last [OF assms(1,2,4)] drop_bit_of_nat_eq [of b "unat first" ?k] drop_bit_of_nat_eq [of b "unat first + unat num - 1" ?k]
      unat_less_W64 [of first] unfolding last by blast
  then show ?thesis unfolding set_stripes blockIndexToStripe_def Let_def by auto
qed

subsection \<open>The loops over an I/O's cells\<close>

lemma base_index: "base + of_nat i = (of_nat (unat base + i) :: u64)"
  by simp

definition clear_cells :: "nat \<Rightarrow> nat \<Rightarrow> (nat \<Rightarrow> u8) \<Rightarrow> nat \<Rightarrow> u8" where
  "clear_cells lo hi c b = (if lo \<le> b \<and> b < hi then 0 else c b)"

lemma clear_cells_step: "k < n \<Longrightarrow> clear_cells (a + Suc k) (a + n) (c(a + k := 0)) = clear_cells (a + k) (a + n) c"
  by (rule ext) (auto simp: clear_cells_def)

lemma clear_cells_empty: "clear_cells a a c = c"
  by (rule ext) (auto simp: clear_cells_def)

lemma stamp_loop_result:
  assumes "unat base + n \<le> jn_num_cells jn" "n \<le> length gens" "k \<le> n"
  shows "\<exists>any' gens' jn'. stamp_loop base [k..<n] any gens jn = (None, any', gens', jn') \<and> length gens' = length gens \<and>
    (\<forall>i < n. gens' ! i = (if k \<le> i then nextGen (jcell jn (unat base + i)) else gens ! i)) \<and>
    jcell jn' = clear_cells (unat base + k) (unat base + n) (jcell jn) \<and> jn_same_meta jn jn'"
  using assms
proof (induction "n - k" arbitrary: k any gens jn)
  case 0
  then show ?case by (simp add: clear_cells_empty jc.meta_refl)
next
  case (Suc d)
  let ?b = "unat base + k"
  have k: "k < n" "d = n - Suc k" using Suc(2) by linarith+
  from k(1) have b: "?b < jn_num_cells jn" using Suc(3) by linarith
  obtain jn1 where m: "markBlockBusy (of_nat ?b) jn = Inr jn1" "jcell jn1 = (jcell jn)(?b := 0)" "jn_same_meta jn jn1"
    using jc.busy_cell [OF b] by blast
  define g where "g = nextGen (jcell jn ?b)"
  obtain any' gens' jn' where IH: "stamp_loop base [Suc k..<n] (any \<or> jcell jn ?b \<noteq> 0) (gens[k := g]) jn1 = (None, any', gens', jn')"
    "length gens' = length gens" "\<forall>i < n. gens' ! i = (if Suc k \<le> i then nextGen (jcell jn1 (unat base + i)) else gens[k := g] ! i)"
    "jcell jn' = clear_cells (unat base + Suc k) (unat base + n) (jcell jn1)" "jn_same_meta jn1 jn'"
    using Suc(1) [of "Suc k" jn1 "gens[k := g]" "any \<or> jcell jn ?b \<noteq> 0"] Suc(2-5) k jc.meta_num [OF m(3)] by auto
  have "stamp_loop base [k..<n] any gens jn = (None, any', gens', jn')"
    using IH(1) m(1) jc.load_cell [OF b] k unfolding g_def
    by (simp add: upt_conv_Cons base_index del: of_nat_add of_nat_unat)
  moreover have "\<forall>i < n. gens' ! i = (if k \<le> i then nextGen (jcell jn (unat base + i)) else gens ! i)"
    using IH(3) m(2) Suc(4) k by (auto simp: g_def nth_list_update not_less_eq_eq)
  moreover have "jcell jn' = clear_cells (unat base + k) (unat base + n) (jcell jn)"
    unfolding IH(4) m(2) by (rule clear_cells_step [OF k(1)])
  ultimately show ?case using IH(2) jc.meta_trans [OF m(3) IH(5)] by auto
qed

lemma snapshot_loop_result:
  assumes "unat base + n \<le> jn_num_cells jn" "n \<le> length gens" "k \<le> n"
  shows "\<exists>gens'. snapshot_loop base [k..<n] gens jn = (None, gens') \<and> length gens' = length gens \<and>
    (\<forall>i < n. gens' ! i = (if k \<le> i then jcell jn (unat base + i) else gens ! i))"
  using assms
proof (induction "n - k" arbitrary: k gens)
  case (Suc d)
  let ?b = "unat base + k"
  have k: "k < n" "d = n - Suc k" using Suc(2) by linarith+
  from k(1) have b: "?b < jn_num_cells jn" using Suc(3) by linarith
  obtain gens' where IH: "snapshot_loop base [Suc k..<n] (gens[k := jcell jn ?b]) jn = (None, gens')" "length gens' = length gens"
    "\<forall>i < n. gens' ! i = (if Suc k \<le> i then jcell jn (unat base + i) else gens[k := jcell jn ?b] ! i)"
    using Suc(1) [of "Suc k" "gens[k := jcell jn ?b]"] Suc(2-5) k by auto
  have "snapshot_loop base [k..<n] gens jn = (None, gens')"
    using IH(1) jc.load_cell [OF b] k by (simp add: upt_conv_Cons base_index del: of_nat_add of_nat_unat)
  moreover have "\<forall>i < n. gens' ! i = (if k \<le> i then jcell jn (unat base + i) else gens ! i)"
    using IH(3) Suc(4) k by (auto simp: nth_list_update not_less_eq_eq)
  ultimately show ?case using IH(2) by blast
qed simp

definition set_cells :: "nat \<Rightarrow> nat \<Rightarrow> nat \<Rightarrow> u8 list \<Rightarrow> (nat \<Rightarrow> u8) \<Rightarrow> nat \<Rightarrow> u8" where
  "set_cells a k n gens c b = (if a + k \<le> b \<and> b < a + n then gens ! (b - a) else c b)"

lemma commit_loop_result:
  assumes "unat base + n \<le> jn_num_cells jn" "k \<le> n"
    and "\<forall>i < n. unat (gens ! i) \<le> 3" "\<forall>i. k \<le> i \<and> i < n \<longrightarrow> jcell jn (unat base + i) = 0"
  shows "\<exists>jn'. commit_loop base [k..<n] gens jn = (None, jn') \<and> jcell jn' = set_cells (unat base) k n gens (jcell jn) \<and> jn_same_meta jn jn'"
  using assms(1,2,4)
proof (induction "n - k" arbitrary: k jn)
  case 0
  then show ?case by (auto simp: set_cells_def fun_eq_iff jc.meta_refl)
next
  case (Suc d)
  let ?b = "unat base + k"
  have k: "k < n" "d = n - Suc k" using Suc(2) by linarith+
  from k(1) have b: "?b < jn_num_cells jn" "jcell jn ?b = 0" "unat (gens ! k) \<le> 3" using Suc(3,5) assms(3) by auto
  obtain jn1 where m: "commitBlockGen (of_nat ?b) (gens ! k) jn = Inr jn1" "jcell jn1 = (jcell jn)(?b := gens ! k)" "jn_same_meta jn jn1"
    using jc.commit_cell [OF b] by blast
  obtain jn' where IH: "commit_loop base [Suc k..<n] gens jn1 = (None, jn')"
    "jcell jn' = set_cells (unat base) (Suc k) n gens (jcell jn1)" "jn_same_meta jn1 jn'"
    using Suc(1) [of "Suc k" jn1] Suc(2-5) k jc.meta_num [OF m(3)] m(2) by auto
  have "commit_loop base [k..<n] gens jn = (None, jn')"
    using IH(1) m(1) k by (simp add: upt_conv_Cons base_index del: of_nat_add of_nat_unat)
  moreover have "set_cells (unat base) (Suc k) n gens (jcell jn1) = set_cells (unat base) k n gens (jcell jn)"
    using k by (auto simp: set_cells_def m(2) fun_eq_iff)
  ultimately show ?case using IH(2) jc.meta_trans [OF m(3) IH(3)] by auto
qed

subsection \<open>Counting the verifiable blocks\<close>

lemma card_even: "card {n :: nat. n < 2 * m \<and> even n \<and> P n} = card {k. k < m \<and> P (2 * k)}"
  by (rule card_bij_eq [of "\<lambda>n. n div 2" _ _ "\<lambda>k. 2 * k"]) (auto simp: inj_on_def elim!: evenE)

lemma popcount_card: "popcount (w :: 'a::len word) = card {n. n < LENGTH('a) \<and> bit w n}"
  unfolding popcount_def by (subst distinct_card [symmetric]) (auto intro: arg_cong [where f = card])

lemma bit_alternating:
  fixes c :: "'a::len word"
  assumes "c XOR push_bit 1 c = - 1" "n < LENGTH('a)"
  shows "bit c n = even n"
  using assms(2)
proof (induction n)
  case 0
  have "bit (c XOR push_bit 1 c) 0" unfolding assms(1) by simp
  then show ?case unfolding bit_xor_iff bit_push_bit_iff by simp
next
  case (Suc n)
  have "bit (c XOR push_bit 1 c) (Suc n)" using Suc.prems unfolding assms(1) by simp
  then have "bit c (Suc n) \<noteq> bit c n" using Suc.prems unfolding bit_xor_iff bit_push_bit_iff by auto
  then show ?case using Suc by simp
qed

text \<open>The cells of a word that are not 0, in the order of its bits.\<close>

lemma popcount_pairs:
  fixes v c :: "'a::len word"
  assumes "c XOR push_bit 1 c = - 1" "LENGTH('a) = 2 * m"
  shows "popcount ((v OR drop_bit 1 v) AND c) = card {k. k < m \<and> (bit v (2 * k) \<or> bit v (2 * k + 1))}"
proof -
  have "n < LENGTH('a) \<and> bit ((v OR drop_bit 1 v) AND c) n \<longleftrightarrow> n < 2 * m \<and> even n \<and> (bit v n \<or> bit v (n + 1))" for n
    using bit_alternating [OF assms(1), of n] assms(2)
    unfolding bit_and_iff bit_or_iff bit_drop_bit_eq comp_def by (auto simp: add.commute)
  then show ?thesis unfolding popcount_card using card_even [of m "\<lambda>n. bit v n \<or> bit v (n + 1)"] by presburger
qed

lemma bit_le_word: "length bs \<le> 8 \<Longrightarrow> bit (le_word bs) n \<longleftrightarrow> n < 64 \<and> n div 8 < length bs \<and> bit (bs ! (n div 8)) (n mod 8)"
proof (induction bs arbitrary: n)
  case (Cons b bs)
  have "le_word (b # bs) = ucast b OR push_bit 8 (le_word bs)" by (simp add: le_word_def)
  then have 1: "bit (le_word (b # bs)) n \<longleftrightarrow> bit b n \<and> n < 64 \<or> 8 \<le> n \<and> n < 64 \<and> bit (le_word bs) (n - 8)"
    unfolding \<open>le_word (b # bs) = _\<close> bit_or_iff bit_push_bit_iff by (auto simp: bit_ucast_iff)
  show ?case
  proof (cases "n < 8")
    case True
    then show ?thesis using 1 by simp
  next
    case False
    then obtain m where n: "n = m + 8" by (metis add.commute le_Suc_ex not_less)
    have "\<not> bit b n" using False bit_imp_le_length [of b n] by auto
    moreover have "n div 8 = Suc (m div 8)" "n mod 8 = m mod 8" unfolding n by simp_all
    ultimately show ?thesis using 1 Cons(1) [of m] Cons(2) unfolding n by auto
  qed
qed (simp add: le_word_def)

definition verifiable_cells :: "u8 list \<Rightarrow> nat set" where
  "verifiable_cells bs = {b. b < 4 * length bs \<and> cell bs b \<noteq> 0}"

lemma cell_nonzero: "cell bs b \<noteq> 0 \<longleftrightarrow> bit (bs ! (b div 4)) (2 * (b mod 4)) \<or> bit (bs ! (b div 4)) (2 * (b mod 4) + 1)"
proof -
  have "cell bs b \<noteq> 0 \<longleftrightarrow> (\<exists>n. bit (cell bs b) n)"
    by (metis bit_0_eq bot_apply bot_bool_def bit_word_eqI)
  also have "\<dots> \<longleftrightarrow> (\<exists>n < 2. bit (bs ! (b div 4)) (2 * (b mod 4) + n))" unfolding bit_cell by blast
  also have "\<dots> \<longleftrightarrow> bit (bs ! (b div 4)) (2 * (b mod 4)) \<or> bit (bs ! (b div 4)) (2 * (b mod 4) + 1)"
    by (auto simp: less_2_cases_iff)
  finally show ?thesis .
qed

lemma finite_verifiable_cells [simp]: "finite (verifiable_cells bs)"
  by (rule finite_subset [of _ "{..<4 * length bs}"]) (auto simp: verifiable_cells_def)

text \<open>Splitting the mapping splits the count.\<close>

lemma card_verifiable_append: "card (verifiable_cells (as @ bs)) = card (verifiable_cells as) + card (verifiable_cells bs)"
proof -
  let ?f = "\<lambda>b. b + 4 * length as"
  have "cell (as @ bs) b = cell as b" if "b < 4 * length as" for b
    using that by (simp add: cell_def nth_append less_mult_imp_div_less mult.commute)
  moreover have "cell (as @ bs) (?f b) = cell bs b" for b by (simp add: cell_def nth_append)
  ultimately have "b \<in> verifiable_cells (as @ bs) \<longleftrightarrow> b \<in> verifiable_cells as \<union> ?f ` verifiable_cells bs" for b
    by (cases "b < 4 * length as") (force simp: verifiable_cells_def image_iff not_less le_iff_add add.commute)+
  then have "verifiable_cells (as @ bs) = verifiable_cells as \<union> ?f ` verifiable_cells bs" by blast
  moreover have "verifiable_cells as \<inter> ?f ` verifiable_cells bs = {}" by (auto simp: verifiable_cells_def)
  moreover have "card (?f ` verifiable_cells bs) = card (verifiable_cells bs)" by (rule card_image) (simp add: inj_on_def)
  ultimately show ?thesis by (simp add: card_Un_disjoint)
qed

lemma card_verifiable_byte: "popcount ((v OR drop_bit 1 v) AND 0x55 :: u8) = card (verifiable_cells [v])"
proof -
  have "verifiable_cells [v] = {k. k < 4 \<and> (bit v (2 * k) \<or> bit v (2 * k + 1))}"
    unfolding verifiable_cells_def cell_nonzero by auto
  moreover have "popcount ((v OR drop_bit 1 v) AND 0x55) = card {k. k < 4 \<and> (bit v (2 * k) \<or> bit v (2 * k + 1))}"
    by (rule popcount_pairs) simp_all
  ultimately show ?thesis by simp
qed

lemma card_verifiable_word:
  assumes "length bs = 8"
  shows "popcount ((le_word bs OR drop_bit 1 (le_word bs)) AND 0x5555555555555555) = card (verifiable_cells bs)"
proof -
  have "bit (le_word bs) (2 * k + j) = bit (bs ! (k div 4)) (2 * (k mod 4) + j)" if "k < 32" "j < 2" for k j
  proof -
    have "(2 * k + j) div 8 = k div 4" "(2 * k + j) mod 8 = 2 * (k mod 4) + j"
      using that(2) div_mult2_eq [of "2 * k + j" 2 4] mod_mult2_eq [of "2 * k + j" 2 4] by simp_all
    moreover have "2 * k + j < 64" "k div 4 < 8" using that by linarith+
    ultimately show ?thesis using bit_le_word [of bs "2 * k + j"] assms by (simp only:) simp
  qed
  from this [of _ 0] this [of _ 1]
  have "k < 32 \<and> (bit (le_word bs) (2 * k) \<or> bit (le_word bs) (2 * k + 1)) \<longleftrightarrow>
    k < 4 * length bs \<and> (bit (bs ! (k div 4)) (2 * (k mod 4)) \<or> bit (bs ! (k div 4)) (2 * (k mod 4) + 1))" for k
    unfolding assms by (cases "k < 32") simp_all
  then have "{k. k < 32 \<and> (bit (le_word bs) (2 * k) \<or> bit (le_word bs) (2 * k + 1))} = verifiable_cells bs"
    unfolding verifiable_cells_def cell_nonzero by blast
  moreover have "popcount ((le_word bs OR drop_bit 1 (le_word bs)) AND 0x5555555555555555) =
    card {k. k < 32 \<and> (bit (le_word bs) (2 * k) \<or> bit (le_word bs) (2 * k + 1))}"
    by (rule popcount_pairs) simp_all
  ultimately show ?thesis by argo
qed

lemma verifiable_bytes_card: "verifiable_bytes bs = card (verifiable_cells bs)"
proof (induction bs)
  case (Cons b bs)
  then show ?case using card_verifiable_append [of "[b]" bs] card_verifiable_byte [of b] by simp
qed (simp add: verifiable_cells_def)

lemma verifiable_words_card: "verifiable_words bs = card (verifiable_cells bs)"
proof (induction bs rule: verifiable_words.induct)
  case (1 bs)
  show ?case
  proof (cases "8 \<le> length bs")
    case True
    then have "card (verifiable_cells bs) = card (verifiable_cells (take 8 bs)) + card (verifiable_cells (drop 8 bs))"
      using card_verifiable_append [of "take 8 bs" "drop 8 bs"] by simp
    moreover have "length (take 8 bs) = 8" using True by simp
    moreover have "verifiable_words bs =
      popcount ((le_word (take 8 bs) OR drop_bit 1 (le_word (take 8 bs))) AND 0x5555555555555555) + verifiable_words (drop 8 bs)"
      by (subst verifiable_words.simps) (simp only: True if_True Let_def)
    ultimately show ?thesis using card_verifiable_word [of "take 8 bs"] 1 [OF True refl] by argo
  next
    case False
    then show ?thesis by (subst verifiable_words.simps) (simp add: verifiable_bytes_card)
  qed
qed

text \<open>
  C26: The count behind the percentage of verifiable blocks that a resumed journal reports, computed eight
  bytes at a time with masks and population counts, is the number of the journal's blocks that hold a
  generation, as long as the spare cells of the last byte were left at 0.
\<close>

theorem numVerifiable_counts_blocks:
  assumes "jn_covers jn" "\<forall>b. unat (jn_numJournalBlocks jn) \<le> b \<and> b < 4 * length (jn_mapBase jn) \<longrightarrow> jcell jn b = 0"
  shows "numVerifiable jn = card {b. b < unat (jn_numJournalBlocks jn) \<and> loadBlockGen (of_nat b) jn \<noteq> Inr 0}"
proof -
  let ?n = "unat (jn_numJournalBlocks jn)"
  have n: "?n < W64" "?n \<le> 4 * length (jn_mapBase jn)" using assms(1) unat_less_W64 [of "jn_numJournalBlocks jn"] by (simp_all only: jn_covers_def)
  then have "loadBlockGen (of_nat b) jn = Inr (jcell jn b)" if "b < ?n" for b
    using that by (intro jc.load_cell) (simp add: jn_num_cells_def)
  then have "{b. b < ?n \<and> loadBlockGen (of_nat b) jn \<noteq> Inr 0} = {b. b < ?n \<and> jcell jn b \<noteq> 0}" by auto
  also have "\<dots> = verifiable_cells (jn_mapBase jn)"
    using n(2) assms(2) unfolding verifiable_cells_def jcell_def [symmetric] by (auto simp: not_le [symmetric])
  finally have e: "{b. b < ?n \<and> loadBlockGen (of_nat b) jn \<noteq> Inr 0} = verifiable_cells (jn_mapBase jn)" .
  show ?thesis
  proof (cases "jn_numJournalBlocks jn = 0")
    case False
    then show ?thesis unfolding e numVerifiable_def by (simp only: if_False verifiable_words_card)
  qed (simp add: numVerifiable_def)
qed

definition example_journal :: journal where
  "example_journal =
     \<lparr>jn_binaryPath = ''t.journal'', jn_sidecarPath = ''t.journal.json'', jn_mapBase = [0x21, 0], jn_mapLength = 2,
      jn_journalBlockSize = 8, jn_targetOffset = 0, jn_targetSize = 40, jn_numJournalBlocks = 5, jn_journalSeed = 7,
      jn_journalSyncEnabled = False, jn_lockRegionShift = 0, jn_stripeSalt = 7\<rparr>"

theorem numVerifiable_counts_blocks_witness:
  "numVerifiable example_journal = card {b. b < 5 \<and> loadBlockGen (of_nat b) example_journal \<noteq> Inr 0}"
proof -
  have "jn_covers example_journal" by (simp add: jn_covers_def example_journal_def)
  moreover have "jcell example_journal b = 0" if "5 \<le> b" "b < 8" for b
  proof -
    have "b div 4 = 1" using that by linarith
    then show ?thesis by (simp add: jcell_def cell_def example_journal_def)
  qed
  ultimately show ?thesis using numVerifiable_counts_blocks [of example_journal] by (simp add: example_journal_def)
qed

text \<open>
  C25: A journaled read is accepted exactly when every block of it that holds a generation has the expected
  content. In particular, with journal blocks of at least eight bytes and offsets below \<open>2^61\<close>, a block
  whose content was written for another offset (a misplaced write), for another generation (a lost or
  stale write), or for both, is always reported.
\<close>

theorem journal_read_verification_exact:
  assumes "\<not> jio_isWrite io" "8 \<le> unat (jn_journalBlockSize jn)" "length buf = n * unat (jn_journalBlockSize jn)"
    and "\<forall>i < n. unat (io_gens io ! i) \<le> 3"
  shows "postReadJournalVerifyBuf io jn off buf =
      (if \<forall>i < n. io_gens io ! i \<noteq> 0 \<longrightarrow> sub_block jn buf i = io_tile jn off (io_gens io) i then Inr ()
       else Inl (WorkerException ''Journal data verification failed. '')) \<and>
    (\<forall>i < n. \<forall>a h. io_gens io ! i \<noteq> 0 \<and>
      sub_block jn buf i = journalFillTileBlock (unat (jn_journalBlockSize jn)) a (jn_journalSeed jn) h \<and> unat h \<le> 3 \<and>
      unat a < 2 ^ 61 \<and> unat (off + of_nat (i * unat (jn_journalBlockSize jn))) < 2 ^ 61 \<and>
      (a, h) \<noteq> (off + of_nat (i * unat (jn_journalBlockSize jn)), io_gens io ! i) \<longrightarrow>
      postReadJournalVerifyBuf io jn off buf = Inl (WorkerException ''Journal data verification failed. ''))"
proof -
  let ?o = "\<lambda>i. off + of_nat (i * unat (jn_journalBlockSize jn))"
  have B: "jn_journalBlockSize jn \<noteq> 0" using assms(2) by auto
  have q: "(\<forall>i. 0 \<le> i \<and> i < n \<and> io_gens io ! i \<noteq> 0 \<longrightarrow> P i) \<longleftrightarrow> (\<forall>i < n. io_gens io ! i \<noteq> 0 \<longrightarrow> P i)" for P by auto
  have exact: "postReadJournalVerifyBuf io jn off buf =
      (if \<forall>i < n. io_gens io ! i \<noteq> 0 \<longrightarrow> sub_block jn buf i = io_tile jn off (io_gens io) i then Inr ()
       else Inl (WorkerException ''Journal data verification failed. ''))"
    using journal_verify_loop_iff [OF B assms(3), of 0 "io_gens io" off] assms(1) B
    unfolding q by (simp add: postReadJournalVerifyBuf_def)
  have "sub_block jn buf i \<noteq> io_tile jn off (io_gens io) i"
    if "i < n" and c: "sub_block jn buf i = journalFillTileBlock (unat (jn_journalBlockSize jn)) a (jn_journalSeed jn) h"
      and h: "unat h \<le> 3" "unat a < 2 ^ 61" "unat (?o i) < 2 ^ 61" and d: "(a, h) \<noteq> (?o i, io_gens io ! i)" for i a h
  proof
    assume "sub_block jn buf i = io_tile jn off (io_gens io) i"
    then have "computeExpectedTileValue a (jn_journalSeed jn) h =
        computeExpectedTileValue (?o i) (jn_journalSeed jn) (io_gens io ! i)"
      unfolding c io_tile_def by (rule fill_tile_inj [OF assms(2)])
    with d show False
      using tile_value_inj_small [OF h(1) _ h(2,3)] assms(4) \<open>i < n\<close> by blast
  qed
  then have "\<not> (\<forall>i < n. io_gens io ! i \<noteq> 0 \<longrightarrow> sub_block jn buf i = io_tile jn off (io_gens io) i)"
    if "i < n" "io_gens io ! i \<noteq> 0" "sub_block jn buf i = journalFillTileBlock (unat (jn_journalBlockSize jn)) a (jn_journalSeed jn) h"
      "unat h \<le> 3" "unat a < 2 ^ 61" "unat (?o i) < 2 ^ 61" "(a, h) \<noteq> (?o i, io_gens io ! i)" for i a h
    using that by blast
  then show ?thesis unfolding exact by (intro conjI allI impI refl if_not_P) blast
qed

theorem journal_read_verification_exact_witness:
  "postReadJournalVerifyBuf (jio_new\<lparr>io_gens := [1, 2]\<rparr>) example_journal 8
     (journalFillTileBlock 8 32 7 3 @ journalFillTileBlock 8 16 7 2) =
   Inl (WorkerException ''Journal data verification failed. '')"
proof -
  let ?io = "jio_new\<lparr>io_gens := [1, 2]\<rparr>"
  let ?buf = "journalFillTileBlock 8 32 7 3 @ journalFillTileBlock 8 16 7 2"
  have j: "\<not> jio_isWrite ?io" "unat (jn_journalBlockSize example_journal) = 8" "jn_journalSeed example_journal = 7"
    by (simp_all add: jio_isWrite_def jio_new_def example_journal_def)
  have "\<forall>i < 2. unat (io_gens ?io ! i) \<le> 3" by (auto simp: less_2_cases_iff)
  moreover have "sub_block example_journal ?buf 0 = journalFillTileBlock 8 32 7 3"
    by (simp add: sub_block_def example_journal_def)
  ultimately show ?thesis
    using journal_read_verification_exact [of ?io example_journal ?buf 2 8, THEN conjunct2, rule_format, of 0 32 3] j by simp
qed

end
