(* ===== verification/JournalWorkers.thy ===== *)
theory JournalWorkers
  imports Journal
begin

text \<open>
  Workers that share journals: the journal operations of \<open>LocalWorker\<close> (\<open>journalBeginIO\<close>,
  \<open>journalCommitIO\<close>, \<open>journalReleaseIO\<close> and the releasing of all slots when an exception leaves the
  I/O engine), and the interleavings of any number of workers with any number of I/Os in flight as
  a step relation over the stripe locks, the journals and the contents of the targets. A step is one
  operation up to where it waits for a lock. Under the locks that it holds an operation is not
  interfered with, which the invariant shows. In flight, a write may change the bytes of its range in
  any way. It is committed after it stored any number of bytes, as \<open>rwBlockSized\<close> commits after every
  positive result, and the offsets of later I/Os may be shifted by what a write left out. A worker
  that aborts releases its locks although the kernel may still have its asynchronous writes, which
  change the target at any later time.
\<close>

subsection \<open>The operations of a worker\<close>

record journal_worker =
  journalIOSlots :: "journal_block_io list"
  journalNumGuardsHeld :: nat
  activeJournalIO :: nat

definition is_started :: "jio_status \<Rightarrow> bool" where
  "is_started st \<longleftrightarrow> st = Returned ACTION_READ \<or> st = Returned ACTION_WRITE"

text \<open>What \<open>journalBeginIO\<close> does once \<open>begin\<close> came to an outcome.\<close>

definition journal_begin_done :: "nat \<Rightarrow> jio_outcome \<Rightarrow> journal_worker \<Rightarrow> jio_status \<times> journal_worker \<times> journal \<times> stripe_locks" where
  "journal_begin_done slotIdx out w =
     (case out of (st, io, jn, L) \<Rightarrow>
        (let w = w\<lparr>journalIOSlots := (journalIOSlots w)[slotIdx := io]\<rparr> in
         (st,
          (case st of
             Returned action \<Rightarrow>
               w\<lparr>journalNumGuardsHeld := (if is_started st then journalNumGuardsHeld w + 1 else journalNumGuardsHeld w),
                 activeJournalIO := slotIdx\<rparr>
           | _ \<Rightarrow> w),
          jn, L)))"

definition journalBeginIO ::
    "sync_env \<Rightarrow> nat \<Rightarrow> nat \<Rightarrow> u64 \<Rightarrow> u64 \<Rightarrow> jio_intent \<Rightarrow> journal_worker \<Rightarrow> journal \<Rightarrow> stripe_locks \<Rightarrow>
     jio_status \<times> journal_worker \<times> journal \<times> stripe_locks" where
  "journalBeginIO env slotIdx j currentOffset ioLen intent w jn L =
     journal_begin_done slotIdx
       (jio_begin env j currentOffset ioLen intent (journalNumGuardsHeld w = 0) (journalIOSlots w ! slotIdx) jn L) w"

definition journalResumeIO ::
    "sync_env \<Rightarrow> nat \<Rightarrow> jio_wait \<Rightarrow> journal_worker \<Rightarrow> journal \<Rightarrow> stripe_locks \<Rightarrow> jio_status \<times> journal_worker \<times> journal \<times> stripe_locks" where
  "journalResumeIO env slotIdx wt w jn L = journal_begin_done slotIdx (jio_resume env wt (journalIOSlots w ! slotIdx) jn L) w"

definition journalCommitIO ::
    "sync_env \<Rightarrow> nat \<Rightarrow> journal_worker \<Rightarrow> journal \<Rightarrow> stripe_locks \<Rightarrow> exn option \<times> journal_worker \<times> journal \<times> stripe_locks" where
  "journalCommitIO env slotIdx w jn L =
     (case jio_commit env (journalIOSlots w ! slotIdx) jn L of (ex, io, jn, L) \<Rightarrow>
        (ex,
         w\<lparr>journalIOSlots := (journalIOSlots w)[slotIdx := io],
           journalNumGuardsHeld := (if ex = None then journalNumGuardsHeld w - 1 else journalNumGuardsHeld w)\<rparr>,
         jn, L))"

definition journalReleaseIO :: "nat \<Rightarrow> journal_worker \<Rightarrow> stripe_locks \<Rightarrow> journal_worker \<times> stripe_locks" where
  "journalReleaseIO slotIdx w L =
     (case jio_release (journalIOSlots w ! slotIdx) L of (io, L) \<Rightarrow>
        (w\<lparr>journalIOSlots := (journalIOSlots w)[slotIdx := io], journalNumGuardsHeld := journalNumGuardsHeld w - 1\<rparr>, L))"

text \<open>The destructor of \<open>JournalSlotsReleaser\<close>.\<close>

fun release_slots :: "journal_block_io list \<Rightarrow> stripe_locks \<Rightarrow> journal_block_io list \<times> stripe_locks" where
  "release_slots [] L = ([], L)"
| "release_slots (io # ios) L =
     (let (io, L) = jio_release io L; (ios, L) = release_slots ios L in (io # ios, L))"

definition journalReleaseSlots :: "journal_worker \<Rightarrow> stripe_locks \<Rightarrow> journal_worker \<times> stripe_locks" where
  "journalReleaseSlots w L =
     (case release_slots (journalIOSlots w) L of (ios, L) \<Rightarrow>
        (w\<lparr>journalIOSlots := ios, journalNumGuardsHeld := 0\<rparr>, L))"

subsection \<open>Many workers\<close>

text \<open>
  \<open>sy_target\<close> are the bytes of each journal's target by absolute offset. \<open>sy_inflight\<close> has the
  offset and the length of the I/O that a worker's slot has in flight, \<open>sy_waiting\<close> the slot, place,
  offset and length of the I/O for which a worker waits in \<open>lock()\<close>. \<open>sy_orphans\<close> has the journal,
  offset and length of the writes that the kernel may still perform for slots that were released.
  \<open>sy_spoiled\<close> is a record of what happened, which no step reads: the blocks of each journal that a
  write left out in part, that a write which is not of whole blocks touched, or that an orphaned
  write touches.
\<close>

record journal_system =
  sy_maxIOSize :: u64
  sy_locks :: stripe_locks
  sy_journals :: "nat \<Rightarrow> journal"
  sy_target :: "nat \<Rightarrow> nat \<Rightarrow> u8"
  sy_workers :: "nat \<Rightarrow> journal_worker"
  sy_inflight :: "nat \<times> nat \<Rightarrow> (u64 \<times> u64) option"
  sy_waiting :: "nat \<Rightarrow> (nat \<times> jio_wait \<times> u64 \<times> u64) option"
  sy_orphans :: "(nat \<times> u64 \<times> u64) set"
  sy_spoiled :: "nat \<Rightarrow> nat set"

abbreviation slot_io :: "journal_system \<Rightarrow> nat \<Rightarrow> nat \<Rightarrow> journal_block_io" where
  "slot_io s w slot \<equiv> journalIOSlots (sy_workers s w) ! slot"

text \<open>
  The I/Os that the offset generators submit: in the range that the journal was made for and not
  larger than the largest block size. They are of whole journal blocks, which the checks of the
  arguments ensure, until a write that was cut short shifts the offsets of those that follow.
\<close>

definition request_ok :: "u64 \<Rightarrow> journal \<Rightarrow> u64 \<Rightarrow> u64 \<Rightarrow> bool" where
  "request_ok maxIOSize jn off len \<longleftrightarrow>
     len \<noteq> 0 \<and> len \<le> maxIOSize \<and> jn_targetOffset jn \<le> off \<and>
     unat off + unat len \<le> unat (jn_targetOffset jn) + unat (jn_targetSize jn)"

definition whole_blocks :: "journal \<Rightarrow> u64 \<Rightarrow> u64 \<Rightarrow> bool" where
  "whole_blocks jn off len \<longleftrightarrow>
     unat (jn_journalBlockSize jn) dvd unat len \<and> unat (jn_journalBlockSize jn) dvd unat off - unat (jn_targetOffset jn)"

definition io_blocks :: "journal_block_io \<Rightarrow> nat set" where
  "io_blocks io = {unat (io_baseBlockIdx io) ..< unat (io_baseBlockIdx io) + unat (io_numBlocks io)}"

text \<open>The blocks with a byte in a range, and those of an I/O that its first bytes do not fill.\<close>

definition touched_blocks :: "journal \<Rightarrow> u64 \<Rightarrow> nat \<Rightarrow> nat set" where
  "touched_blocks jn off n =
     {b. \<exists>i < unat (jn_journalBlockSize jn).
        unat off \<le> unat (jn_targetOffset jn) + b * unat (jn_journalBlockSize jn) + i \<and>
        unat (jn_targetOffset jn) + b * unat (jn_journalBlockSize jn) + i < unat off + n}"

definition unwritten_blocks :: "journal \<Rightarrow> journal_block_io \<Rightarrow> u64 \<Rightarrow> nat \<Rightarrow> nat set" where
  "unwritten_blocks jn io off n =
     {b \<in> io_blocks io. unat off + n < unat (jn_targetOffset jn) + (b + 1) * unat (jn_journalBlockSize jn)}"

definition shifted_blocks :: "journal \<Rightarrow> journal_block_io \<Rightarrow> u64 \<Rightarrow> u64 \<Rightarrow> nat set" where
  "shifted_blocks jn io off len =
     (if jio_isWrite io \<and> \<not> whole_blocks jn off len then io_blocks io \<union> touched_blocks jn off (unat len) else {})"

definition spoil :: "nat \<Rightarrow> nat set \<Rightarrow> journal_system \<Rightarrow> journal_system" where
  "spoil j B s = s\<lparr>sy_spoiled := (\<lambda>k. if k = j then sy_spoiled s k \<union> B else sy_spoiled s k)\<rparr>"

text \<open>
  A worker aborts: an exception leaves the I/O engine, or the asynchronous engine returns after a
  short result, and \<open>JournalSlotsReleaser\<close> releases all slots. \<open>K\<close> are the slots whose I/Os the kernel
  still has: they end with \<open>io_queue_release\<close> in the cleanup of the worker at the earliest.
\<close>

definition orphaned :: "nat set \<Rightarrow> nat \<Rightarrow> journal_system \<Rightarrow> (nat \<times> u64 \<times> u64) set" where
  "orphaned K w s =
     {(io_journal (slot_io s w slot), off, len) | slot off len.
        slot \<in> K \<and> sy_inflight s (w, slot) = Some (off, len) \<and> jio_isWrite (slot_io s w slot)}"

definition orphan_blocks :: "(nat \<Rightarrow> journal) \<Rightarrow> (nat \<times> u64 \<times> u64) set \<Rightarrow> nat \<Rightarrow> nat set" where
  "orphan_blocks J X j = {b. \<exists>off len. (j, off, len) \<in> X \<and> b \<in> touched_blocks (J j) off (unat len)}"

definition abort_worker :: "nat set \<Rightarrow> nat \<Rightarrow> journal_system \<Rightarrow> journal_system" where
  "abort_worker K w s =
     (case journalReleaseSlots (sy_workers s w) (sy_locks s) of (wk, L) \<Rightarrow>
        s\<lparr>sy_workers := (sy_workers s)(w := wk), sy_locks := L,
          sy_inflight := (\<lambda>(w', slot). if w' = w then None else sy_inflight s (w', slot)),
          sy_waiting := (sy_waiting s)(w := None),
          sy_orphans := sy_orphans s \<union> orphaned K w s,
          sy_spoiled := (\<lambda>j. sy_spoiled s j \<union> orphan_blocks (sy_journals s) (orphaned K w s) j)\<rparr>)"

fun begin_result ::
    "nat set \<Rightarrow> nat \<Rightarrow> nat \<Rightarrow> nat \<Rightarrow> u64 \<Rightarrow> u64 \<Rightarrow> jio_status \<times> journal_worker \<times> journal \<times> stripe_locks \<Rightarrow> journal_system \<Rightarrow> journal_system" where
  "begin_result K w slot j off len (st, wk, jn, L) s =
     (let s = s\<lparr>sy_workers := (sy_workers s)(w := wk), sy_journals := (sy_journals s)(j := jn), sy_locks := L\<rparr> in
      case st of
        Returned action \<Rightarrow>
          s\<lparr>sy_inflight := (if is_started st then (sy_inflight s)((w, slot) := Some (off, len)) else sy_inflight s),
            sy_waiting := (sy_waiting s)(w := None),
            sy_spoiled := (\<lambda>k. if k = j \<and> is_started st then sy_spoiled s k \<union> shifted_blocks jn (slot_io s w slot) off len else sy_spoiled s k)\<rparr>
      | WaitingIn wt \<Rightarrow> s\<lparr>sy_waiting := (sy_waiting s)(w := Some (slot, wt, off, len))\<rparr>
      | Raised ex \<Rightarrow> abort_worker K w s)"

fun commit_result ::
    "nat set \<Rightarrow> nat \<Rightarrow> nat \<Rightarrow> nat \<Rightarrow> exn option \<times> journal_worker \<times> journal \<times> stripe_locks \<Rightarrow> journal_system \<Rightarrow> journal_system" where
  "commit_result K w slot j (ex, wk, jn, L) s =
     (let s = s\<lparr>sy_workers := (sy_workers s)(w := wk), sy_journals := (sy_journals s)(j := jn), sy_locks := L\<rparr> in
      if ex = None then s\<lparr>sy_inflight := (sy_inflight s)((w, slot) := None)\<rparr> else abort_worker K w s)"

definition store_bytes :: "nat \<Rightarrow> u64 \<Rightarrow> u8 list \<Rightarrow> journal_system \<Rightarrow> journal_system" where
  "store_bytes j off buf s =
     s\<lparr>sy_target := (sy_target s)(j := \<lambda>a. if unat off \<le> a \<and> a < unat off + length buf then buf ! (a - unat off) else sy_target s j a)\<rparr>"

definition load_bytes :: "journal_system \<Rightarrow> nat \<Rightarrow> u64 \<Rightarrow> u64 \<Rightarrow> u8 list" where
  "load_bytes s j off len = map (sy_target s j) [unat off..<unat off + unat len]"

definition worker_start :: "nat \<Rightarrow> journal_worker" where
  "worker_start ioDepth = \<lparr>journalIOSlots = replicate ioDepth jio_new, journalNumGuardsHeld = 0, activeJournalIO = 0\<rparr>"

definition run_start :: "(nat \<Rightarrow> nat) \<Rightarrow> u64 \<Rightarrow> (nat \<Rightarrow> journal) \<Rightarrow> (nat \<Rightarrow> nat \<Rightarrow> u8) \<Rightarrow> (nat \<Rightarrow> nat set) \<Rightarrow> journal_system" where
  "run_start ioDepth maxIOSize jns target spoiled =
     \<lparr>sy_maxIOSize = maxIOSize, sy_locks = (\<lambda>_. Shared 0), sy_journals = jns, sy_target = target,
      sy_workers = (\<lambda>w. worker_start (ioDepth w)), sy_inflight = (\<lambda>_. None), sy_waiting = (\<lambda>_. None),
      sy_orphans = {}, sy_spoiled = spoiled\<rparr>"

text \<open>
  A read passes the verification with the bytes that it loaded, behind which the buffer may have
  any older bytes. A run that is restarted has ended with its process, and with it the I/Os that the
  kernel had for it.
\<close>

inductive journal_step :: "sync_env \<Rightarrow> journal_system \<Rightarrow> journal_system \<Rightarrow> bool" for env where
  begin_io:
    "sy_waiting s w = None \<Longrightarrow> slot < length (journalIOSlots (sy_workers s w)) \<Longrightarrow> sy_inflight s (w, slot) = None \<Longrightarrow>
     request_ok (sy_maxIOSize s) (sy_journals s j) off len \<Longrightarrow>
     journal_step env s (begin_result K w slot j off len
       (journalBeginIO env slot j off len intent (sy_workers s w) (sy_journals s j) (sy_locks s)) s)"
| resume_io:
    "sy_waiting s w = Some (slot, wt, off, len) \<Longrightarrow> j = io_journal (slot_io s w slot) \<Longrightarrow>
     journal_step env s (begin_result K w slot j off len
       (journalResumeIO env slot wt (sy_workers s w) (sy_journals s j) (sy_locks s)) s)"
| write_bytes:
    "sy_inflight s (w, slot) = Some (off, len) \<Longrightarrow> jio_isWrite (slot_io s w slot) \<Longrightarrow> length buf = unat len \<Longrightarrow>
     journal_step env s (store_bytes (io_journal (slot_io s w slot)) off buf s)"
| finish_write:
    "sy_inflight s (w, slot) = Some (off, len) \<Longrightarrow> jio_isWrite (slot_io s w slot) \<Longrightarrow> j = io_journal (slot_io s w slot) \<Longrightarrow>
     length hostIOBuf = unat len \<Longrightarrow> preWriteJournalFillBuf (slot_io s w slot) (sy_journals s j) off hostIOBuf = Inr buf \<Longrightarrow>
     0 < rwRes \<Longrightarrow> rwRes \<le> unat len \<Longrightarrow>
     journal_step env s (commit_result K w slot j
       (journalCommitIO env slot (sy_workers s w) (sy_journals s j) (sy_locks s))
       (spoil j (unwritten_blocks (sy_journals s j) (slot_io s w slot) off rwRes) (store_bytes j off (take rwRes buf) s)))"
| finish_read:
    "sy_inflight s (w, slot) = Some (off, len) \<Longrightarrow> \<not> jio_isWrite (slot_io s w slot) \<Longrightarrow> j = io_journal (slot_io s w slot) \<Longrightarrow>
     length buf = unat len \<Longrightarrow> 0 < rwRes \<Longrightarrow> take rwRes buf = take rwRes (load_bytes s j off len) \<Longrightarrow>
     postReadJournalVerifyBuf (slot_io s w slot) (sy_journals s j) off buf = Inr () \<Longrightarrow>
     journal_step env s (commit_result K w slot j
       (journalCommitIO env slot (sy_workers s w) (sy_journals s j) (sy_locks s)) s)"
| fail_io:
    "sy_inflight s (w, slot) = Some (off, len) \<Longrightarrow> journalReleaseIO slot (sy_workers s w) (sy_locks s) = (wk, L) \<Longrightarrow>
     journal_step env s (s\<lparr>sy_workers := (sy_workers s)(w := wk), sy_locks := L, sy_inflight := (sy_inflight s)((w, slot) := None)\<rparr>)"
| abort:
    "sy_waiting s w = None \<Longrightarrow> journal_step env s (abort_worker K w s)"
| orphan_write:
    "(j, off, len) \<in> sy_orphans s \<Longrightarrow> length buf = unat len \<Longrightarrow> journal_step env s (store_bytes j off buf s)"
| restart:
    "unat maxIOSize < 2 ^ 63 \<Longrightarrow> (\<forall>j. initRunOptions maxIOSize sync (sy_journals s j) = Inr (jns j)) \<Longrightarrow>
     journal_step env s (run_start ioDepth maxIOSize jns (sy_target s) (sy_spoiled s))"

subsection \<open>Who holds which lock\<close>

text \<open>
  \<open>H x\<close> are the stripes that holder \<open>x\<close> holds, \<open>E x\<close> tells whether it holds them exclusively. The
  lock states agree with the holders.
\<close>

definition lock_ok :: "shared_mutex \<Rightarrow> 'x set \<Rightarrow> 'x set \<Rightarrow> bool" where
  "lock_ok m ex sh =
     (case m of
        Exclusive \<Rightarrow> (\<exists>x. ex = {x}) \<and> sh = {}
      | Shared n \<Rightarrow> ex = {} \<and> finite sh \<and> card sh = n)"

definition holders :: "('x \<Rightarrow> nat set) \<Rightarrow> ('x \<Rightarrow> bool) \<Rightarrow> bool \<Rightarrow> nat \<Rightarrow> 'x set" where
  "holders H E e l = {x. l \<in> H x \<and> E x = e}"

definition locks_ok :: "stripe_locks \<Rightarrow> ('x \<Rightarrow> nat set) \<Rightarrow> ('x \<Rightarrow> bool) \<Rightarrow> bool" where
  "locks_ok L H E \<longleftrightarrow> (\<forall>l. lock_ok (L l) (holders H E True l) (holders H E False l))"

lemma locks_ok_exclusive:
  assumes "locks_ok L H E" "l \<in> H x" "E x" "l \<in> H y"
  shows "y = x"
proof -
  have "x \<in> holders H E True l" "y \<in> holders H E (E y) l" using assms(2-4) by (auto simp: holders_def)
  moreover have "lock_ok (L l) (holders H E True l) (holders H E False l)" using assms(1) by (simp add: locks_ok_def)
  ultimately show ?thesis by (cases "L l"; cases "E y") (auto simp: lock_ok_def)
qed

lemma holders_add: "holders (H(x := insert l (H x))) E e l' = (if l' = l \<and> E x = e then insert x (holders H E e l') else holders H E e l')"
  by (auto simp: holders_def)

lemma holders_remove: "holders (H(x := H x - {l})) E e l' = (if l' = l \<and> E x = e then holders H E e l' - {x} else holders H E e l')"
  by (auto simp: holders_def)

lemma locks_ok_add:
  assumes "locks_ok L H E" "l \<notin> H x" "(if E x then try_lock (L l) else try_lock_shared (L l)) = Some m"
  shows "locks_ok (L(l := m)) (H(x := insert l (H x))) E"
proof -
  have x: "x \<notin> holders H E e l" for e using assms(2) by (simp add: holders_def)
  have o: "lock_ok (L l) (holders H E True l) (holders H E False l)" using assms(1) by (simp add: locks_ok_def)
  have "lock_ok m (if E x then insert x (holders H E True l) else holders H E True l)
    (if \<not> E x then insert x (holders H E False l) else holders H E False l)"
    using assms(3) o x by (cases "E x"; cases "L l" rule: try_lock.cases) (auto simp: lock_ok_def)
  then show ?thesis using assms(1) unfolding locks_ok_def holders_add by (cases "E x") auto
qed

lemma locks_ok_remove:
  assumes "locks_ok L H E" "l \<in> H x"
  shows "locks_ok (unlock_stripe (E x) l L) (H(x := H x - {l})) E"
proof -
  have x: "x \<in> holders H E (E x) l" using assms(2) by (simp add: holders_def)
  have o: "lock_ok (L l) (holders H E True l) (holders H E False l)" using assms(1) by (simp add: locks_ok_def)
  have "lock_ok (if E x then unlock (L l) else unlock_shared (L l)) (if E x then holders H E True l - {x} else holders H E True l)
    (if \<not> E x then holders H E False l - {x} else holders H E False l)"
    using o x by (cases "E x"; cases "L l") (auto simp: lock_ok_def)
  then show ?thesis using assms(1) unfolding locks_ok_def holders_remove unlock_stripe_def by (cases "E x") auto
qed

lemma locks_ok_remove_all:
  assumes "locks_ok L H E" "distinct ls" "set ls \<subseteq> H x"
  shows "locks_ok (fold (unlock_stripe (E x)) ls L) (H(x := H x - set ls)) E"
  using assms
proof (induction ls arbitrary: L H)
  case (Cons l ls)
  have "locks_ok (fold (unlock_stripe (E x)) ls (unlock_stripe (E x) l L)) ((H(x := H x - {l}))(x := (H(x := H x - {l})) x - set ls)) E"
  proof (rule Cons.IH)
    show "locks_ok (unlock_stripe (E x) l L) (H(x := H x - {l})) E" using Cons.prems by (intro locks_ok_remove) auto
  qed (use Cons.prems in auto)
  moreover have "(H(x := H x - {l}))(x := (H(x := H x - {l})) x - set ls) = H(x := H x - set (l # ls))"
    by (simp add: set_diff_eq)
  ultimately show ?case by (simp del: fun_upd_apply)
qed simp

lemma locks_ok_idle:
  assumes "locks_ok L H E" "H x = {}"
  shows "locks_ok L H (E(x := e))"
proof -
  have "holders H (E(x := e)) = holders H E" using assms(2) by (auto simp: holders_def fun_eq_iff)
  then show ?thesis using assms(1) by (simp add: locks_ok_def)
qed

subsection \<open>Guards\<close>

definition held :: "journal_range_guard \<Rightarrow> nat set" where
  "held g = set (take (gd_numLocks g) (gd_locks g))"

definition guard_ok :: "journal_range_guard \<Rightarrow> bool" where
  "guard_ok g \<longleftrightarrow> distinct (gd_locks g) \<and> sorted (gd_locks g) \<and> gd_numLocks g \<le> length (gd_locks g)"

definition locked_all :: "journal_range_guard \<Rightarrow> bool" where
  "locked_all g \<longleftrightarrow> gd_numLocks g = length (gd_locks g)"

text \<open>The next lock that a guard needs cannot be had now.\<close>

definition must_wait :: "journal_range_guard \<Rightarrow> stripe_locks \<Rightarrow> bool" where
  "must_wait g L \<longleftrightarrow> gd_numLocks g < length (gd_locks g) \<and>
     (let m = L (gd_locks g ! gd_numLocks g) in (if gd_isExclusive g then try_lock m else try_lock_shared m) = None)"

lemma held_release [simp]: "held (g\<lparr>gd_numLocks := 0\<rparr>) = {}"
  by (simp add: held_def)

lemma guard_release_ok:
  assumes "locks_ok L H E" "guard_ok g" "H x = held g" "E x = gd_isExclusive g" "guard_release g L = (g', L')"
  shows "locks_ok L' (H(x := {})) E" "g' = g\<lparr>gd_numLocks := 0\<rparr>"
  using assms locks_ok_remove_all [of L H E "take (gd_numLocks g) (gd_locks g)" x]
  by (auto simp: guard_release_def held_def guard_ok_def)

lemma acquire_loop_ok:
  assumes "locks_ok L H E" "guard_ok g" "ls = drop (gd_numLocks g) (gd_locks g)" "H x = held g" "E x = gd_isExclusive g"
    and "acquire_loop mayBlock ls g L = (st, g', L')"
  shows "locks_ok L' (H(x := held g')) E \<and> guard_ok g' \<and> gd_locks g' = gd_locks g \<and> gd_isExclusive g' = gd_isExclusive g \<and>
    (st = Acquired \<longrightarrow> locked_all g') \<and> (st = Refused \<longrightarrow> \<not> mayBlock \<and> gd_numLocks g' = 0) \<and>
    (st = Waiting \<longrightarrow> mayBlock \<and> gd_numLocks g \<le> gd_numLocks g' \<and> must_wait g' L')"
  using assms
proof (induction ls arbitrary: L H g)
  case Nil
  then have "H(x := held g) = H" by (intro fun_upd_idem)
  then show ?case using Nil by (auto simp: guard_ok_def locked_all_def)
next
  case (Cons l ls)
  define n where "n = gd_numLocks g"
  have d: "drop n (gd_locks g) = l # ls" using Cons.prems(3) by (simp add: n_def)
  then have n: "n < length (gd_locks g)" "gd_locks g ! n = l" "drop (Suc n) (gd_locks g) = ls"
    by (metis drop_eq_Nil not_less list.discI, metis hd_drop_conv_nth drop_eq_Nil not_less list.discI list.sel(1), metis drop_Suc tl_drop list.sel(3))
  have lx: "l \<notin> H x" "insert l (H x) = set (take (Suc n) (gd_locks g))"
    using Cons.prems(2,4) n(1,2) by (auto simp: guard_ok_def held_def n_def take_Suc_conv_app_nth distinct_conv_nth in_set_conv_nth)
  show ?case
  proof (cases "if gd_isExclusive g then try_lock (L l) else try_lock_shared (L l)")
    case None
    show ?thesis
    proof (cases mayBlock)
      case True
      then have e: "st = Waiting" "g' = g" "L' = L" using Cons.prems(6) None by simp_all
      have "H(x := held g) = H" using Cons.prems(4) by (intro fun_upd_idem)
      then show ?thesis using Cons.prems e None n True by (simp add: must_wait_def Let_def n_def)
    next
      case False
      obtain g1 L1 where r: "guard_release g L = (g1, L1)" by fastforce
      then have e: "st = Refused" "g' = g1" "L' = L1" using Cons.prems(6) None False by simp_all
      have "held g' = {}" using guard_release_ok(2) [OF Cons.prems(1,2,4,5) r] e by simp
      then show ?thesis
        using guard_release_ok [OF Cons.prems(1,2,4,5) r] Cons.prems(2) e False by (simp add: guard_ok_def del: fun_upd_apply)
    qed
  next
    case (Some m)
    let ?g = "g\<lparr>gd_numLocks := gd_numLocks g + 1\<rparr>"
    have "locks_ok (L(l := m)) (H(x := insert l (H x))) E"
      using Some Cons.prems(1,5) lx(1) by (intro locks_ok_add) simp_all
    then have "locks_ok L' ((H(x := insert l (H x)))(x := held g')) E \<and> guard_ok g' \<and> gd_locks g' = gd_locks ?g \<and>
      gd_isExclusive g' = gd_isExclusive ?g \<and> (st = Acquired \<longrightarrow> locked_all g') \<and>
      (st = Refused \<longrightarrow> \<not> mayBlock \<and> gd_numLocks g' = 0) \<and> (st = Waiting \<longrightarrow> mayBlock \<and> gd_numLocks ?g \<le> gd_numLocks g' \<and> must_wait g' L')"
    proof (rule Cons.IH)
      show "acquire_loop mayBlock ls ?g (L(l := m)) = (st, g', L')" using Cons.prems(6) Some by simp
      show "guard_ok ?g" using Cons.prems(2) n(1) by (simp add: guard_ok_def n_def)
    qed (use Cons.prems(5) n lx in \<open>simp_all add: held_def n_def\<close>)
    then show ?thesis by (auto simp del: fun_upd_apply)
  qed
qed

subsection \<open>The outcome of beginning an I/O\<close>

text \<open>The blocks of an I/O lie in the journal and fit in a lock region.\<close>

definition io_fits :: "journal \<Rightarrow> journal_block_io \<Rightarrow> bool" where
  "io_fits jn io \<longleftrightarrow>
     0 < unat (io_numBlocks io) \<and> unat (io_baseBlockIdx io) + unat (io_numBlocks io) \<le> jn_num_cells jn \<and>
     unat (io_numBlocks io) \<le> 2 ^ unat (jn_lockRegionShift jn) \<and> length (io_gens io) = unat (io_numBlocks io)"

definition io_stripes :: "journal \<Rightarrow> journal_block_io \<Rightarrow> nat list" where
  "io_stripes jn io = stripes jn (io_baseBlockIdx io) (io_numBlocks io)"

definition io_locked :: "journal \<Rightarrow> bool \<Rightarrow> journal_block_io \<Rightarrow> bool" where
  "io_locked jn ex io \<longleftrightarrow>
     locked_all (io_guard io) \<and> gd_locks (io_guard io) = io_stripes jn io \<and> gd_isExclusive (io_guard io) = ex"

definition io_reading :: "journal \<Rightarrow> journal_block_io \<Rightarrow> bool" where
  "io_reading jn io \<longleftrightarrow> io_action io = ACTION_READ \<and> io_locked jn False io \<and>
     (\<forall>i < unat (io_numBlocks io). io_gens io ! i = jcell jn (unat (io_baseBlockIdx io) + i))"

definition io_writing :: "journal \<Rightarrow> journal_block_io \<Rightarrow> bool" where
  "io_writing jn io \<longleftrightarrow> io_action io = ACTION_WRITE \<and> io_locked jn True io \<and>
     (\<forall>i < unat (io_numBlocks io). jcell jn (unat (io_baseBlockIdx io) + i) = 0 \<and>
        io_gens io ! i \<noteq> 0 \<and> unat (io_gens io ! i) \<le> 3)"

definition io_waiting :: "journal \<Rightarrow> jio_wait \<Rightarrow> journal_block_io \<Rightarrow> bool" where
  "io_waiting jn wt io \<longleftrightarrow>
     gd_locks (io_guard io) = io_stripes jn io \<and> gd_numLocks (io_guard io) < length (gd_locks (io_guard io)) \<and>
     (case wt of WaitToWrite \<Rightarrow> gd_isExclusive (io_guard io)
      | WaitToRead intent \<Rightarrow> \<not> gd_isExclusive (io_guard io) \<and> intent \<noteq> INTENT_WRITE)"

definition io_clears :: "journal_block_io \<Rightarrow> journal \<Rightarrow> journal \<Rightarrow> bool" where
  "io_clears io jn jn' \<longleftrightarrow> jcell jn' = (\<lambda>b. if b \<in> io_blocks io then 0 else jcell jn b)"

definition same_request :: "journal_block_io \<Rightarrow> journal_block_io \<Rightarrow> bool" where
  "same_request io io' \<longleftrightarrow> io_journal io' = io_journal io \<and> io_baseBlockIdx io' = io_baseBlockIdx io \<and>
     io_numBlocks io' = io_numBlocks io \<and> length (io_gens io') = length (io_gens io)"

abbreviation locks_with :: "stripe_locks \<Rightarrow> ('x \<Rightarrow> nat set) \<Rightarrow> ('x \<Rightarrow> bool) \<Rightarrow> 'x \<Rightarrow> journal_block_io \<Rightarrow> bool" where
  "locks_with L H E x io \<equiv> locks_ok L (H(x := held (io_guard io))) (E(x := gd_isExclusive (io_guard io)))"

fun outcome_ok :: "('x \<Rightarrow> nat set) \<Rightarrow> ('x \<Rightarrow> bool) \<Rightarrow> 'x \<Rightarrow> bool \<Rightarrow> journal \<Rightarrow> journal_block_io \<Rightarrow> jio_outcome \<Rightarrow> bool" where
  "outcome_ok H E x mayBlock jn io0 (st, io, jn', L') \<longleftrightarrow>
     locks_with L' H E x io \<and> guard_ok (io_guard io) \<and> same_request io0 io \<and> jn_same_meta jn jn' \<and>
     (case st of
        Returned ACTION_READ \<Rightarrow> jcell jn' = jcell jn \<and> io_reading jn' io
      | Returned ACTION_WRITE \<Rightarrow> io_clears io jn jn' \<and> io_writing jn' io
      | Returned ACTION_SKIP \<Rightarrow> jcell jn' = jcell jn \<and> gd_numLocks (io_guard io) = 0
      | Returned ACTION_DEFER \<Rightarrow> jcell jn' = jcell jn \<and> gd_numLocks (io_guard io) = 0 \<and> \<not> mayBlock
      | WaitingIn wt \<Rightarrow> jcell jn' = jcell jn \<and> io_waiting jn' wt io \<and> must_wait (io_guard io) L' \<and> mayBlock
      | Raised ex \<Rightarrow> io_clears io jn jn' \<and> io_locked jn' True io)"

lemma same_meta_stripes: "jn_same_meta jn jn' \<Longrightarrow> stripes jn' = stripes jn"
  by (auto simp: jn_same_meta_def stripes_def blockIndexToStripe_def Let_def fun_eq_iff)

lemma same_meta_fits: "jn_same_meta jn jn' \<Longrightarrow> io_fits jn' io = io_fits jn io"
  by (auto simp: jn_same_meta_def io_fits_def jn_num_cells_def)

lemma same_request_refl [simp]: "same_request io io"
  by (simp add: same_request_def)

lemma io_clears_stamp:
  "jcell jn' = clear_cells (unat (io_baseBlockIdx io)) (unat (io_baseBlockIdx io) + unat (io_numBlocks io)) (jcell jn) \<Longrightarrow> io_clears io jn jn'"
  by (auto simp: io_clears_def clear_cells_def io_blocks_def fun_eq_iff)

lemma claim_locked_ok:
  assumes "locks_with L H E x io" "guard_ok (io_guard io)" "io_fits jn io" "io_locked jn True io"
  shows "outcome_ok H E x mayBlock jn io (claim_locked env io jn L)"
proof -
  let ?a = "unat (io_baseBlockIdx io)" and ?n = "unat (io_numBlocks io)"
  obtain any gens jn' where s: "stamp_loop (io_baseBlockIdx io) [0..<?n] False (io_gens io) jn = (None, any, gens, jn')"
    "length gens = length (io_gens io)" "\<forall>i < ?n. gens ! i = nextGen (jcell jn (?a + i))"
    "jcell jn' = clear_cells ?a (?a + ?n) (jcell jn)" "jn_same_meta jn jn'"
    using stamp_loop_result [of "io_baseBlockIdx io" ?n jn "io_gens io" 0 False] assms(3) by (auto simp: io_fits_def)
  let ?io = "io\<lparr>io_gens := gens\<rparr>"
  have c: "io_clears ?io jn jn'" "same_request io ?io" "io_clears (?io\<lparr>io_action := ACTION_WRITE\<rparr>) jn jn'"
    "same_request io (?io\<lparr>io_action := ACTION_WRITE\<rparr>)"
    using s(2) io_clears_stamp [OF s(4)] by (simp_all add: io_clears_def io_blocks_def same_request_def)
  have w: "io_writing jn' (?io\<lparr>io_action := ACTION_WRITE\<rparr>)"
    using s(3,4) assms(4) same_meta_stripes [OF s(5)] nextGen_range jc.gen_range
    by (auto simp: io_writing_def io_locked_def io_stripes_def clear_cells_def)
  have "io_locked jn' True ?io"
    using assms(4) same_meta_stripes [OF s(5)] by (simp add: io_locked_def io_stripes_def)
  then show ?thesis
    using s(1,5) c w assms(1,2) by (auto simp: claim_locked_def Let_def split: sum.splits simp del: fun_upd_apply)
qed

fun acq_ok :: "('x \<Rightarrow> nat set) \<Rightarrow> ('x \<Rightarrow> bool) \<Rightarrow> 'x \<Rightarrow> bool \<Rightarrow> nat list \<Rightarrow> bool \<Rightarrow>
    acquire_status \<times> journal_range_guard \<times> stripe_locks \<Rightarrow> bool" where
  "acq_ok H E x mayBlock ls ex (st, g, L) \<longleftrightarrow>
     locks_ok L (H(x := held g)) (E(x := ex)) \<and> guard_ok g \<and> gd_locks g = ls \<and> gd_isExclusive g = ex \<and>
     (st = Acquired \<longrightarrow> locked_all g) \<and> (st = Refused \<longrightarrow> \<not> mayBlock \<and> gd_numLocks g = 0) \<and>
     (st = Waiting \<longrightarrow> mayBlock \<and> must_wait g L)"

lemma acquire_loop_acq_ok:
  assumes "locks_ok L (H(x := held g)) (E(x := gd_isExclusive g))" "guard_ok g"
  shows "acq_ok H E x mayBlock (gd_locks g) (gd_isExclusive g) (acquire_loop mayBlock (drop (gd_numLocks g) (gd_locks g)) g L)"
proof -
  obtain st g' L' where a: "acquire_loop mayBlock (drop (gd_numLocks g) (gd_locks g)) g L = (st, g', L')" by (metis prod.exhaust)
  show ?thesis
    using acquire_loop_ok [OF assms refl _ _ a, of x] unfolding a by (simp del: fun_upd_apply add: fun_upd_same)
qed

lemma held_none: "gd_numLocks g = 0 \<Longrightarrow> held g = {}"
  by (simp add: held_def)

lemma acquireRange_acq_ok:
  assumes "locks_with L H E x io" "gd_numLocks (io_guard io) = 0"
  shows "acq_ok H E x mayBlock (stripes jn first num) ex (acquireRange first num ex mayBlock jn L)"
proof -
  let ?g = "\<lparr>gd_locks = stripes jn first num, gd_numLocks = 0, gd_isExclusive = ex\<rparr>"
  have "locks_ok L (H(x := {})) (E(x := ex))"
    using assms locks_ok_idle [of L "H(x := {})" "E(x := gd_isExclusive (io_guard io))" x ex] by (simp add: held_none)
  then have "acq_ok H E x mayBlock (gd_locks ?g) (gd_isExclusive ?g) (acquire_loop mayBlock (drop (gd_numLocks ?g) (gd_locks ?g)) ?g L)"
    by (intro acquire_loop_acq_ok) (simp_all add: held_def guard_ok_def stripes_sorted)
  then show ?thesis by (simp add: acquireRange_def stripes_def Let_def)
qed

lemma waiting_next: "must_wait g L \<Longrightarrow> gd_numLocks g < length (gd_locks g)"
  by (simp add: must_wait_def)

lemma claim_after_ok:
  assumes "acq_ok H E x mayBlock (io_stripes jn io) True acq" "io_fits jn io"
  shows "outcome_ok H E x mayBlock jn io (claim_after env io jn acq)"
proof -
  obtain st g L where a: "acq = (st, g, L)" by (cases acq)
  show ?thesis
  proof (cases st)
    case Acquired
    have "outcome_ok H E x mayBlock jn (io\<lparr>io_guard := g\<rparr>) (claim_locked env (io\<lparr>io_guard := g\<rparr>) jn L)"
      using assms unfolding a by (intro claim_locked_ok) (simp_all add: Acquired io_fits_def io_locked_def io_stripes_def)
    moreover have "outcome_ok H E x mayBlock jn (io\<lparr>io_guard := g\<rparr>) = outcome_ok H E x mayBlock jn io"
      by (rule ext, rename_tac out, case_tac out) (simp add: same_request_def)
    ultimately show ?thesis by (simp add: claim_after_def a Acquired)
  qed (use assms waiting_next [of g L] in \<open>auto simp: claim_after_def a io_waiting_def io_stripes_def same_request_def jc.meta_refl\<close>)
qed

lemma claimForWrite_ok:
  assumes "locks_with L H E x io" "gd_numLocks (io_guard io) = 0" "io_fits jn io"
  shows "outcome_ok H E x mayBlock jn io (claimForWrite env mayBlock io jn L)"
  unfolding claimForWrite_def
  by (intro claim_after_ok assms(3)) (unfold io_stripes_def, rule acquireRange_acq_ok [OF assms(1,2)])

lemma outcome_same_request:
  assumes "outcome_ok H E x mayBlock jn io' out" "same_request io io'"
  shows "outcome_ok H E x mayBlock jn io out"
  using assms by (cases out) (auto simp: same_request_def)

lemma release_guard_ok:
  assumes "locks_with L H E x io" "guard_ok (io_guard io)" "guard_release (io_guard io) L = (g, L')"
  shows "locks_with L' H E x (io\<lparr>io_guard := g\<rparr>)" "gd_numLocks g = 0" "guard_ok g" "gd_isExclusive g = gd_isExclusive (io_guard io)"
  using guard_release_ok [OF assms(1,2) _ _ assms(3), of x] assms(2) by (auto simp: guard_ok_def held_def)

lemma read_locked_ok:
  assumes "locks_with L H E x io" "guard_ok (io_guard io)" "io_fits jn io" "io_locked jn False io" "intent \<noteq> INTENT_WRITE"
  shows "outcome_ok H E x mayBlock jn io (read_locked env intent mayBlock io jn L)"
proof -
  let ?a = "unat (io_baseBlockIdx io)" and ?n = "unat (io_numBlocks io)"
  obtain gens where s: "snapshot_loop (io_baseBlockIdx io) [0..<?n] (io_gens io) jn = (None, gens)"
    "length gens = length (io_gens io)" "\<forall>i < ?n. gens ! i = jcell jn (?a + i)"
    using snapshot_loop_result [of "io_baseBlockIdx io" ?n jn "io_gens io" 0] assms(3) by (auto simp: io_fits_def)
  let ?io = "io\<lparr>io_gens := gens\<rparr>"
  obtain g L' where r: "guard_release (io_guard ?io) L = (g, L')" by (metis prod.exhaust)
  have lw: "locks_with L H E x ?io" "guard_ok (io_guard ?io)" using assms(1,2) by simp_all
  note rel = release_guard_ok [OF lw r]
  have q: "same_request io ?io" using s(2) by (simp add: same_request_def)
  have rd: "io_reading jn (?io\<lparr>io_action := ACTION_READ\<rparr>)"
    using s(3) assms(4) by (simp add: io_reading_def io_locked_def io_stripes_def)
  have cl: "outcome_ok H E x mayBlock jn io (claimForWrite env mayBlock (?io\<lparr>io_guard := g\<rparr>) jn L')"
    using rel(1,2) assms(3) s(2)
    by (intro outcome_same_request [OF claimForWrite_ok]) (simp_all add: io_fits_def same_request_def)
  show ?thesis
    using s(1) r rel rd q cl lw
    by (auto simp: read_locked_def Let_def same_request_def jc.meta_refl simp del: fun_upd_apply)
qed

lemma read_after_ok:
  assumes "acq_ok H E x mayBlock (io_stripes jn io) False acq" "io_fits jn io" "intent \<noteq> INTENT_WRITE"
  shows "outcome_ok H E x mayBlock jn io (read_after env intent mayBlock io jn acq)"
proof -
  obtain st g L where a: "acq = (st, g, L)" by (cases acq)
  show ?thesis
  proof (cases st)
    case Acquired
    have "outcome_ok H E x mayBlock jn (io\<lparr>io_guard := g\<rparr>) (read_locked env intent mayBlock (io\<lparr>io_guard := g\<rparr>) jn L)"
      using assms unfolding a by (intro read_locked_ok) (simp_all add: Acquired io_fits_def io_locked_def io_stripes_def)
    then have "outcome_ok H E x mayBlock jn io (read_locked env intent mayBlock (io\<lparr>io_guard := g\<rparr>) jn L)"
      by (rule outcome_same_request) (simp add: same_request_def)
    then show ?thesis by (simp add: read_after_def a Acquired)
  qed (use assms waiting_next [of g L] in \<open>auto simp: read_after_def a io_waiting_def io_stripes_def same_request_def jc.meta_refl\<close>)
qed

lemma jio_begin_ok:
  assumes "locks_with L H E x io" "gd_numLocks (io_guard io) = 0" "jn_journalBlockSize jn \<noteq> 0"
    and "io_fits jn (jio_setup j off len io jn)"
  shows "outcome_ok H E x mayBlock jn (jio_setup j off len io jn) (jio_begin env j off len intent mayBlock io jn L)"
proof -
  let ?io = "jio_setup j off len io jn"
  have g: "io_guard ?io = io_guard io" by (simp add: jio_setup_def Let_def)
  have lw: "locks_with L H E x ?io" "gd_numLocks (io_guard ?io) = 0" using assms(1,2) by (simp_all only: g)
  show ?thesis
  proof (cases "intent = INTENT_WRITE")
    case True
    then show ?thesis using claimForWrite_ok [OF lw assms(4)] assms(3) by (simp add: jio_begin_def Let_def)
  next
    case False
    then show ?thesis
      using read_after_ok [OF acquireRange_acq_ok [OF lw, of mayBlock jn "io_baseBlockIdx ?io" "io_numBlocks ?io", folded io_stripes_def] assms(4) False]
        assms(3) by (simp add: jio_begin_def Let_def)
  qed
qed

lemma jio_resume_ok:
  assumes "locks_with L H E x io" "guard_ok (io_guard io)" "io_fits jn io" "io_waiting jn wt io"
  shows "outcome_ok H E x True jn io (jio_resume env wt io jn L)"
proof -
  let ?g = "io_guard io"
  have a: "acq_ok H E x True (io_stripes jn io) (gd_isExclusive ?g) (acquire_loop True (drop (gd_numLocks ?g) (gd_locks ?g)) ?g L)"
    using acquire_loop_acq_ok [OF assms(1,2), of True] assms(4) by (simp add: io_waiting_def)
  show ?thesis
  proof (cases wt)
    case WaitToWrite
    then show ?thesis using a assms(3,4) claim_after_ok [of H E x True jn io] by (simp add: jio_resume_def Let_def io_waiting_def)
  next
    case (WaitToRead intent)
    then show ?thesis using a assms(3,4) read_after_ok [of H E x True jn io] by (simp add: jio_resume_def Let_def io_waiting_def)
  qed
qed

lemma jio_release_ok:
  assumes "locks_with L H E x io" "guard_ok (io_guard io)" "jio_release io L = (io', L')"
  shows "locks_with L' H E x io'" "gd_numLocks (io_guard io') = 0" "guard_ok (io_guard io')"
    "\<exists>g. io' = io\<lparr>io_guard := g\<rparr>"
  using assms(3) release_guard_ok [OF assms(1,2), of "fst (guard_release (io_guard io) L)" "snd (guard_release (io_guard io) L)"]
  by (auto simp: jio_release_def split: prod.splits)


end
