(* ===== verification/JournalSafety.thy ===== *)
theory JournalSafety
  imports JournalWorkers
begin

text \<open>
  Invariant of the workers that share journals, and what follows from it in every reachable state:
  outside of the blocks that short and late writes spoiled, the journal never claims content that
  the target does not have and a journaled read in flight verifies; the workers do not deadlock.
\<close>

subsection \<open>Requests\<close>

definition journal_ok :: "u64 \<Rightarrow> journal \<Rightarrow> bool" where
  "journal_ok maxIOSize jn \<longleftrightarrow>
     jn_journalBlockSize jn \<noteq> 0 \<and> unat (jn_journalBlockSize jn) < 2 ^ 63 \<and> unat (jn_targetSize jn) = unat (jn_numJournalBlocks jn) * unat (jn_journalBlockSize jn) \<and>
     unat (jn_targetOffset jn) + unat (jn_targetSize jn) < 2 ^ 63 \<and> jn_covers jn \<and>
     unat maxIOSize \<le> 2 ^ unat (jn_lockRegionShift jn) * unat (jn_journalBlockSize jn)"

text \<open>The journal blocks of an I/O at an offset with a length.\<close>

definition io_matches :: "journal \<Rightarrow> journal_block_io \<Rightarrow> u64 \<Rightarrow> u64 \<Rightarrow> bool" where
  "io_matches jn io off len \<longleftrightarrow>
     unat off = unat (jn_targetOffset jn) + unat (io_baseBlockIdx io) * unat (jn_journalBlockSize jn) \<and>
     unat len = unat (io_numBlocks io) * unat (jn_journalBlockSize jn) \<and>
     unat (io_baseBlockIdx io) + unat (io_numBlocks io) \<le> unat (jn_numJournalBlocks jn)"

abbreviation io_placed :: "journal \<Rightarrow> journal_block_io \<Rightarrow> u64 \<Rightarrow> u64 \<Rightarrow> bool" where
  "io_placed jn io off len \<equiv> whole_blocks jn off len \<longrightarrow> io_matches jn io off len"

lemma blocks_rounded_up:
  fixes B l :: nat
  assumes "0 < B"
  shows "l \<le> (l + (B - 1)) div B * B" "(l + (B - 1)) div B * B < l + B"
proof -
  have "(l + (B - 1)) div B * B + (l + (B - 1)) mod B = l + (B - 1)" "(l + (B - 1)) mod B < B"
    using assms by (simp_all only: div_mult_mod_eq mod_less_divisor)
  then show "l \<le> (l + (B - 1)) div B * B" "(l + (B - 1)) div B * B < l + B" using assms by linarith+
qed

lemma jio_setup_request:
  assumes "journal_ok maxIO jn" "request_ok maxIO jn off len"
  shows "io_fits jn (jio_setup j off len io jn)" "whole_blocks jn off len \<Longrightarrow> io_matches jn (jio_setup j off len io jn) off len"
proof -
  let ?B = "unat (jn_journalBlockSize jn)" and ?io = "jio_setup j off len io jn"
  let ?N = "unat (jn_numJournalBlocks jn)" and ?o = "unat (jn_targetOffset jn)"
  have B: "0 < ?B" "?B < 2 ^ 63" "unat (jn_targetSize jn) = ?N * ?B" "?o + ?N * ?B < 2 ^ 63"
    "unat maxIO \<le> 2 ^ unat (jn_lockRegionShift jn) * ?B" "?N \<le> 4 * length (jn_mapBase jn)"
    using assms(1) by (simp_all add: journal_ok_def word_ne_0_pos jn_covers_def)
  have r: "0 < unat len" "unat len \<le> unat maxIO" "?o \<le> unat off" "unat off + unat len \<le> ?o + ?N * ?B"
    using assms(2) B(3) by (simp_all add: request_ok_def word_le_nat_alt word_ne_0_pos)
  define a n where "a = (unat off - ?o) div ?B" and "n = (unat len + (?B - 1)) div ?B"
  have n: "unat len \<le> n * ?B" "n * ?B < unat len + ?B" unfolding n_def by (rule blocks_rounded_up [OF B(1)])+
  have a: "a * ?B \<le> unat off - ?o" unfolding a_def by simp
  have "unat (off - jn_targetOffset jn) = unat off - ?o" using r(3) by (simp add: unat_sub_no word_le_nat_alt)
  then have base: "unat (io_baseBlockIdx ?io) = a"
    by (simp add: jio_setup_def Let_def offsetToBlockIndex_def unat_div a_def)
  have "unat len + (?B - 1) < 2 ^ 63 + 2 ^ 63" using r(3,4) B(2,4) by linarith
  then have lt: "unat len + (?B - 1) < W64" by simp
  have "unat (jn_journalBlockSize jn - 1) = ?B - 1" using B(1) by (simp add: unat_sub_no word_le_nat_alt)
  then have "unat (len + (jn_journalBlockSize jn - 1)) = unat len + (?B - 1)"
    using lt by (subst unat_add_no) (simp_all only:)
  then have num: "unat (io_numBlocks ?io) = n"
    by (simp add: jio_setup_def Let_def unat_div add_diff_eq n_def)
  have "(a + n) * ?B < (?N + 1) * ?B" using a n(2) r(3,4) by (simp add: add_mult_distrib)
  then have "a + n < ?N + 1" by (simp only: mult_less_cancel2)
  then have aN: "a + n \<le> ?N" by simp
  have "n * ?B < (2 ^ unat (jn_lockRegionShift jn) + 1) * ?B" using n(2) r(2) B(5) by (simp add: add_mult_distrib)
  then have "n < 2 ^ unat (jn_lockRegionShift jn) + 1" by (simp only: mult_less_cancel2)
  then have "n \<le> 2 ^ unat (jn_lockRegionShift jn)" by simp
  moreover have "0 < n" using n(1) r(1) by (cases n) simp_all
  moreover have "?N < W64" by (rule unat_less_W64)
  ultimately show "io_fits jn ?io"
    using aN B(6) base num by (auto simp: io_fits_def jn_num_cells_def jio_setup_def Let_def)
  assume "whole_blocks jn off len"
  then have w: "?B dvd unat len" "a * ?B = unat off - ?o" by (simp_all add: whole_blocks_def a_def)
  then obtain m where m: "unat len = m * ?B" by (metis dvdE mult.commute)
  have "n = m"
  proof -
    have "m * ?B \<le> n * ?B" "n * ?B < (m + 1) * ?B" using n m by simp_all
    then have "m \<le> n" "n < m + 1" using B(1) by (simp_all only: mult_le_cancel2 mult_less_cancel2)
    then show ?thesis by simp
  qed
  then show "io_matches jn ?io off len" using m w(2) aN base num r(3) by (simp add: io_matches_def)
qed

subsection \<open>The invariant\<close>

definition valid_slot :: "journal_system \<Rightarrow> nat \<times> nat \<Rightarrow> bool" where
  "valid_slot s x \<longleftrightarrow> snd x < length (journalIOSlots (sy_workers s (fst x)))"

abbreviation io_at :: "journal_system \<Rightarrow> nat \<times> nat \<Rightarrow> journal_block_io" where
  "io_at s x \<equiv> slot_io s (fst x) (snd x)"

definition sy_held :: "journal_system \<Rightarrow> nat \<times> nat \<Rightarrow> nat set" where
  "sy_held s x = (if valid_slot s x then held (io_guard (io_at s x)) else {})"

definition sy_excl :: "journal_system \<Rightarrow> nat \<times> nat \<Rightarrow> bool" where
  "sy_excl s x \<longleftrightarrow> valid_slot s x \<and> gd_isExclusive (io_guard (io_at s x))"

definition waits_in :: "journal_system \<Rightarrow> nat \<times> nat \<Rightarrow> (jio_wait \<times> u64 \<times> u64) option" where
  "waits_in s x = (case sy_waiting s (fst x) of
     Some (slot, wt, off, len) \<Rightarrow> if slot = snd x then Some (wt, off, len) else None | None \<Rightarrow> None)"

text \<open>What a slot's I/O is, from whether it is in flight or waited for.\<close>

definition slot_ok :: "(nat \<Rightarrow> journal) \<Rightarrow> (nat \<Rightarrow> nat set) \<Rightarrow> journal_block_io \<Rightarrow> (u64 \<times> u64) option \<Rightarrow> (jio_wait \<times> u64 \<times> u64) option \<Rightarrow> bool" where
  "slot_ok J S io infl wait \<longleftrightarrow>
     guard_ok (io_guard io) \<and>
     (case infl of
        Some (off, len) \<Rightarrow>
          wait = None \<and> io_fits (J (io_journal io)) io \<and> io_placed (J (io_journal io)) io off len \<and>
          shifted_blocks (J (io_journal io)) io off len \<subseteq> S (io_journal io) \<and>
          (io_reading (J (io_journal io)) io \<or> io_writing (J (io_journal io)) io)
      | None \<Rightarrow>
          (case wait of
             Some (wt, off, len) \<Rightarrow>
               io_fits (J (io_journal io)) io \<and> io_placed (J (io_journal io)) io off len \<and> io_waiting (J (io_journal io)) wt io
           | None \<Rightarrow> gd_numLocks (io_guard io) = 0))"

definition block_bytes :: "journal \<Rightarrow> (nat \<Rightarrow> u8) \<Rightarrow> nat \<Rightarrow> u8 list" where
  "block_bytes jn target b =
     map (\<lambda>i. target (unat (jn_targetOffset jn) + b * unat (jn_journalBlockSize jn) + i)) [0..<unat (jn_journalBlockSize jn)]"

definition block_tile :: "journal \<Rightarrow> nat \<Rightarrow> u8 \<Rightarrow> u8 list" where
  "block_tile jn b g =
     journalFillTileBlock (unat (jn_journalBlockSize jn)) (jn_targetOffset jn + of_nat (b * unat (jn_journalBlockSize jn))) (jn_journalSeed jn) g"

text \<open>A block that holds a generation has the content of this generation, but for some blocks.\<close>

definition content_ok :: "journal \<Rightarrow> nat set \<Rightarrow> (nat \<Rightarrow> u8) \<Rightarrow> bool" where
  "content_ok jn S target \<longleftrightarrow>
     (\<forall>b < unat (jn_numJournalBlocks jn). b \<notin> S \<longrightarrow> jcell jn b \<noteq> 0 \<longrightarrow> block_bytes jn target b = block_tile jn b (jcell jn b))"

definition worker_ok :: "journal_system \<Rightarrow> nat \<Rightarrow> bool" where
  "worker_ok s w \<longleftrightarrow>
     (\<forall>slot. sy_inflight s (w, slot) \<noteq> None \<longrightarrow> valid_slot s (w, slot)) \<and>
     journalNumGuardsHeld (sy_workers s w) = card {slot. sy_inflight s (w, slot) \<noteq> None} \<and>
     (\<forall>slot wt off len. sy_waiting s w = Some (slot, wt, off, len) \<longrightarrow>
        valid_slot s (w, slot) \<and> (\<forall>slot'. sy_inflight s (w, slot') = None))"

text \<open>The invariant for some of the workers, which leaves out those that are about to abort.\<close>

definition inv_on :: "(nat \<Rightarrow> bool) \<Rightarrow> journal_system \<Rightarrow> bool" where
  "inv_on P s \<longleftrightarrow>
     unat (sy_maxIOSize s) < 2 ^ 63 \<and>
     (\<forall>j. journal_ok (sy_maxIOSize s) (sy_journals s j) \<and> content_ok (sy_journals s j) (sy_spoiled s j) (sy_target s j) \<and>
        orphan_blocks (sy_journals s) (sy_orphans s) j \<subseteq> sy_spoiled s j) \<and>
     locks_ok (sy_locks s) (sy_held s) (sy_excl s) \<and> (\<forall>w. P w \<longrightarrow> worker_ok s w) \<and>
     (\<forall>x. valid_slot s x \<longrightarrow> guard_ok (io_guard (io_at s x)) \<and>
        (P (fst x) \<longrightarrow> slot_ok (sy_journals s) (sy_spoiled s) (io_at s x) (sy_inflight s x) (waits_in s x)))"

definition journal_inv :: "journal_system \<Rightarrow> bool" where
  "journal_inv s \<longleftrightarrow> inv_on (\<lambda>_. True) s"

lemma inv_onD:
  assumes "inv_on P s"
  shows inv_on_max: "unat (sy_maxIOSize s) < 2 ^ 63"
    and inv_on_journal: "journal_ok (sy_maxIOSize s) (sy_journals s j)"
    and inv_on_content: "content_ok (sy_journals s j) (sy_spoiled s j) (sy_target s j)"
    and inv_on_orphans: "orphan_blocks (sy_journals s) (sy_orphans s) j \<subseteq> sy_spoiled s j"
    and inv_on_locks: "locks_ok (sy_locks s) (sy_held s) (sy_excl s)"
    and inv_on_worker: "P w \<Longrightarrow> worker_ok s w"
    and inv_on_guard: "valid_slot s x \<Longrightarrow> guard_ok (io_guard (io_at s x))"
    and inv_on_slot: "valid_slot s x \<Longrightarrow> P (fst x) \<Longrightarrow> slot_ok (sy_journals s) (sy_spoiled s) (io_at s x) (sy_inflight s x) (waits_in s x)"
  using assms unfolding inv_on_def by blast+

lemma inv_on_mono: "inv_on P s \<Longrightarrow> (\<And>w. Q w \<Longrightarrow> P w) \<Longrightarrow> inv_on Q s"
  by (auto simp: inv_on_def)

subsection \<open>Exclusion of blocks\<close>

lemma io_locked_covers:
  assumes "io_fits jn io" "io_locked jn ex io" "b \<in> io_blocks io"
  shows "blockIndexToStripe (of_nat b) jn \<in> held (io_guard io)"
proof -
  have "unat (io_baseBlockIdx io) + unat (io_numBlocks io) \<le> W64" using assms(1) by (simp add: io_fits_def jn_num_cells_def)
  then have "blockIndexToStripe (of_nat b) jn \<in> set (io_stripes jn io)"
    using assms(1,3) unfolding io_stripes_def by (intro stripes_cover) (auto simp: io_fits_def io_blocks_def)
  then show ?thesis using assms(2) by (simp add: held_def io_locked_def locked_all_def)
qed

text \<open>An I/O that holds its locks exclusively shares no block with another I/O that holds its locks.\<close>

lemma exclusive_blocks_disjoint:
  assumes "locks_ok L H E" "H x = held (io_guard io)" "E x = gd_isExclusive (io_guard io)" "H y = held (io_guard io')"
    and "io_fits jn io" "io_locked jn True io" "io_fits jn io'" "io_locked jn ex io'" "x \<noteq> y"
  shows "io_blocks io \<inter> io_blocks io' = {}"
proof (rule ccontr)
  assume "io_blocks io \<inter> io_blocks io' \<noteq> {}"
  then obtain b where "b \<in> io_blocks io" "b \<in> io_blocks io'" by blast
  then have "blockIndexToStripe (of_nat b) jn \<in> H x" "blockIndexToStripe (of_nat b) jn \<in> H y"
    using io_locked_covers [OF assms(5,6)] io_locked_covers [OF assms(7,8)] assms(2,4) by simp_all
  moreover have "E x" using assms(3,6) by (simp add: io_locked_def)
  ultimately show False using locks_ok_exclusive [OF assms(1), of _ x y] assms(9) by blast
qed

lemma same_meta_fields:
  assumes "jn_same_meta jn jn'"
  shows "jn_journalBlockSize jn' = jn_journalBlockSize jn" "jn_targetOffset jn' = jn_targetOffset jn" "jn_targetSize jn' = jn_targetSize jn"
    "jn_numJournalBlocks jn' = jn_numJournalBlocks jn" "jn_journalSeed jn' = jn_journalSeed jn"
    "jn_lockRegionShift jn' = jn_lockRegionShift jn" "length (jn_mapBase jn') = length (jn_mapBase jn)"
  using assms by (auto simp: jn_same_meta_def)

lemma journal_ok_same_meta: "jn_same_meta jn jn' \<Longrightarrow> journal_ok m jn' = journal_ok m jn"
  by (simp add: journal_ok_def same_meta_fields jn_covers_def)

text \<open>A slot is not affected by a change of its journal's cells outside of its blocks.\<close>

lemma same_meta_blocks:
  assumes "jn_same_meta jn jn'"
  shows "whole_blocks jn' off len = whole_blocks jn off len" "touched_blocks jn' off n = touched_blocks jn off n"
    "shifted_blocks jn' io off len = shifted_blocks jn io off len"
proof -
  show w: "whole_blocks jn' off len = whole_blocks jn off len" and b: "touched_blocks jn' off n = touched_blocks jn off n" for off len n
    using same_meta_fields [OF assms] by (simp_all add: whole_blocks_def touched_blocks_def)
  show "shifted_blocks jn' io off len = shifted_blocks jn io off len" by (simp add: shifted_blocks_def w b)
qed

lemma same_meta_orphans: "\<forall>j. jn_same_meta (J j) (J' j) \<Longrightarrow> orphan_blocks J' X = orphan_blocks J X"
  by (intro ext) (simp add: orphan_blocks_def same_meta_blocks(2) [of "J j" "J' j" for j])

lemma slot_ok_frame:
  assumes "slot_ok J S io infl wait" "\<forall>j. jn_same_meta (J j) (J' j)" "\<forall>j. S j \<subseteq> S' j"
    and "infl \<noteq> None \<longrightarrow> (\<forall>b \<in> io_blocks io. jcell (J' (io_journal io)) b = jcell (J (io_journal io)) b)"
  shows "slot_ok J' S' io infl wait"
proof -
  let ?j = "J (io_journal io)" and ?j' = "J' (io_journal io)"
  have m: "jn_same_meta ?j ?j'" using assms(2) by blast
  note e = same_meta_fits [OF m] same_meta_stripes [OF m] same_meta_fields [OF m] same_meta_blocks [OF m]
  have "io_matches ?j' io off len = io_matches ?j io off len" "io_waiting ?j' wt io = io_waiting ?j wt io" for off len wt
    by (simp_all add: io_matches_def io_waiting_def io_stripes_def e)
  moreover have "io_reading ?j' io = io_reading ?j io" "io_writing ?j' io = io_writing ?j io" if "infl \<noteq> None"
    using assms(4) that by (auto simp: io_reading_def io_writing_def io_locked_def io_stripes_def e io_blocks_def)
  moreover have "b \<in> S (io_journal io) \<Longrightarrow> b \<in> S' (io_journal io)" for b using assms(3) by blast
  ultimately show ?thesis using assms(1) by (auto simp: slot_ok_def e split: option.splits)
qed

lemma slot_ok_locked:
  assumes "slot_ok J S io (Some (off, len)) wait"
  shows "io_fits (J (io_journal io)) io" "\<exists>ex. io_locked (J (io_journal io)) ex io"
  using assms by (auto simp: slot_ok_def io_reading_def io_writing_def)

subsection \<open>Updating one slot\<close>

lemma sy_held_upd:
  assumes "valid_slot s x" "journalIOSlots (sy_workers s' (fst x)) = (journalIOSlots (sy_workers s (fst x)))[snd x := io]"
    and "\<forall>w. w \<noteq> fst x \<longrightarrow> sy_workers s' w = sy_workers s w"
  shows "sy_held s' = (sy_held s)(x := held (io_guard io))" "sy_excl s' = (sy_excl s)(x := gd_isExclusive (io_guard io))"
    "valid_slot s' = valid_slot s" "io_at s' y = (if y = x then io else io_at s y)"
proof -
  have "length (journalIOSlots (sy_workers s' w)) = length (journalIOSlots (sy_workers s w))" for w
    using assms(2,3) by (cases "w = fst x") simp_all
  then show v: "valid_slot s' = valid_slot s" by (simp add: valid_slot_def fun_eq_iff)
  show i: "io_at s' y = (if y = x then io else io_at s y)" for y
  proof (cases "fst y = fst x")
    case True
    then show ?thesis using assms(1,2) by (cases x; cases y) (auto simp: valid_slot_def nth_list_update)
  next
    case False
    then show ?thesis using assms(3) by auto
  qed
  show "sy_held s' = (sy_held s)(x := held (io_guard io))" "sy_excl s' = (sy_excl s)(x := gd_isExclusive (io_guard io))"
    using assms(1) by (intro ext; simp add: sy_held_def sy_excl_def v i)+
qed

lemma slot_update_inv:
  assumes inv: "inv_on Q s" and x: "valid_slot s x" and P: "\<And>w. P w \<Longrightarrow> Q w"
    and ws: "journalIOSlots (sy_workers s' (fst x)) = (journalIOSlots (sy_workers s (fst x)))[snd x := io]"
      "\<forall>w. w \<noteq> fst x \<longrightarrow> sy_workers s' w = sy_workers s w"
    and m: "sy_maxIOSize s' = sy_maxIOSize s"
    and js: "sy_journals s' = (sy_journals s)(j := jn)" "jn_same_meta (sy_journals s j) jn"
    and L: "locks_with (sy_locks s') (sy_held s) (sy_excl s) x io" "guard_ok (io_guard io)"
    and sp: "sy_orphans s' = sy_orphans s" "\<forall>k. sy_spoiled s k \<subseteq> sy_spoiled s' k"
    and own: "P (fst x) \<Longrightarrow> slot_ok (sy_journals s') (sy_spoiled s') io (sy_inflight s' x) (waits_in s' x)"
    and others: "\<forall>y. y \<noteq> x \<and> P (fst y) \<longrightarrow> sy_inflight s' y = sy_inflight s y \<and> waits_in s' y = waits_in s y"
    and cells: "\<And>y b. y \<noteq> x \<Longrightarrow> P (fst y) \<Longrightarrow> valid_slot s y \<Longrightarrow> sy_inflight s y \<noteq> None \<Longrightarrow> io_journal (io_at s y) = j \<Longrightarrow>
      b \<in> io_blocks (io_at s y) \<Longrightarrow> jcell jn b = jcell (sy_journals s j) b"
    and c: "\<forall>j. content_ok (sy_journals s' j) (sy_spoiled s' j) (sy_target s' j)"
    and w: "\<forall>w. P w \<longrightarrow> worker_ok s' w"
  shows "inv_on P s'"
proof -
  note u = sy_held_upd [OF x ws]
  have sm: "\<forall>k. jn_same_meta (sy_journals s k) (sy_journals s' k)" using js by (auto simp: jc.meta_refl)
  have "slot_ok (sy_journals s') (sy_spoiled s') (io_at s' y) (sy_inflight s' y) (waits_in s' y)" if y: "valid_slot s y" "P (fst y)" for y
  proof (cases "y = x")
    case False
    have "slot_ok (sy_journals s) (sy_spoiled s) (io_at s y) (sy_inflight s y) (waits_in s y)"
      using inv y P unfolding inv_on_def by blast
    then have "slot_ok (sy_journals s') (sy_spoiled s') (io_at s y) (sy_inflight s y) (waits_in s y)"
    proof (rule slot_ok_frame [OF _ sm sp(2)], intro impI ballI)
      fix b
      assume "sy_inflight s y \<noteq> None" "b \<in> io_blocks (io_at s y)"
      then show "jcell (sy_journals s' (io_journal (io_at s y))) b = jcell (sy_journals s (io_journal (io_at s y))) b"
        using cells [OF False y(2,1)] js(1) by (cases "io_journal (io_at s y) = j") simp_all
    qed
    moreover have "sy_inflight s' y = sy_inflight s y" "waits_in s' y = waits_in s y" using others False y(2) by blast+
    ultimately show ?thesis using False by (simp add: u(4))
  qed (use own y u(4) in simp)
  moreover have "guard_ok (io_guard (io_at s' y))" if "valid_slot s y" for y
    using inv L(2) that by (auto simp: inv_on_def u(4))
  moreover have "journal_ok (sy_maxIOSize s') (sy_journals s' k)" for k
    using inv journal_ok_same_meta [OF sm [rule_format, of k]] by (simp add: inv_on_def m)
  moreover have "orphan_blocks (sy_journals s') (sy_orphans s') k \<subseteq> sy_spoiled s' k" for k
    using inv_on_orphans [OF inv, of k] sp by (auto simp: same_meta_orphans [OF sm])
  ultimately show ?thesis using inv L(1) c w by (simp add: inv_on_def u(1-3) m del: fun_upd_apply)
qed

lemma content_ok_more: "content_ok jn S target \<Longrightarrow> S \<subseteq> S' \<Longrightarrow> content_ok jn S' target"
  by (auto simp: content_ok_def)

text \<open>Clearing cells keeps what the journal claims.\<close>

lemma content_ok_weaken:
  assumes "content_ok jn S target" "jn_same_meta jn jn'" "\<forall>b. jcell jn' b = jcell jn b \<or> jcell jn' b = 0"
  shows "content_ok jn' S target"
  using assms(1,3) same_meta_fields [OF assms(2)] by (auto simp: content_ok_def block_bytes_def block_tile_def) metis

subsection \<open>Aborting a worker\<close>

lemma release_slots_ok:
  assumes "locks_ok L H E" "inj_on f {..<length ios}"
    and "\<forall>i < length ios. H (f i) = held (io_guard (ios ! i)) \<and> E (f i) = gd_isExclusive (io_guard (ios ! i)) \<and> guard_ok (io_guard (ios ! i))"
    and "release_slots ios L = (ios', L')"
  shows "locks_ok L' (\<lambda>y. if y \<in> f ` {..<length ios} then {} else H y) E"
    "ios' = map (\<lambda>io. io\<lparr>io_guard := (io_guard io)\<lparr>gd_numLocks := 0\<rparr>\<rparr>) ios"
proof -
  have "locks_ok L' (\<lambda>y. if y \<in> f ` {..<length ios} then {} else H y) E \<and>
    ios' = map (\<lambda>io. io\<lparr>io_guard := (io_guard io)\<lparr>gd_numLocks := 0\<rparr>\<rparr>) ios"
    using assms
  proof (induction ios arbitrary: L H f ios' L')
    case (Cons io ios)
    obtain g L1 where r: "guard_release (io_guard io) L = (g, L1)" by (metis prod.exhaust)
    obtain ios1 L2 where rs: "release_slots ios L1 = (ios1, L2)" by (metis prod.exhaust)
    have f0: "H (f 0) = held (io_guard io)" "E (f 0) = gd_isExclusive (io_guard io)" "guard_ok (io_guard io)"
      using Cons.prems(3) by fastforce+
    note g = guard_release_ok [OF Cons.prems(1) f0(3,1,2) r]
    have ne: "f (Suc i) \<noteq> f 0" if "i < length ios" for i
      using Cons.prems(2) that by (auto simp: inj_on_def)
    have "inj_on (f \<circ> Suc) {..<length ios}" using Cons.prems(2) by (auto simp: inj_on_def)
    moreover have "\<forall>i < length ios. (H(f 0 := {})) ((f \<circ> Suc) i) = held (io_guard (ios ! i)) \<and>
      E ((f \<circ> Suc) i) = gd_isExclusive (io_guard (ios ! i)) \<and> guard_ok (io_guard (ios ! i))"
      using Cons.prems(3) ne by fastforce
    ultimately have "locks_ok L2 (\<lambda>y. if y \<in> (f \<circ> Suc) ` {..<length ios} then {} else (H(f 0 := {})) y) E \<and>
      ios1 = map (\<lambda>io. io\<lparr>io_guard := (io_guard io)\<lparr>gd_numLocks := 0\<rparr>\<rparr>) ios"
      by (intro Cons.IH [OF g(1) _ _ rs])
    moreover have "(\<lambda>y. if y \<in> (f \<circ> Suc) ` {..<length ios} then {} else (H(f 0 := {})) y) =
      (\<lambda>y. if y \<in> f ` {..<length (io # ios)} then {} else H y)"
      by (rule ext) (auto simp: lessThan_Suc_eq_insert_0 image_image)
    ultimately show ?case using Cons.prems(4) r rs g(2) by (auto simp: jio_release_def)
  qed simp
  then show "locks_ok L' (\<lambda>y. if y \<in> f ` {..<length ios} then {} else H y) E"
    "ios' = map (\<lambda>io. io\<lparr>io_guard := (io_guard io)\<lparr>gd_numLocks := 0\<rparr>\<rparr>) ios" by simp_all
qed

lemma abort_inv:
  assumes inv: "inv_on (\<lambda>w'. w' \<noteq> w) s"
  shows "journal_inv (abort_worker K w s)"
proof -
  let ?ios = "journalIOSlots (sy_workers s w)" and ?f = "\<lambda>i. (w, i)" and ?rel = "\<lambda>io. io\<lparr>io_guard := (io_guard io)\<lparr>gd_numLocks := 0\<rparr>\<rparr>"
  obtain ios L where r: "release_slots ?ios (sy_locks s) = (ios, L)" by (metis prod.exhaust)
  define s' where "s' = abort_worker K w s"
  have l: "locks_ok (sy_locks s) (sy_held s) (sy_excl s)" "inj_on ?f {..<length ?ios}"
    using inv by (simp_all add: inv_on_def inj_on_def)
  have h: "\<forall>i < length ?ios. sy_held s (?f i) = held (io_guard (?ios ! i)) \<and> sy_excl s (?f i) = gd_isExclusive (io_guard (?ios ! i)) \<and>
    guard_ok (io_guard (?ios ! i))"
    using inv by (auto simp: inv_on_def sy_held_def sy_excl_def valid_slot_def)
  have L: "locks_ok L (\<lambda>y. if y \<in> ?f ` {..<length ?ios} then {} else sy_held s y) (sy_excl s)" and ios: "ios = map ?rel ?ios"
    using release_slots_ok [where f = ?f and H = "sy_held s" and E = "sy_excl s", OF l h r] by blast+
  have s': "s' = s\<lparr>sy_workers := (sy_workers s)(w := (sy_workers s w)\<lparr>journalIOSlots := ios, journalNumGuardsHeld := 0\<rparr>), sy_locks := L,
      sy_inflight := (\<lambda>(w', slot). if w' = w then None else sy_inflight s (w', slot)), sy_waiting := (sy_waiting s)(w := None),
      sy_orphans := sy_orphans s \<union> orphaned K w s, sy_spoiled := (\<lambda>j. sy_spoiled s j \<union> orphan_blocks (sy_journals s) (orphaned K w s) j)\<rparr>"
    unfolding s'_def abort_worker_def journalReleaseSlots_def r by simp
  have v: "valid_slot s' = valid_slot s" by (auto simp: valid_slot_def s' ios fun_eq_iff)
  have io: "io_at s' x = (if fst x = w then ?rel (io_at s x) else io_at s x)" if "valid_slot s x" for x
    using that by (auto simp: s' ios valid_slot_def)
  have i: "y \<in> ?f ` {..<length ?ios} \<longleftrightarrow> fst y = w \<and> valid_slot s y" for y
    by (cases y) (auto simp: valid_slot_def)
  have "sy_held s' y = (if y \<in> ?f ` {..<length ?ios} then {} else sy_held s y)" "sy_excl s' y = sy_excl s y" for y
    by (cases "valid_slot s y"; simp add: sy_held_def sy_excl_def v io i)+
  then have "sy_held s' = (\<lambda>y. if y \<in> ?f ` {..<length ?ios} then {} else sy_held s y)" "sy_excl s' = sy_excl s" by (intro ext; blast)+
  then have "locks_ok (sy_locks s') (sy_held s') (sy_excl s')" using L by (simp add: s')
  moreover have "worker_ok s' w'" for w'
    using inv by (cases "w' = w") (auto simp: inv_on_def worker_ok_def v, auto simp: s')
  moreover have sp: "\<forall>j. sy_spoiled s j \<subseteq> sy_spoiled s' j" by (simp add: s')
  have "slot_ok (sy_journals s') (sy_spoiled s') (io_at s' x) (sy_inflight s' x) (waits_in s' x)" if "valid_slot s x" for x
  proof (cases "fst x = w")
    case True
    then have "sy_inflight s' x = None" "waits_in s' x = None" by (auto simp: s' waits_in_def split: prod.splits)
    moreover have "io_at s' x = ?rel (io_at s x)" using io [OF that] True by simp
    ultimately show ?thesis using inv_on_guard [OF inv that] by (simp add: slot_ok_def guard_ok_def)
  next
    case False
    then have "sy_inflight s' x = sy_inflight s x" "waits_in s' x = waits_in s x" by (auto simp: s' waits_in_def split: prod.splits)
    moreover have "io_at s' x = io_at s x" "sy_journals s' = sy_journals s" using io [OF that] False by (simp_all add: s')
    ultimately show ?thesis using slot_ok_frame [OF inv_on_slot [OF inv that False] _ sp] by (simp add: jc.meta_refl)
  qed
  moreover have "guard_ok (io_guard (io_at s' x))" if "valid_slot s x" for x
    using io [OF that] inv_on_guard [OF inv that] by (auto simp: guard_ok_def)
  moreover have "sy_maxIOSize s' = sy_maxIOSize s" "sy_journals s' = sy_journals s" "sy_target s' = sy_target s" by (simp_all add: s')
  moreover have "content_ok (sy_journals s j) (sy_spoiled s' j) (sy_target s j)" for j
    using content_ok_more [OF inv_on_content [OF inv]] sp by blast
  moreover have "orphan_blocks (sy_journals s) (sy_orphans s') j \<subseteq> sy_spoiled s' j" for j
  proof -
    have "orphan_blocks (sy_journals s) (sy_orphans s') j = orphan_blocks (sy_journals s) (sy_orphans s) j \<union>
      orphan_blocks (sy_journals s) (orphaned K w s) j" by (auto simp: s' orphan_blocks_def)
    then show ?thesis using inv_on_orphans [OF inv, of j] by (auto simp: s')
  qed
  ultimately show ?thesis
    using inv_on_max [OF inv] inv_on_journal [OF inv]
    unfolding s'_def [symmetric] journal_inv_def inv_on_def v by simp
qed

subsection \<open>Beginning an I/O\<close>

lemma own_locks: "inv_on P s \<Longrightarrow> valid_slot s x \<Longrightarrow> locks_with (sy_locks s) (sy_held s) (sy_excl s) x (io_at s x)"
proof -
  assume "inv_on P s" "valid_slot s x"
  moreover have "(sy_held s)(x := held (io_guard (io_at s x))) = sy_held s" if "valid_slot s x"
    using that by (intro fun_upd_idem) (simp add: sy_held_def)
  moreover have "(sy_excl s)(x := gd_isExclusive (io_guard (io_at s x))) = sy_excl s" if "valid_slot s x"
    using that by (intro fun_upd_idem) (simp add: sy_excl_def)
  ultimately show ?thesis by (simp add: inv_on_locks)
qed

lemma other_blocks_disjoint:
  assumes "inv_on P s" "P (fst y)" "valid_slot s y" "sy_inflight s y \<noteq> None" "io_journal (io_at s y) = j" "y \<noteq> x"
    and "locks_with L (sy_held s) (sy_excl s) x io" "io_fits jn io" "io_locked jn True io" "jn_same_meta (sy_journals s j) jn"
  shows "io_blocks io \<inter> io_blocks (io_at s y) = {}"
proof -
  obtain off len where "sy_inflight s y = Some (off, len)" using assms(4) by auto
  then have "slot_ok (sy_journals s) (sy_spoiled s) (io_at s y) (Some (off, len)) (waits_in s y)" using inv_on_slot [OF assms(1,3,2)] by simp
  then obtain ex where f: "io_fits (sy_journals s j) (io_at s y)" "io_locked (sy_journals s j) ex (io_at s y)"
    using slot_ok_locked [of "sy_journals s" "sy_spoiled s" "io_at s y"] assms(5) by blast
  then have "io_fits jn (io_at s y)" "io_locked jn ex (io_at s y)"
    using same_meta_fits [OF assms(10)] same_meta_stripes [OF assms(10)] by (simp_all add: io_locked_def io_stripes_def)
  then show ?thesis
    using assms(3,6) by (intro exclusive_blocks_disjoint [where x = x and y = y, OF assms(7) _ _ _ assms(8,9)]) (simp_all add: sy_held_def)
qed

lemma outcome_cells:
  assumes "outcome_ok H E x mayBlock jn io0 (st, io, jn', L)" "io_fits jn io0"
  shows "\<forall>b. jcell jn' b = jcell jn b \<or> jcell jn' b = 0"
    and "(\<forall>b. jcell jn' b = jcell jn b) \<or> io_locked jn' True io \<and> io_fits jn' io \<and> (\<forall>b. b \<notin> io_blocks io \<longrightarrow> jcell jn' b = jcell jn b)"
proof -
  have f: "io_fits jn' io"
    using assms same_meta_fits [of jn jn'] by (auto simp: io_fits_def same_request_def)
  have c: "(\<forall>b. jcell jn' b = jcell jn b) \<or> io_clears io jn jn' \<and> io_locked jn' True io"
    using assms(1) by (cases st; auto split: jio_action.splits simp: io_writing_def)
  show "\<forall>b. jcell jn' b = jcell jn b \<or> jcell jn' b = 0" using c by (auto simp: io_clears_def)
  show "(\<forall>b. jcell jn' b = jcell jn b) \<or> io_locked jn' True io \<and> io_fits jn' io \<and> (\<forall>b. b \<notin> io_blocks io \<longrightarrow> jcell jn' b = jcell jn b)"
    using c f by (auto simp: io_clears_def)
qed

lemma io_matches_same:
  assumes "same_request io io'" "jn_same_meta jn jn'" "io_placed jn io off len" "io_fits jn io"
  shows "io_placed jn' io' off len" "io_fits jn' io'"
  using assms same_meta_fields [OF assms(2)] same_meta_blocks(1) [OF assms(2)] by (auto simp: io_matches_def same_request_def io_fits_def jn_num_cells_def)

text \<open>The slot after an outcome, as the bookkeeping of the worker has it.\<close>

lemma outcome_slot_ok:
  assumes "outcome_ok H E x mayBlock (J j) io0 (st, io, jn, L)" "io_journal io0 = j" "io_fits (J j) io0" "io_placed (J j) io0 off len"
    and "is_started st \<Longrightarrow> shifted_blocks jn io off len \<subseteq> S j" "st = Returned a \<or> st = WaitingIn wt"
  shows "slot_ok (J(j := jn)) S io (if is_started st then Some (off, len) else None)
    (case st of WaitingIn wt \<Rightarrow> Some (wt, off, len) | _ \<Rightarrow> None)"
proof -
  have m: "io_placed jn io off len" "io_fits jn io" "io_journal io = j" "guard_ok (io_guard io)"
    using io_matches_same [of io0 io "J j" jn off len] assms(1-4) by (auto simp: same_request_def)
  show ?thesis using assms(1,5,6) m by (auto simp: slot_ok_def is_started_def split: jio_action.splits)
qed

lemma inflight_finite: "worker_ok s w \<Longrightarrow> finite {slot. sy_inflight s (w, slot) \<noteq> None}"
  by (rule finite_subset [of _ "{..<length (journalIOSlots (sy_workers s w))}"]) (auto simp: worker_ok_def valid_slot_def)

lemma begin_worker_ok:
  assumes "inv_on (\<lambda>_. True) s" "valid_slot s (w, slot)" "sy_inflight s (w, slot) = None"
    and "mayBlock \<longrightarrow> (\<forall>slot'. sy_inflight s (w, slot') = None)" "\<forall>wt. st = WaitingIn wt \<longrightarrow> mayBlock" "\<nexists>ex. st = Raised ex"
  shows "worker_ok (begin_result K w slot j off len (journal_begin_done slot (st, io, jn, L) (sy_workers s w)) s) w'"
proof -
  let ?s = "begin_result K w slot j off len (journal_begin_done slot (st, io, jn, L) (sy_workers s w)) s"
  have w: "worker_ok s w'" for w' using inv_on_worker [OF assms(1)] by simp
  have "valid_slot ?s = valid_slot s"
    using assms(6) by (auto simp: valid_slot_def journal_begin_done_def Let_def fun_eq_iff split: jio_status.splits)
  moreover have "card {sl. sl \<noteq> slot \<longrightarrow> sy_inflight s (w, sl) \<noteq> None} = Suc (card {sl. sy_inflight s (w, sl) \<noteq> None})"
  proof -
    have "{sl. sl \<noteq> slot \<longrightarrow> sy_inflight s (w, sl) \<noteq> None} = insert slot {sl. sy_inflight s (w, sl) \<noteq> None}" by blast
    then show ?thesis using assms(3) card_insert_disjoint [OF inflight_finite [OF w]] by (simp only: mem_Collect_eq) simp
  qed
  ultimately show ?thesis
    using w [of w'] assms by (cases st; cases "w' = w")
      (auto simp: worker_ok_def journal_begin_done_def Let_def is_started_def split: if_splits)
qed

lemma begin_inv:
  assumes inv: "journal_inv s" and v: "valid_slot s (w, slot)" and idle: "sy_inflight s (w, slot) = None"
    and out: "outcome_ok (sy_held s) (sy_excl s) (w, slot) mayBlock (sy_journals s j) io0 (st, io, jn, L)"
    and io0: "io_journal io0 = j" "io_fits (sy_journals s j) io0" "io_placed (sy_journals s j) io0 off len"
    and block: "mayBlock \<longrightarrow> (\<forall>slot'. sy_inflight s (w, slot') = None)"
    and wait: "\<forall>slot'. slot' \<noteq> slot \<longrightarrow> waits_in s (w, slot') = None"
  shows "journal_inv (begin_result K w slot j off len (journal_begin_done slot (st, io, jn, L) (sy_workers s w)) s)"
proof -
  define s' where "s' = begin_result K w slot j off len (journal_begin_done slot (st, io, jn, L) (sy_workers s w)) s"
  have inv': "inv_on (\<lambda>_. True) s" using inv by (simp add: journal_inv_def)
  have m: "jn_same_meta (sy_journals s j) jn" and lw: "locks_with L (sy_held s) (sy_excl s) (w, slot) io" "guard_ok (io_guard io)"
    using out by simp_all
  have cells: "jcell jn b = jcell (sy_journals s j) b"
    if y: "y \<noteq> (w, slot)" "valid_slot s y" "sy_inflight s y \<noteq> None" "io_journal (io_at s y) = j" "b \<in> io_blocks (io_at s y)" for y b
    using outcome_cells(2) [OF out io0(2)] other_blocks_disjoint [OF inv' TrueI y(2-4,1) lw(1) _ _ m] y(5) by blast
  have content: "\<forall>k. content_ok (((sy_journals s)(j := jn)) k) (sy_spoiled s k) (sy_target s k)"
    using inv_on_content [OF inv'] content_ok_weaken [OF inv_on_content [OF inv'] m outcome_cells(1) [OF out io0(2)]] by simp
  show ?thesis
  proof (cases "\<exists>ex. st = Raised ex")
    case True
    then obtain ex where ex: "st = Raised ex" by blast
    define s1 where "s1 = s\<lparr>sy_workers := (sy_workers s)(w := (sy_workers s w)\<lparr>journalIOSlots := (journalIOSlots (sy_workers s w))[slot := io]\<rparr>),
      sy_journals := (sy_journals s)(j := jn), sy_locks := L\<rparr>"
    have "inv_on (\<lambda>w'. w' \<noteq> w) s1"
    proof (rule slot_update_inv [OF inv' v, where io = io and j = j and jn = jn])
      show "locks_with (sy_locks s1) (sy_held s) (sy_excl s) (w, slot) io" using lw by (simp add: s1_def)
      show "\<forall>w'. w' \<noteq> w \<longrightarrow> worker_ok s1 w'"
        using inv_on_worker [OF inv'] by (auto simp: worker_ok_def valid_slot_def s1_def)
    qed (use m lw cells content in \<open>auto simp: s1_def waits_in_def\<close>)
    then have "journal_inv (abort_worker K w s1)" by (rule abort_inv)
    then show ?thesis by (simp add: journal_begin_done_def s1_def ex Let_def)
  next
    case False
    then have "\<exists>a wt. st = Returned a \<or> st = WaitingIn wt" by (cases st) auto
    have wkr: "(journalIOSlots (sy_workers s w))[slot := io] ! slot = io" using v by (simp add: valid_slot_def)
    have sp: "\<forall>k. sy_spoiled s k \<subseteq> sy_spoiled s' k" "is_started st \<Longrightarrow> shifted_blocks jn io off len \<subseteq> sy_spoiled s' j"
      using False wkr by (auto simp: s'_def journal_begin_done_def Let_def is_started_def split: jio_status.splits)
    from \<open>\<exists>a wt. st = Returned a \<or> st = WaitingIn wt\<close> have ok: "slot_ok ((sy_journals s)(j := jn)) (sy_spoiled s') io (if is_started st then Some (off, len) else None)
      (case st of WaitingIn wt \<Rightarrow> Some (wt, off, len) | _ \<Rightarrow> None)"
      using outcome_slot_ok [where J = "sy_journals s" and j = j and S = "sy_spoiled s'", OF out io0 sp(2)] by blast
    have mb: "\<forall>wt. st = WaitingIn wt \<longrightarrow> mayBlock" using out by auto
    have "inv_on (\<lambda>_. True) s'"
    proof (rule slot_update_inv [OF inv' v, where io = io and j = j and jn = jn])
      have "sy_inflight s' (w, slot) = (if is_started st then Some (off, len) else None)"
        "waits_in s' (w, slot) = (case st of WaitingIn wt \<Rightarrow> Some (wt, off, len) | _ \<Rightarrow> None)"
        "sy_journals s' = (sy_journals s)(j := jn)"
        using False idle by (auto simp: s'_def journal_begin_done_def Let_def waits_in_def is_started_def split: jio_status.splits)
      then show "slot_ok (sy_journals s') (sy_spoiled s') io (sy_inflight s' (w, slot)) (waits_in s' (w, slot))" using ok by simp
      have "sy_journals s' = (sy_journals s)(j := jn)" "sy_target s' = sy_target s"
        using False by (simp_all add: s'_def journal_begin_done_def Let_def split: jio_status.splits)
      then show "\<forall>k. content_ok (sy_journals s' k) (sy_spoiled s' k) (sy_target s' k)"
        using content sp(1) content_ok_more by metis
      show "\<forall>k. sy_spoiled s k \<subseteq> sy_spoiled s' k" by (rule sp(1))
      show "\<forall>w'. True \<longrightarrow> worker_ok s' w'" using begin_worker_ok [OF inv' v idle block mb False] unfolding s'_def by blast
    qed (use False m lw cells wait in \<open>auto simp: s'_def journal_begin_done_def Let_def waits_in_def split: jio_status.splits\<close>)
    then show ?thesis by (simp add: journal_inv_def s'_def)
  qed
qed

lemma begin_step_inv:
  assumes inv: "journal_inv s" and "sy_waiting s w = None" "slot < length (journalIOSlots (sy_workers s w))" "sy_inflight s (w, slot) = None"
    and req: "request_ok (sy_maxIOSize s) (sy_journals s j) off len"
  shows "journal_inv (begin_result K w slot j off len
    (journalBeginIO env slot j off len intent (sy_workers s w) (sy_journals s j) (sy_locks s)) s)"
proof -
  let ?x = "(w, slot)" and ?io = "jio_setup j off len (slot_io s w slot) (sy_journals s j)"
  have i: "inv_on (\<lambda>_. True) s" and v: "valid_slot s ?x" using assms(1,3) by (simp_all add: journal_inv_def valid_slot_def)
  have w: "worker_ok s w" "waits_in s (w, slot') = None" for slot'
    using inv_on_worker [OF i] assms(2) by (simp_all add: waits_in_def)
  have "slot_ok (sy_journals s) (sy_spoiled s) (io_at s ?x) None None" using inv_on_slot [OF i v] assms(4) w(2) by simp
  then have n: "gd_numLocks (io_guard (slot_io s w slot)) = 0" by (simp add: slot_ok_def)
  note r = jio_setup_request [OF inv_on_journal [OF i, of j] req, of j "slot_io s w slot"]
  obtain st io jn L where b: "jio_begin env j off len intent (journalNumGuardsHeld (sy_workers s w) = 0) (slot_io s w slot)
    (sy_journals s j) (sy_locks s) = (st, io, jn, L)" by (metis prod.exhaust)
  have o: "outcome_ok (sy_held s) (sy_excl s) ?x (journalNumGuardsHeld (sy_workers s w) = 0) (sy_journals s j) ?io (st, io, jn, L)"
    unfolding b [symmetric] using own_locks [OF i v] n inv_on_journal [OF i, of j] r(1) by (intro jio_begin_ok) (simp_all add: journal_ok_def)
  have "\<forall>slot'. sy_inflight s (w, slot') = None" if "journalNumGuardsHeld (sy_workers s w) = 0"
  proof -
    have "card {slot. sy_inflight s (w, slot) \<noteq> None} = 0" using w(1) that unfolding worker_ok_def by argo
    then have "{slot. sy_inflight s (w, slot) \<noteq> None} = {}" using inflight_finite [OF w(1)] by (simp only: card_0_eq)
    then show ?thesis by blast
  qed
  then show ?thesis
    unfolding journalBeginIO_def b by (intro begin_inv [OF inv v assms(4) o _ r(1) impI [OF r(2)]]) (simp_all add: w(2) jio_setup_def Let_def)
qed

lemma resume_step_inv:
  assumes inv: "journal_inv s" and "sy_waiting s w = Some (slot, wt, off, len)" "j = io_journal (slot_io s w slot)"
  shows "journal_inv (begin_result K w slot j off len (journalResumeIO env slot wt (sy_workers s w) (sy_journals s j) (sy_locks s)) s)"
proof -
  let ?x = "(w, slot)"
  have i: "inv_on (\<lambda>_. True) s" using inv by (simp add: journal_inv_def)
  have v: "valid_slot s ?x" "\<forall>slot'. sy_inflight s (w, slot') = None"
    using inv_on_worker [OF i, of w] assms(2) by (auto simp: worker_ok_def)
  have wt: "waits_in s ?x = Some (wt, off, len)" "\<forall>slot'. slot' \<noteq> slot \<longrightarrow> waits_in s (w, slot') = None"
    using assms(2) by (simp_all add: waits_in_def)
  have ok: "slot_ok (sy_journals s) (sy_spoiled s) (slot_io s w slot) None (Some (wt, off, len))" using inv_on_slot [OF i v(1)] v(2) wt(1) by simp
  obtain st io jn L where b: "jio_resume env wt (slot_io s w slot) (sy_journals s j) (sy_locks s) = (st, io, jn, L)" by (metis prod.exhaust)
  have o: "outcome_ok (sy_held s) (sy_excl s) ?x True (sy_journals s j) (slot_io s w slot) (st, io, jn, L)"
    unfolding b [symmetric] using ok own_locks [OF i v(1)] assms(3) by (intro jio_resume_ok) (simp_all add: slot_ok_def)
  have f: "io_fits (sy_journals s j) (slot_io s w slot)" "io_placed (sy_journals s j) (slot_io s w slot) off len"
    using ok assms(3) by (simp_all add: slot_ok_def)
  show ?thesis
    unfolding journalResumeIO_def b by (rule begin_inv [OF inv v(1) _ o assms(3) [symmetric] f]) (use v(2) wt(2) in simp_all)
qed

subsection \<open>Writing to the target\<close>

lemma block_bytes_untouched:
  assumes "\<forall>a. \<not> (unat off \<le> a \<and> a < unat off + n) \<longrightarrow> target' a = target a" "b \<notin> touched_blocks jn off n"
  shows "block_bytes jn target' b = block_bytes jn target b"
  using assms by (auto simp: block_bytes_def touched_blocks_def)

lemma touched_whole:
  assumes "io_matches jn io off len"
  shows "touched_blocks jn off (unat len) \<subseteq> io_blocks io"
proof
  let ?B = "unat (jn_journalBlockSize jn)" and ?a = "unat (io_baseBlockIdx io)" and ?n = "unat (io_numBlocks io)"
  fix b
  assume "b \<in> touched_blocks jn off (unat len)"
  then obtain i where i: "i < ?B" "?a * ?B \<le> b * ?B + i" "b * ?B + i < ?a * ?B + ?n * ?B"
    using assms by (auto simp: touched_blocks_def io_matches_def)
  then have "?a * ?B < (b + 1) * ?B" "b * ?B < (?a + ?n) * ?B" by (simp_all add: add_mult_distrib)
  then have "?a < b + 1" "b < ?a + ?n" by (simp_all only: mult_less_cancel2)
  then show "b \<in> io_blocks io" by (simp add: io_blocks_def)
qed

lemma touched_mono: "m \<le> n \<Longrightarrow> touched_blocks jn off m \<subseteq> touched_blocks jn off n"
  by (fastforce simp: touched_blocks_def)

lemma content_ok_untouched:
  assumes "content_ok jn S target" "\<forall>a. \<not> (unat off \<le> a \<and> a < unat off + n) \<longrightarrow> target' a = target a"
    and "\<And>b. b \<in> touched_blocks jn off n \<Longrightarrow> b \<in> S \<or> jcell jn b = 0"
  shows "content_ok jn S target'"
  unfolding content_ok_def
proof (intro allI impI)
  fix b
  assume b: "b < unat (jn_numJournalBlocks jn)" "b \<notin> S" "jcell jn b \<noteq> 0"
  then have "block_bytes jn target' b = block_bytes jn target b"
    using assms(3) by (intro block_bytes_untouched [OF assms(2)]) blast
  then show "block_bytes jn target' b = block_tile jn b (jcell jn b)" using assms(1) b by (simp add: content_ok_def)
qed

text \<open>The blocks that a write in flight touches are marked busy, or are spoiled when it is not of whole blocks.\<close>

lemma writing_touches:
  assumes "slot_ok J S io (Some (off, len)) wait" "jio_isWrite io" "b \<in> touched_blocks (J (io_journal io)) off (unat len)"
  shows "b \<in> S (io_journal io) \<or> jcell (J (io_journal io)) b = 0"
proof (cases "whole_blocks (J (io_journal io)) off len")
  case True
  have w: "io_writing (J (io_journal io)) io" and m: "io_matches (J (io_journal io)) io off len"
    using assms(1,2) True by (auto simp: slot_ok_def io_reading_def jio_isWrite_def)
  have "b \<in> io_blocks io" using touched_whole [OF m] assms(3) by blast
  then have "jcell (J (io_journal io)) (unat (io_baseBlockIdx io) + (b - unat (io_baseBlockIdx io))) = 0"
    using w unfolding io_writing_def io_blocks_def by (metis atLeastLessThan_iff add_less_imp_less_left le_add_diff_inverse)
  then show ?thesis using \<open>b \<in> io_blocks io\<close> by (simp add: io_blocks_def)
next
  case False
  then show ?thesis using assms by (auto simp: slot_ok_def shifted_blocks_def)
qed

text \<open>Bytes that the system stores, and the whole write of an I/O's expected content.\<close>

lemma store_bytes_target:
  "sy_target (store_bytes j off buf s) k =
     (if k = j then \<lambda>a. if unat off \<le> a \<and> a < unat off + length buf then buf ! (a - unat off) else sy_target s j a else sy_target s k)"
  by (simp add: store_bytes_def)

lemma store_inv:
  assumes inv: "inv_on (\<lambda>_. True) s" and n: "length buf \<le> n"
    and b: "\<And>b. b \<in> touched_blocks (sy_journals s j) off n \<Longrightarrow> b \<in> sy_spoiled s j \<or> jcell (sy_journals s j) b = 0"
  shows "inv_on (\<lambda>_. True) (store_bytes j off buf s)"
proof -
  let ?s = "store_bytes j off buf s"
  have "content_ok (sy_journals s k) (sy_spoiled s k) (sy_target ?s k)" for k
  proof (cases "k = j")
    case True
    then show ?thesis using n b by (intro content_ok_untouched [OF inv_on_content [OF inv], of off n]) (auto simp: store_bytes_target)
  qed (use inv_on_content [OF inv, of k] in \<open>simp add: store_bytes_target\<close>)
  moreover have "sy_held ?s = sy_held s" "sy_excl ?s = sy_excl s" "valid_slot ?s = valid_slot s" "waits_in ?s = waits_in s"
    by (rule ext; simp add: sy_held_def sy_excl_def valid_slot_def waits_in_def store_bytes_def)+
  ultimately show ?thesis
    using inv by (auto simp: inv_on_def store_bytes_def worker_ok_def)
qed

lemma store_bytes_inv:
  assumes inv: "inv_on (\<lambda>_. True) s" and "sy_inflight s (w, slot) = Some (off, len)" "jio_isWrite (slot_io s w slot)" "length buf \<le> unat len"
  shows "inv_on (\<lambda>_. True) (store_bytes (io_journal (slot_io s w slot)) off buf s)"
proof (rule store_inv [OF inv assms(4)])
  have v: "valid_slot s (w, slot)" using inv_on_worker [OF inv, of w] assms(2) by (auto simp: worker_ok_def)
  have "slot_ok (sy_journals s) (sy_spoiled s) (slot_io s w slot) (Some (off, len)) (waits_in s (w, slot))"
    using inv_on_slot [OF inv v] assms(2) by simp
  then show "b \<in> sy_spoiled s (io_journal (slot_io s w slot)) \<or> jcell (sy_journals s (io_journal (slot_io s w slot))) b = 0"
    if "b \<in> touched_blocks (sy_journals s (io_journal (slot_io s w slot))) off (unat len)" for b
    using writing_touches assms(3) that by blast
qed

lemma orphan_store_inv:
  assumes "inv_on (\<lambda>_. True) s" "(j, off, len) \<in> sy_orphans s" "length buf = unat len"
  shows "inv_on (\<lambda>_. True) (store_bytes j off buf s)"
  using assms inv_on_orphans [OF assms(1), of j] by (intro store_inv [where n = "unat len"]) (auto simp: orphan_blocks_def)

lemma spoil_inv: 
  assumes "inv_on P s"
  shows "inv_on P (spoil j B s)"
proof -
  let ?s = "spoil j B s"
  have sp: "\<forall>k. sy_spoiled s k \<subseteq> sy_spoiled ?s k" by (simp add: spoil_def)
  have "slot_ok (sy_journals s) (sy_spoiled ?s) io infl wt" if "slot_ok (sy_journals s) (sy_spoiled s) io infl wt" for io infl wt
    using slot_ok_frame [OF that _ sp] by (simp add: jc.meta_refl)
  moreover have "content_ok (sy_journals s k) (sy_spoiled ?s k) (sy_target s k)" "orphan_blocks (sy_journals s) (sy_orphans s) k \<subseteq> sy_spoiled ?s k" for k
    using content_ok_more [OF inv_on_content [OF assms]] inv_on_orphans [OF assms, of k] sp by blast+
  moreover have "sy_held ?s = sy_held s" "sy_excl ?s = sy_excl s" "valid_slot ?s = valid_slot s" "waits_in ?s = waits_in s"
    by (rule ext; simp add: sy_held_def sy_excl_def valid_slot_def waits_in_def spoil_def)+
  moreover have "worker_ok ?s w = worker_ok s w" for w by (simp add: worker_ok_def valid_slot_def spoil_def)
  moreover have "sy_maxIOSize ?s = sy_maxIOSize s" "sy_journals ?s = sy_journals s" "sy_target ?s = sy_target s" "sy_locks ?s = sy_locks s"
    "sy_workers ?s = sy_workers s" "sy_inflight ?s = sy_inflight s" "sy_orphans ?s = sy_orphans s" by (simp_all add: spoil_def)
  ultimately show ?thesis using assms unfolding inv_on_def by simp
qed

lemma concat_tiles_nth:
  assumes "\<forall>i < n. length (f i) = B" "i < n" "k < B"
  shows "concat (map f [0..<n]) ! (i * B + k) = f i ! k"
  using assms
proof (induction n)
  case (Suc n)
  have len: "length (concat (map f [0..<n])) = n * B" using Suc.prems(1) by (simp add: length_concat comp_def sum_list_triv interv_sum_list_conv_sum_set_nat)
  show ?case
  proof (cases "i = n")
    case True
    then show ?thesis using len Suc.prems by (simp add: nth_append)
  next
    case False
    then have "Suc i * B \<le> n * B" using Suc.prems(2) by (intro mult_right_mono) simp_all
    then have "i * B + k < n * B" using Suc.prems(3) by simp
    then show ?thesis using len Suc False by (simp add: nth_append)
  qed
qed simp

lemma fill_buffer:
  assumes "io_matches jn io off len" "jn_journalBlockSize jn \<noteq> 0" "jio_isWrite io" "length hostIOBuf = unat len"
    and "preWriteJournalFillBuf io jn off hostIOBuf = Inr buf"
  shows "buf = concat (map (io_tile jn off (io_gens io)) [0..<unat (io_numBlocks io)])" "length buf = unat len"
proof -
  have len: "unat len = unat (io_numBlocks io) * unat (jn_journalBlockSize jn)" using assms(1) by (simp add: io_matches_def)
  show buf: "buf = concat (map (io_tile jn off (io_gens io)) [0..<unat (io_numBlocks io)])"
    using assms(2-5) journal_fill_loop_tiles [OF assms(2), of 0 "unat (io_numBlocks io)" "io_gens io" off] len
    by (simp add: preWriteJournalFillBuf_def)
  show "length buf = unat len" by (simp add: buf len length_concat comp_def sum_list_triv)
qed

lemma fill_gives_tiles:
  assumes "io_matches jn io off len" "jn_journalBlockSize jn \<noteq> 0" "jio_isWrite io" "length hostIOBuf = unat len"
    and "preWriteJournalFillBuf io jn off hostIOBuf = Inr buf" "i < unat (io_numBlocks io)"
    and "\<forall>a. unat off \<le> a \<and> a < unat off + n \<longrightarrow> target a = buf ! (a - unat off)" "(i + 1) * unat (jn_journalBlockSize jn) \<le> n"
  shows "block_bytes jn target (unat (io_baseBlockIdx io) + i) = block_tile jn (unat (io_baseBlockIdx io) + i) (io_gens io ! i)"
proof -
  let ?B = "unat (jn_journalBlockSize jn)" and ?n = "unat (io_numBlocks io)" and ?a = "unat (io_baseBlockIdx io)"
  have B: "0 < ?B" using assms(2) by (simp add: word_ne_0_pos)
  have len: "unat len = ?n * ?B" "unat off = unat (jn_targetOffset jn) + ?a * ?B" using assms(1) by (simp_all add: io_matches_def)
  note buf = fill_buffer(1) [OF assms(1-5)]
  have "off = jn_targetOffset jn + of_nat (?a * ?B)"
  proof -
    have "of_nat (unat off) = (of_nat (unat (jn_targetOffset jn) + ?a * ?B) :: u64)" by (simp only: len(2))
    then show ?thesis by simp
  qed
  then have tile: "io_tile jn off (io_gens io) i = block_tile jn (?a + i) (io_gens io ! i)"
    by (simp add: io_tile_def block_tile_def add_mult_distrib add.assoc)
  have "target (unat (jn_targetOffset jn) + (?a + i) * ?B + k) = io_tile jn off (io_gens io) i ! k" if "k < ?B" for k
    using assms(6-8) that len concat_tiles_nth [of ?n "io_tile jn off (io_gens io)" ?B i k]
    by (simp add: buf add_mult_distrib add.assoc)
  then show "block_bytes jn target (?a + i) = block_tile jn (?a + i) (io_gens io ! i)"
    unfolding block_bytes_def tile [symmetric] by (intro nth_equalityI) simp_all
qed

subsection \<open>Finishing an I/O\<close>

definition committed_cells :: "journal_block_io \<Rightarrow> journal \<Rightarrow> nat \<Rightarrow> u8" where
  "committed_cells io jn b =
     (if jio_isWrite io \<and> b \<in> io_blocks io then io_gens io ! (b - unat (io_baseBlockIdx io)) else jcell jn b)"

lemma jio_commit_ok:
  assumes lw: "locks_with L H E x io" "guard_ok (io_guard io)" and f: "io_fits jn io" "io_reading jn io \<or> io_writing jn io"
    and c: "jio_commit env io jn L = (ex, io', jn', L')"
  shows "jn_same_meta jn jn'" "jcell jn' = committed_cells io jn" "guard_ok (io_guard io')" "locks_with L' H E x io'"
    "ex = None \<Longrightarrow> gd_numLocks (io_guard io') = 0"
proof -
  obtain io1 L1 where r: "jio_release io L = (io1, L1)" by (metis prod.exhaust)
  note rel = jio_release_ok [OF lw r]
  have "jn_same_meta jn jn' \<and> jcell jn' = committed_cells io jn \<and> (ex = None \<and> io' = io1 \<and> L' = L1 \<or> ex \<noteq> None \<and> io' = io \<and> L' = L)"
  proof (cases "jio_isWrite io")
    case False
    then show ?thesis using c r by (auto simp: jio_commit_def jio_isWrite_def jc.meta_refl committed_cells_def)
  next
    case True
    then have w: "io_writing jn io" using f(2) by (auto simp: io_reading_def jio_isWrite_def)
    let ?a = "unat (io_baseBlockIdx io)" and ?n = "unat (io_numBlocks io)"
    obtain jn1 where l: "commit_loop (io_baseBlockIdx io) [0..<?n] (io_gens io) jn = (None, jn1)"
      "jcell jn1 = set_cells ?a 0 ?n (io_gens io) (jcell jn)" "jn_same_meta jn jn1"
      using commit_loop_result [of "io_baseBlockIdx io" ?n jn 0 "io_gens io"] f(1) w by (auto simp: io_fits_def io_writing_def)
    have "jcell jn1 = committed_cells io jn"
      using True by (auto simp: l(2) set_cells_def committed_cells_def io_blocks_def fun_eq_iff)
    then show ?thesis using c r l(1,3) True by (auto simp: jio_commit_def jio_isWrite_def split: sum.splits)
  qed
  then show "jn_same_meta jn jn'" "jcell jn' = committed_cells io jn" "guard_ok (io_guard io')" "locks_with L' H E x io'"
    "ex = None \<Longrightarrow> gd_numLocks (io_guard io') = 0" using rel lw by auto
qed

lemma finish_worker_ok:
  assumes "inv_on (\<lambda>_. True) s" "sy_inflight s (w, slot) \<noteq> None" "valid_slot s' = valid_slot s" "sy_waiting s' = sy_waiting s"
    and "sy_inflight s' = (sy_inflight s)((w, slot) := None)" "\<forall>w'. w' \<noteq> w \<longrightarrow> sy_workers s' w' = sy_workers s w'"
    and "journalNumGuardsHeld (sy_workers s' w) = journalNumGuardsHeld (sy_workers s w) - 1"
  shows "worker_ok s' w'"
proof -
  have w: "worker_ok s w'" for w' using inv_on_worker [OF assms(1)] by simp
  have "{sl. ((sy_inflight s)((w, slot) := None)) (w, sl) \<noteq> None} = {sl. sy_inflight s (w, sl) \<noteq> None} - {slot}" by auto
  then have "card {sl. ((sy_inflight s)((w, slot) := None)) (w, sl) \<noteq> None} = card {sl. sy_inflight s (w, sl) \<noteq> None} - 1"
    using assms(2) card_Diff_singleton [of slot "{sl. sy_inflight s (w, sl) \<noteq> None}"] by (simp only: mem_Collect_eq simp_thms)
  then show ?thesis
    using w [of w'] w [of w] assms(2-7) unfolding worker_ok_def assms(3-5) by (cases "w' = w") auto
qed

lemma inflight_slot:
  assumes "inv_on (\<lambda>_. True) s" "sy_inflight s (w, slot) = Some (off, len)" "j = io_journal (slot_io s w slot)"
  shows "valid_slot s (w, slot)" "waits_in s (w, slot) = None" "io_fits (sy_journals s j) (slot_io s w slot)"
    "io_placed (sy_journals s j) (slot_io s w slot) off len"
    "io_reading (sy_journals s j) (slot_io s w slot) \<or> io_writing (sy_journals s j) (slot_io s w slot)"
    "shifted_blocks (sy_journals s j) (slot_io s w slot) off len \<subseteq> sy_spoiled s j"
proof -
  show v: "valid_slot s (w, slot)" using inv_on_worker [OF assms(1), of w] assms(2) by (auto simp: worker_ok_def)
  have "slot_ok (sy_journals s) (sy_spoiled s) (slot_io s w slot) (Some (off, len)) (waits_in s (w, slot))" using inv_on_slot [OF assms(1) v] assms(2) by simp
  then show "waits_in s (w, slot) = None" "io_fits (sy_journals s j) (slot_io s w slot)"
    "io_placed (sy_journals s j) (slot_io s w slot) off len"
    "io_reading (sy_journals s j) (slot_io s w slot) \<or> io_writing (sy_journals s j) (slot_io s w slot)"
    "shifted_blocks (sy_journals s j) (slot_io s w slot) off len \<subseteq> sy_spoiled s j"
    using assms(3) by (simp_all add: slot_ok_def)
qed

lemma content_ok_commit:
  assumes "content_ok jn S target" "jn_same_meta jn jn'" "jcell jn' = committed_cells io jn"
    and "jio_isWrite io \<longrightarrow> (\<forall>i < unat (io_numBlocks io). unat (io_baseBlockIdx io) + i \<in> S \<or>
      block_bytes jn target (unat (io_baseBlockIdx io) + i) = block_tile jn (unat (io_baseBlockIdx io) + i) (io_gens io ! i))"
  shows "content_ok jn' S target"
  unfolding content_ok_def
proof (intro allI impI)
  fix b
  assume b: "b < unat (jn_numJournalBlocks jn')" "b \<notin> S" "jcell jn' b \<noteq> 0"
  have e: "block_bytes jn' target b = block_bytes jn target b" "block_tile jn' b g = block_tile jn b g" for g
    using same_meta_fields [OF assms(2)] by (simp_all add: block_bytes_def block_tile_def)
  show "block_bytes jn' target b = block_tile jn' b (jcell jn' b)"
  proof (cases "jio_isWrite io \<and> b \<in> io_blocks io")
    case True
    then show ?thesis using assms(3,4) b(2) by (auto simp: e committed_cells_def io_blocks_def dest: spec [of _ "b - unat (io_baseBlockIdx io)"])
  next
    case False
    then show ?thesis using assms(1,3) b same_meta_fields [OF assms(2)] by (auto simp: e committed_cells_def content_ok_def)
  qed
qed

lemma commit_inv:
  assumes inv: "inv_on (\<lambda>_. True) s" and infl: "sy_inflight s (w, slot) = Some (off, len)" and j: "j = io_journal (slot_io s w slot)"
    and wr: "jio_isWrite (slot_io s w slot) \<longrightarrow> (\<forall>i < unat (io_numBlocks (slot_io s w slot)).
      unat (io_baseBlockIdx (slot_io s w slot)) + i \<in> sy_spoiled s j \<or> block_bytes (sy_journals s j) (sy_target s j) (unat (io_baseBlockIdx (slot_io s w slot)) + i) =
      block_tile (sy_journals s j) (unat (io_baseBlockIdx (slot_io s w slot)) + i) (io_gens (slot_io s w slot) ! i))"
  shows "journal_inv (commit_result K w slot j (journalCommitIO env slot (sy_workers s w) (sy_journals s j) (sy_locks s)) s)"
proof -
  let ?x = "(w, slot)" and ?io = "slot_io s w slot" and ?jn = "sy_journals s j"
  note sl = inflight_slot [OF inv infl j]
  obtain ex io jn L where c: "jio_commit env ?io ?jn (sy_locks s) = (ex, io, jn, L)" by (metis prod.exhaust)
  have lw0: "locks_with (sy_locks s) (sy_held s) (sy_excl s) ?x ?io" "guard_ok (io_guard ?io)"
    using own_locks [OF inv sl(1)] inv_on_guard [OF inv sl(1)] by simp_all
  note co = jio_commit_ok [OF lw0 sl(3,5) c]
  have cells: "jcell jn b = jcell ?jn b"
    if y: "y \<noteq> ?x" "valid_slot s y" "sy_inflight s y \<noteq> None" "io_journal (io_at s y) = j" "b \<in> io_blocks (io_at s y)" for y b
  proof (cases "jio_isWrite ?io")
    case True
    then have "io_locked ?jn True ?io" using sl(5) by (auto simp: io_reading_def io_writing_def jio_isWrite_def)
    then have "io_blocks ?io \<inter> io_blocks (io_at s y) = {}"
      using other_blocks_disjoint [OF inv TrueI y(2-4,1) lw0(1) sl(3)] jc.meta_refl by blast
    then show ?thesis using y(5) by (auto simp: co(2) committed_cells_def)
  qed (simp add: co(2) committed_cells_def)
  have content: "content_ok (((sy_journals s)(j := jn)) k) (sy_spoiled s k) (sy_target s k)" for k
    using inv_on_content [OF inv] content_ok_commit [OF inv_on_content [OF inv] co(1,2) wr] by simp
  define wk where "wk = (sy_workers s w)\<lparr>journalIOSlots := (journalIOSlots (sy_workers s w))[slot := io],
    journalNumGuardsHeld := (if ex = None then journalNumGuardsHeld (sy_workers s w) - 1 else journalNumGuardsHeld (sy_workers s w))\<rparr>"
  define s1 where "s1 = s\<lparr>sy_workers := (sy_workers s)(w := wk), sy_journals := (sy_journals s)(j := jn), sy_locks := L\<rparr>"
  show ?thesis
  proof (cases "ex = None")
    case True
    let ?s = "s1\<lparr>sy_inflight := (sy_inflight s)(?x := None)\<rparr>"
    have "inv_on (\<lambda>_. True) ?s"
    proof (rule slot_update_inv [OF inv sl(1), where io = io and j = j and jn = jn])
      show "slot_ok (sy_journals ?s) (sy_spoiled ?s) io (sy_inflight ?s ?x) (waits_in ?s ?x)"
        using co(3) co(5) [OF True] sl(2) by (simp add: slot_ok_def waits_in_def s1_def)
      show "\<forall>w'. True \<longrightarrow> worker_ok ?s w'"
        using infl True by (intro allI impI finish_worker_ok [OF inv]) (auto simp: s1_def wk_def valid_slot_def fun_eq_iff)
    qed (use co cells content in \<open>auto simp: s1_def wk_def waits_in_def\<close>)
    then show ?thesis by (simp add: journalCommitIO_def c s1_def wk_def True journal_inv_def Let_def)
  next
    case False
    have "inv_on (\<lambda>w'. w' \<noteq> w) s1"
    proof (rule slot_update_inv [OF inv sl(1), where io = io and j = j and jn = jn])
      show "\<forall>w'. w' \<noteq> w \<longrightarrow> worker_ok s1 w'"
        using inv_on_worker [OF inv] by (auto simp: worker_ok_def valid_slot_def s1_def)
    qed (use co cells content in \<open>auto simp: s1_def wk_def waits_in_def\<close>)
    then show ?thesis using abort_inv [of w s1 K] False by (auto simp: journalCommitIO_def c s1_def wk_def Let_def)
  qed
qed

lemma store_bytes_frame [simp]:
  "sy_journals (store_bytes j off buf s) = sy_journals s" "sy_workers (store_bytes j off buf s) = sy_workers s"
  "sy_locks (store_bytes j off buf s) = sy_locks s" "sy_inflight (store_bytes j off buf s) = sy_inflight s"
  "sy_spoiled (store_bytes j off buf s) = sy_spoiled s"
  by (simp_all add: store_bytes_def)

lemma spoil_frame [simp]:
  "sy_journals (spoil j B s) = sy_journals s" "sy_workers (spoil j B s) = sy_workers s" "sy_locks (spoil j B s) = sy_locks s"
  "sy_inflight (spoil j B s) = sy_inflight s" "sy_target (spoil j B s) = sy_target s" "sy_spoiled (spoil j B s) j = sy_spoiled s j \<union> B"
  by (simp_all add: spoil_def)

text \<open>A block of a write that was committed after its first \<open>n\<close> bytes is spoiled or has the bytes of its generation.\<close>

lemma written_block:
  assumes "io_placed jn io off len" "shifted_blocks jn io off len \<subseteq> S" "jn_journalBlockSize jn \<noteq> 0" "jio_isWrite io"
    and "length hostIOBuf = unat len" "preWriteJournalFillBuf io jn off hostIOBuf = Inr buf" "i < unat (io_numBlocks io)"
    and "\<forall>a. unat off \<le> a \<and> a < unat off + length (take n buf) \<longrightarrow> target a = buf ! (a - unat off)" "n \<le> unat len"
  shows "unat (io_baseBlockIdx io) + i \<in> S \<union> unwritten_blocks jn io off n \<or>
    block_bytes jn target (unat (io_baseBlockIdx io) + i) = block_tile jn (unat (io_baseBlockIdx io) + i) (io_gens io ! i)"
proof -
  have b: "unat (io_baseBlockIdx io) + i \<in> io_blocks io" using assms(7) by (simp add: io_blocks_def)
  show ?thesis
  proof (cases "whole_blocks jn off len")
    case True
    then have m: "io_matches jn io off len" using assms(1) by blast
    then have "(i + 1) * unat (jn_journalBlockSize jn) \<le> n" if "unat (io_baseBlockIdx io) + i \<notin> unwritten_blocks jn io off n"
      using that b by (simp add: unwritten_blocks_def io_matches_def add_mult_distrib)
    moreover have "\<forall>a. unat off \<le> a \<and> a < unat off + n \<longrightarrow> target a = buf ! (a - unat off)"
      using assms(8,9) fill_buffer(2) [OF m assms(3-6)] by simp
    ultimately show ?thesis using fill_gives_tiles [OF m assms(3-7)] by blast
  next
    case False
    then show ?thesis using assms(2,4) b by (auto simp: shifted_blocks_def)
  qed
qed

lemma finish_write_inv:
  assumes inv: "journal_inv s" and infl: "sy_inflight s (w, slot) = Some (off, len)" "jio_isWrite (slot_io s w slot)"
    and j: "j = io_journal (slot_io s w slot)" and b: "length hostIOBuf = unat len"
      "preWriteJournalFillBuf (slot_io s w slot) (sy_journals s j) off hostIOBuf = Inr buf" and n: "n \<le> unat len"
  shows "journal_inv (commit_result K w slot j (journalCommitIO env slot (sy_workers s w) (sy_journals s j) (sy_locks s))
    (spoil j (unwritten_blocks (sy_journals s j) (slot_io s w slot) off n) (store_bytes j off (take n buf) s)))"
proof -
  let ?io = "slot_io s w slot" and ?s1 = "store_bytes j off (take n buf) s"
  let ?s = "spoil j (unwritten_blocks (sy_journals s j) ?io off n) ?s1"
  have i: "inv_on (\<lambda>_. True) s" using inv by (simp add: journal_inv_def)
  note sl = inflight_slot [OF i infl(1) j]
  have jn: "jn_journalBlockSize (sy_journals s j) \<noteq> 0" using inv_on_journal [OF i, of j] by (simp add: journal_ok_def)
  have "inv_on (\<lambda>_. True) ?s" using spoil_inv [OF store_bytes_inv [OF i infl]] n j by simp
  moreover have st: "\<forall>a. unat off \<le> a \<and> a < unat off + length (take n buf) \<longrightarrow> sy_target ?s1 j a = buf ! (a - unat off)"
    by (auto simp: store_bytes_target)
  have "unat (io_baseBlockIdx ?io) + k \<in> sy_spoiled ?s j \<or> block_bytes (sy_journals s j) (sy_target ?s j) (unat (io_baseBlockIdx ?io) + k) =
    block_tile (sy_journals s j) (unat (io_baseBlockIdx ?io) + k) (io_gens ?io ! k)" if "k < unat (io_numBlocks ?io)" for k
    using written_block [OF sl(4,6) jn infl(2) b that st n] by simp
  ultimately have "journal_inv (commit_result K w slot j (journalCommitIO env slot (sy_workers ?s w) (sy_journals ?s j) (sy_locks ?s)) ?s)"
    by (intro commit_inv [where off = off and len = len]) (simp_all add: infl(1) j)
  then show ?thesis by simp
qed

lemma fail_inv:
  assumes inv: "journal_inv s" and infl: "sy_inflight s (w, slot) = Some (off, len)"
    and r: "journalReleaseIO slot (sy_workers s w) (sy_locks s) = (wk, L)"
  shows "journal_inv (s\<lparr>sy_workers := (sy_workers s)(w := wk), sy_locks := L, sy_inflight := (sy_inflight s)((w, slot) := None)\<rparr>)"
    (is "journal_inv ?s")
proof -
  have i: "inv_on (\<lambda>_. True) s" using inv by (simp add: journal_inv_def)
  note sl = inflight_slot [OF i infl refl]
  let ?io = "slot_io s w slot" and ?j = "io_journal (slot_io s w slot)"
  obtain io L1 where rel: "jio_release ?io (sy_locks s) = (io, L1)" by (metis prod.exhaust)
  have lw: "locks_with (sy_locks s) (sy_held s) (sy_excl s) (w, slot) ?io" "guard_ok (io_guard ?io)"
    using own_locks [OF i sl(1)] inv_on_guard [OF i sl(1)] by simp_all
  note ro = jio_release_ok [OF lw rel]
  have wk: "wk = (sy_workers s w)\<lparr>journalIOSlots := (journalIOSlots (sy_workers s w))[slot := io],
    journalNumGuardsHeld := journalNumGuardsHeld (sy_workers s w) - 1\<rparr>" "L = L1"
    using r rel by (simp_all add: journalReleaseIO_def)
  have "inv_on (\<lambda>_. True) ?s"
  proof (rule slot_update_inv [OF i sl(1), where io = io and j = ?j and jn = "sy_journals s ?j"])
    show "slot_ok (sy_journals ?s) (sy_spoiled ?s) io (sy_inflight ?s (w, slot)) (waits_in ?s (w, slot))"
      using ro(2,3) sl(2) by (simp add: slot_ok_def waits_in_def)
    show "\<forall>w'. True \<longrightarrow> worker_ok ?s w'"
      using infl by (intro allI impI finish_worker_ok [OF i]) (auto simp: wk valid_slot_def fun_eq_iff)
  qed (use ro inv_on_content [OF i] in \<open>auto simp: wk waits_in_def jc.meta_refl\<close>)
  then show ?thesis by (simp add: journal_inv_def)
qed

subsection \<open>Starting a run\<close>

lemma initRunOptions_ok:
  assumes "journal_ok m jn" "unat maxIO < 2 ^ 63" "initRunOptions maxIO sync jn = Inr jn'"
  shows "journal_ok maxIO jn'" "content_ok jn' S target = content_ok jn S target"
proof -
  let ?B = "unat (jn_journalBlockSize jn)"
  define mb where "mb = (maxIO + jn_journalBlockSize jn - 1) div jn_journalBlockSize jn"
  have B: "0 < ?B" "?B < 2 ^ 63" using assms(1) by (simp_all add: journal_ok_def word_ne_0_pos)
  have "unat (jn_journalBlockSize jn - 1) = ?B - 1" using B(1) by (simp add: unat_sub_no word_le_nat_alt)
  moreover have "unat maxIO + (?B - 1) < W64" using assms(2) B(2) by simp
  ultimately have "unat (maxIO + (jn_journalBlockSize jn - 1)) = unat maxIO + (?B - 1)" by (subst unat_add_no) simp_all
  then have mb: "unat mb = (unat maxIO + (?B - 1)) div ?B" by (simp add: mb_def unat_div add_diff_eq)
  have "unat mb * ?B \<le> unat maxIO + (?B - 1)" unfolding mb by simp
  then have "unat mb \<le> unat maxIO \<or> unat maxIO = 0 \<and> unat mb = 0"
  proof (cases "unat mb")
    case (Suc k)
    then have "k * ?B + 1 \<le> unat maxIO" using \<open>unat mb * ?B \<le> _\<close> B(1) by simp
    moreover have "k \<le> k * ?B" using B(1) by simp
    ultimately show ?thesis using Suc by linarith
  qed simp
  then have "unat mb \<le> 2 ^ 63" using assms(2) by linarith
  then obtain r where r: "region_shift_loop mb 0 = Inr r" "r \<le> 63" "unat mb \<le> 2 ^ r"
    using region_shift_loop_result [of mb 0] by auto
  have jn': "jn' = jn\<lparr>jn_journalSyncEnabled := sync, jn_lockRegionShift := of_nat r, jn_stripeSalt := jn_journalSeed jn\<rparr>"
    using assms(1,3) r(1) by (simp add: initRunOptions_def journal_ok_def Let_def mb_def)
  have rr: "unat (of_nat r :: u32) = r" using r(2) by (simp add: unsigned_of_nat take_bit_nat_eq_self)
  have "unat maxIO \<le> unat mb * ?B"
  proof -
    have "unat maxIO + (?B - 1) < unat mb * ?B + ?B" unfolding mb using B(1) by (metis dividend_less_div_times mult.commute add.commute)
    then show ?thesis using B(1) by linarith
  qed
  then have "unat maxIO \<le> 2 ^ r * ?B" using r(3) by (meson le_trans mult_le_mono1)
  then show "journal_ok maxIO jn'" using assms(1) rr by (simp add: journal_ok_def jn' jn_covers_def)
  show "content_ok jn' S target = content_ok jn S target"
    by (simp add: content_ok_def jn' jcell_def block_bytes_def block_tile_def)
qed

definition journal_start :: "journal_system \<Rightarrow> bool" where
  "journal_start s \<longleftrightarrow> (\<exists>ioDepth maxIOSize jns target. s = run_start ioDepth maxIOSize jns target (\<lambda>_. {}) \<and> unat maxIOSize < 2 ^ 63 \<and>
     (\<forall>j. journal_ok maxIOSize (jns j) \<and> content_ok (jns j) {} (target j)))"

lemma run_start_inv:
  assumes "unat maxIOSize < 2 ^ 63" "\<forall>j. journal_ok maxIOSize (jns j) \<and> content_ok (jns j) (S j) (target j)"
  shows "journal_inv (run_start ioDepth maxIOSize jns target S)"
proof -
  let ?s = "run_start ioDepth maxIOSize jns target S"
  have io: "io_at ?s x = jio_new" if "valid_slot ?s x" for x
    using that by (simp add: run_start_def worker_start_def valid_slot_def)
  have "sy_held ?s = (\<lambda>_. {})" by (rule ext) (simp add: sy_held_def io jio_new_def guard_new_def held_def)
  then have "locks_ok (sy_locks ?s) (sy_held ?s) (sy_excl ?s)"
    by (simp add: locks_ok_def lock_ok_def holders_def run_start_def)
  moreover have "slot_ok (sy_journals ?s) (sy_spoiled ?s) (io_at ?s x) (sy_inflight ?s x) (waits_in ?s x)" if "valid_slot ?s x" for x
    unfolding io [OF that] by (simp add: slot_ok_def run_start_def waits_in_def jio_new_def guard_new_def guard_ok_def)
  moreover have "worker_ok ?s w" for w by (simp add: worker_ok_def run_start_def worker_start_def)
  moreover have "sy_maxIOSize ?s = maxIOSize" "sy_journals ?s = jns" "sy_target ?s = target" "sy_spoiled ?s = S" "sy_orphans ?s = {}"
    by (simp_all add: run_start_def)
  ultimately show ?thesis using assms unfolding journal_inv_def inv_on_def by (simp add: slot_ok_def orphan_blocks_def)
qed

lemma journal_step_inv:
  assumes "journal_step env s t" "journal_inv s"
  shows "journal_inv t"
  using assms
proof cases
  case (write_bytes w slot off len buf)
  then show ?thesis using store_bytes_inv assms(2) by (simp add: journal_inv_def)
next
  case (orphan_write j off len buf)
  then show ?thesis using orphan_store_inv assms(2) by (simp add: journal_inv_def)
next
  case (finish_read w slot off len j buf rwRes K)
  then show ?thesis using commit_inv [of s w slot off len j K env] assms(2) by (simp add: journal_inv_def)
next
  case (abort w K)
  then show ?thesis using abort_inv inv_on_mono assms(2) by (auto simp: journal_inv_def)
next
  case (restart maxIOSize sync jns ioDepth)
  have i: "inv_on (\<lambda>_. True) s" using assms(2) by (simp add: journal_inv_def)
  have "journal_ok maxIOSize (jns j) \<and> content_ok (jns j) (sy_spoiled s j) (sy_target s j)" for j
    using initRunOptions_ok [OF inv_on_journal [OF i] restart(2)] restart(3) inv_on_content [OF i, of j] by blast
  then show ?thesis using restart(1,2) run_start_inv by simp
qed (auto intro: begin_step_inv resume_step_inv finish_write_inv fail_inv)

interpretation journal_run: step_system "journal_step env" journal_start journal_inv for env
proof
  show "journal_start s \<Longrightarrow> journal_inv s" for s by (auto simp: journal_start_def intro: run_start_inv)
qed (rule journal_step_inv)

subsection \<open>Reads verify\<close>

lemma read_in_flight_verifies:
  assumes inv: "journal_inv s" and infl: "sy_inflight s (w, slot) = Some (off, len)"
    and j: "j = io_journal (slot_io s w slot)" and wh: "whole_blocks (sy_journals s j) off len"
    and sp: "io_blocks (slot_io s w slot) \<inter> sy_spoiled s j = {}"
  shows "postReadJournalVerifyBuf (slot_io s w slot) (sy_journals s j) off (load_bytes s j off len) = Inr ()"
proof (cases "jio_isWrite (slot_io s w slot)")
  case False
  let ?io = "slot_io s w slot" and ?jn = "sy_journals s j" and ?buf = "load_bytes s j off len"
  let ?n = "unat (io_numBlocks ?io)" and ?B = "unat (jn_journalBlockSize ?jn)" and ?b = "unat (io_baseBlockIdx ?io)"
  have i: "inv_on (\<lambda>_. True) s" using inv by (simp add: journal_inv_def)
  note sl = inflight_slot [OF i infl j]
  have rd: "io_gens ?io ! k = jcell ?jn (?b + k)" if "k < ?n" for k
    using sl(5) False that by (auto simp: io_writing_def io_reading_def jio_isWrite_def)
  have m: "unat off = unat (jn_targetOffset ?jn) + ?b * ?B" "unat len = ?n * ?B" "?b + ?n \<le> unat (jn_numJournalBlocks ?jn)"
    using sl(4) wh by (simp_all add: io_matches_def)
  have B: "jn_journalBlockSize ?jn \<noteq> 0" using inv_on_journal [OF i, of j] by (simp add: journal_ok_def)
  have off: "off = jn_targetOffset ?jn + of_nat (?b * ?B)"
    using arg_cong [OF m(1), of "of_nat :: nat \<Rightarrow> u64"] by simp
  have "sub_block ?jn ?buf k = io_tile ?jn off (io_gens ?io) k" if k: "k < ?n" "io_gens ?io ! k \<noteq> 0" for k
  proof -
    have "?b + k \<in> io_blocks ?io" using k(1) by (simp add: io_blocks_def)
    then have ns: "?b + k \<notin> sy_spoiled s j" using sp by blast
    have kn: "k * ?B + ?B \<le> unat len" using mult_le_mono1 [of "Suc k" ?n ?B] k(1) m(2) by simp
    have "sub_block ?jn ?buf k = map (sy_target s j) [unat off + k * ?B..<unat off + k * ?B + ?B]"
      using kn by (simp add: sub_block_def load_bytes_def drop_map take_map)
    also have "\<dots> = block_bytes ?jn (sy_target s j) (?b + k)"
      by (intro nth_equalityI) (simp_all add: block_bytes_def m(1) algebra_simps)
    also have "\<dots> = block_tile ?jn (?b + k) (jcell ?jn (?b + k))"
      using inv_on_content [OF i, of j] m(3) k rd ns by (simp add: content_ok_def)
    also have "\<dots> = io_tile ?jn off (io_gens ?io) k"
      using rd [OF k(1)] by (simp add: block_tile_def io_tile_def off algebra_simps)
    finally show ?thesis .
  qed
  moreover have "length ?buf = ?n * ?B" by (simp add: load_bytes_def m(2))
  ultimately show ?thesis
    using journal_verify_loop_iff [OF B, of ?buf ?n 0 "io_gens ?io" off] False B by (simp add: postReadJournalVerifyBuf_def)
qed (simp add: postReadJournalVerifyBuf_def)

lemma exclusive_in_flight:
  assumes inv: "journal_inv s" and "sy_inflight s x \<noteq> None" "sy_inflight s y \<noteq> None" "x \<noteq> y"
    and "io_journal (io_at s x) = io_journal (io_at s y)" "jio_isWrite (io_at s x)"
  shows "io_blocks (io_at s x) \<inter> io_blocks (io_at s y) = {}"
proof -
  have i: "inv_on (\<lambda>_. True) s" using inv by (simp add: journal_inv_def)
  obtain w slot off len w' slot' off' len' where x: "x = (w, slot)" "sy_inflight s (w, slot) = Some (off, len)"
    "y = (w', slot')" "sy_inflight s (w', slot') = Some (off', len')" using assms(2,3) by (cases x; cases y; auto)
  note sx = inflight_slot [OF i x(2) refl] and sy = inflight_slot [OF i x(4) refl]
  have lw0: "locks_with (sy_locks s) (sy_held s) (sy_excl s) x (io_at s x)" using own_locks [OF i sx(1)] x(1) by simp
  have "io_locked (sy_journals s (io_journal (io_at s x))) True (io_at s x)"
    using sx(5) assms(6) x(1) by (auto simp: io_reading_def io_writing_def jio_isWrite_def)
  then show ?thesis
    using other_blocks_disjoint [OF i TrueI _ assms(3) _ assms(4) [symmetric] lw0] sx(3) sy(1) x assms(5) jc.meta_refl by auto
qed

subsection \<open>No deadlock\<close>

lemma stripe_bound: "blockIndexToStripe b jn < 65536"
proof -
  have "unat (drop_bit 48 (c :: u64)) < 65536" for c
  proof -
    have "unat c < 65536 * 2 ^ 48" using unat_less_W64 [of c] by simp
    then show ?thesis by (simp add: drop_bit_eq_div unat_div)
  qed
  then show ?thesis by (simp add: blockIndexToStripe_def Let_def NUM_STRIPES_SHIFT_def)
qed

lemma lock_taken_has_holder:
  assumes "locks_ok L H E" "must_wait g L"
  obtains x where "gd_locks g ! gd_numLocks g \<in> H x"
proof -
  let ?l = "gd_locks g ! gd_numLocks g"
  have "lock_ok (L ?l) (holders H E True ?l) (holders H E False ?l)" using assms(1) by (simp add: locks_ok_def)
  moreover have "L ?l \<noteq> Shared 0" using assms(2) by (auto simp: must_wait_def Let_def split: if_splits)
  ultimately have "holders H E True ?l \<noteq> {} \<or> holders H E False ?l \<noteq> {}"
    by (cases "L ?l") (auto simp: lock_ok_def)
  then show ?thesis using that by (auto simp: holders_def)
qed

text \<open>The lock that a waiting slot needs next, which is larger than those it holds.\<close>

lemma waiting_lock:
  assumes "inv_on (\<lambda>_. True) s" "valid_slot s x" "waits_in s x \<noteq> None" "sy_inflight s x = None"
  defines "g \<equiv> io_guard (io_at s x)"
  shows "gd_locks g ! gd_numLocks g < 65536" "l \<in> sy_held s x \<Longrightarrow> l < gd_locks g ! gd_numLocks g"
proof -
  obtain wt where "io_waiting (sy_journals s (io_journal (io_at s x))) wt (io_at s x)"
    using inv_on_slot [OF assms(1,2)] assms(3,4) by (auto simp: slot_ok_def)
  then have w: "gd_numLocks g < length (gd_locks g)" "gd_locks g = io_stripes (sy_journals s (io_journal (io_at s x))) (io_at s x)"
    unfolding io_waiting_def g_def by blast+
  then have "gd_locks g ! gd_numLocks g \<in> set (io_stripes (sy_journals s (io_journal (io_at s x))) (io_at s x))" by (metis nth_mem)
  then show "gd_locks g ! gd_numLocks g < 65536"
    using stripe_bound by (auto simp: io_stripes_def stripes_def Let_def min_def max_def split: if_splits)
  assume "l \<in> sy_held s x"
  then obtain k where k: "k < gd_numLocks g" "l = gd_locks g ! k"
    using assms(2) by (auto simp: sy_held_def held_def g_def in_set_conv_nth)
  have "guard_ok g" using inv_on_guard [OF assms(1,2)] by (simp add: g_def)
  then have "sorted_wrt (<) (gd_locks g)" by (simp add: guard_ok_def strict_sorted_iff)
  then show "l < gd_locks g ! gd_numLocks g" using k w(1) by (simp add: sorted_wrt_nth_less)
qed

lemma waiting_worker_progress:
  assumes inv: "journal_inv s" and "sy_waiting s w = Some (slot, wt, off, len)"
  shows "(\<exists>x. sy_inflight s x \<noteq> None \<and> sy_waiting s (fst x) = None) \<or>
    (\<exists>w' slot' r. sy_waiting s w' = Some (slot', r) \<and> \<not> must_wait (io_guard (slot_io s w' slot')) (sy_locks s))"
proof (rule ccontr)
  assume "\<not> ?thesis"
  then have stuck: "sy_inflight s x \<noteq> None \<Longrightarrow> sy_waiting s (fst x) \<noteq> None"
    "sy_waiting s w' = Some (slot', r) \<Longrightarrow> must_wait (io_guard (slot_io s w' slot')) (sy_locks s)" for x w' slot' r
    by meson+
  have i: "inv_on (\<lambda>_. True) s" using inv by (simp add: journal_inv_def)
  have none: "sy_inflight s x = None" for x
  proof (rule ccontr)
    assume a: "sy_inflight s x \<noteq> None"
    obtain slot wt off len where "sy_waiting s (fst x) = Some (slot, wt, off, len)"
      using stuck(1) [OF a] by (cases "sy_waiting s (fst x)") auto
    then have "sy_inflight s (fst x, snd x) = None" using inv_on_worker [OF i TrueI, of "fst x"] unfolding worker_ok_def by blast
    with a show False by simp
  qed
  let ?next = "\<lambda>x. gd_locks (io_guard (io_at s x)) ! gd_numLocks (io_guard (io_at s x))"
  define W where "W = {?next x | x. valid_slot s x \<and> waits_in s x \<noteq> None}"
  have "W \<subseteq> {..<65536}" using waiting_lock(1) [OF i _ _ none] by (auto simp: W_def)
  then have fin: "finite W" by (rule finite_subset) simp
  have "valid_slot s (w, slot)" using inv_on_worker [OF i, of w] assms(2) by (simp add: worker_ok_def)
  moreover have "waits_in s (w, slot) \<noteq> None" using assms(2) by (simp add: waits_in_def)
  ultimately have "?next (w, slot) \<in> W" unfolding W_def by (intro CollectI exI [of _ "(w, slot)"]) simp
  then have "Max W \<in> W" using Max_in [OF fin] by (metis empty_iff)
  then obtain x where x: "Max W = ?next x" "valid_slot s x" "waits_in s x \<noteq> None" unfolding W_def by (elim CollectE exE conjE)
  have "must_wait (io_guard (io_at s x)) (sy_locks s)"
    using stuck(2) [of "fst x"] x(3) by (auto simp: waits_in_def split: option.splits if_splits)
  with inv_on_locks [OF i] obtain y where y: "?next x \<in> sy_held s y" by (rule lock_taken_has_holder)
  have v: "valid_slot s y" using y by (auto simp: sy_held_def split: if_splits)
  have "gd_numLocks (io_guard (io_at s y)) \<noteq> 0" using y v by (cases "gd_numLocks (io_guard (io_at s y))") (simp_all add: sy_held_def held_def)
  then have wy: "waits_in s y \<noteq> None" using inv_on_slot [OF i v] none by (auto simp: slot_ok_def split: option.splits)
  with v have "?next y \<in> W" unfolding W_def by (intro CollectI exI [of _ y]) simp
  then have "?next y \<le> ?next x" using Max_ge [OF fin] x(1) by metis
  then show False using waiting_lock(2) [OF i v wy none y] by simp
qed

subsection \<open>Properties\<close>

text \<open>
  C7: From a start with journals whose claims hold, whatever the workers do (begin, wait, resume, write any part of
  an I/O, finish, fail, abort, and start the next run on the same journals at any moment), a journal records a
  generation only for blocks whose bytes on the target are those of this generation, and the bytes that a journaled
  read of whole blocks in flight loads pass the verification. This holds for every block but those that are spoiled:
  the blocks that a committed write left out because its result was short, the blocks of I/Os whose offsets such a
  write shifted, and the blocks of asynchronous writes that the kernel still had when their worker aborted. For those
  the code does not ensure it, as it commits all blocks of a write after any positive result, and releases the locks
  of an aborting worker before its writes have ended.
\<close>

theorem journal_claims_hold:
  assumes "journal_start s0" "(journal_step env)\<^sup>*\<^sup>* s0 s"
  shows "(\<forall>j. content_ok (sy_journals s j) (sy_spoiled s j) (sy_target s j)) \<and>
    (\<forall>w slot off len. sy_inflight s (w, slot) = Some (off, len) \<and>
       whole_blocks (sy_journals s (io_journal (slot_io s w slot))) off len \<and>
       io_blocks (slot_io s w slot) \<inter> sy_spoiled s (io_journal (slot_io s w slot)) = {} \<longrightarrow>
       postReadJournalVerifyBuf (slot_io s w slot) (sy_journals s (io_journal (slot_io s w slot))) off
         (load_bytes s (io_journal (slot_io s w slot)) off len) = Inr ())"
proof -
  have inv: "journal_inv s" using assms by (rule journal_run.reachable_inv)
  then have "content_ok (sy_journals s j) (sy_spoiled s j) (sy_target s j)" for j using inv_on_content by (simp add: journal_inv_def)
  with read_in_flight_verifies [OF inv _ refl] show ?thesis by simp
qed


text \<open>
  C8: The workers do not deadlock on the lock stripes. In every reachable state with a worker that waits for a
  stripe, either some worker that does not wait has an I/O in flight, which it can finish, or the stripe that one of
  the waiting workers needs next is free for it.
\<close>

theorem journal_no_deadlock:
  assumes "journal_start s0" "(journal_step env)\<^sup>*\<^sup>* s0 s" "sy_waiting s w \<noteq> None"
  shows "(\<exists>w' slot'. sy_inflight s (w', slot') \<noteq> None \<and> sy_waiting s w' = None) \<or>
    (\<exists>w' slot' r. sy_waiting s w' = Some (slot', r) \<and> \<not> must_wait (io_guard (slot_io s w' slot')) (sy_locks s))"
proof -
  obtain slot wt off len where "sy_waiting s w = Some (slot, wt, off, len)" using assms(3) by (cases "sy_waiting s w") auto
  from waiting_worker_progress [OF journal_run.reachable_inv [OF assms(1,2)] this] show ?thesis by (metis fst_conv prod.collapse)
qed

subsection \<open>An example run\<close>

text \<open>A new journal of five blocks; worker 0 begins to write block 0, and worker 1 waits to write it too.\<close>

definition example_fresh :: journal where
  "example_fresh = example_journal\<lparr>jn_mapBase := [0, 0]\<rparr>"

definition example_env :: sync_env where
  "example_env = \<lparr>se_pageSize = 4096, se_msync = (\<lambda>_ _. True)\<rparr>"

definition example_s0 :: journal_system where
  "example_s0 = run_start (\<lambda>_. 1) 8 (\<lambda>_. example_fresh) (\<lambda>_ _. 0) (\<lambda>_. {})"

definition example_begin :: "nat \<Rightarrow> u64 \<Rightarrow> jio_intent \<Rightarrow> journal_system \<Rightarrow> journal_system" where
  "example_begin w off intent s = begin_result {} w 0 0 off 8
     (journalBeginIO example_env 0 0 off 8 intent (sy_workers s w) (sy_journals s 0) (sy_locks s)) s"

definition example_finish :: "nat \<Rightarrow> u64 \<Rightarrow> u8 list \<Rightarrow> journal_system \<Rightarrow> journal_system" where
  "example_finish w off buf s = commit_result {} w 0 0
     (journalCommitIO example_env 0 (sy_workers s w) (sy_journals s 0) (sy_locks s))
     (spoil 0 (unwritten_blocks (sy_journals s 0) (slot_io s w 0) off 8) (store_bytes 0 off (take 8 buf) s))"

definition example_buf :: "u8 list" where
  "example_buf = journalFillTileBlock 8 0 7 1"

lemma example_start: "journal_start example_s0"
proof -
  have "journal_ok 8 example_fresh" by (simp add: journal_ok_def example_fresh_def example_journal_def jn_covers_def)
  moreover have "jcell example_fresh b = 0" if "b < 5" for b
  proof -
    have "b div 4 = 0 \<or> b div 4 = 1" using that by linarith
    then show ?thesis by (auto simp: jcell_def cell_def example_fresh_def)
  qed
  then have "content_ok example_fresh {} (\<lambda>_. 0)" by (simp add: content_ok_def example_fresh_def example_journal_def)
  moreover have "unat (8 :: u64) < 2 ^ 63" by simp
  ultimately show ?thesis unfolding journal_start_def example_s0_def by blast
qed

lemma example_begin_step:
  assumes "sy_waiting s w = None" "length (journalIOSlots (sy_workers s w)) = 1" "sy_inflight s (w, 0) = None"
    "request_ok (sy_maxIOSize s) (sy_journals s 0) off 8"
  shows "journal_step example_env s (example_begin w off intent s)"
  unfolding example_begin_def by (rule journal_step.begin_io) (use assms in simp_all)

lemmas example_simps = example_s0_def example_begin_def run_start_def request_ok_def
  journalBeginIO_def journal_begin_done_def jio_begin_def jio_setup_def claimForWrite_def acquireRange_def claim_after_def
  claim_locked_def is_started_def example_env_def example_fresh_def example_journal_def offsetToBlockIndex_def loadBlockGen_def
  markBlockBusy_def cellLocation_def map_byte_def nextGen_def Let_def worker_start_def jio_new_def guard_new_def
  blockIndexToStripe_def NUM_STRIPES_SHIFT_def read_after_def read_locked_def jio_isWrite_def io_blocks_def
  example_finish_def journalCommitIO_def jio_commit_def commitBlockGen_def store_bytes_def syncRange_def jio_release_def
  guard_release_def unlock_stripe_def jcell_def cell_def spoil_def unwritten_blocks_def shifted_blocks_def whole_blocks_def

definition example_s1 :: journal_system where
  "example_s1 = example_begin 0 0 INTENT_WRITE example_s0"

definition example_s2 :: journal_system where
  "example_s2 = example_begin 1 0 INTENT_WRITE example_s1"

definition example_s3 :: journal_system where
  "example_s3 = example_begin 1 8 INTENT_WRITE example_s1"

lemma example_run1: "(journal_step example_env)\<^sup>*\<^sup>* example_s0 example_s1"
  unfolding example_s1_def by (rule r_into_rtranclp, rule example_begin_step) (simp_all add: example_simps)

lemma example_run2: "(journal_step example_env)\<^sup>*\<^sup>* example_s0 example_s2"
  unfolding example_s2_def
  by (rule rtranclp.rtrancl_into_rtrancl [OF example_run1], rule example_begin_step) (simp_all add: example_s1_def example_simps)

lemma example_run3: "(journal_step example_env)\<^sup>*\<^sup>* example_s0 example_s3"
  unfolding example_s3_def
  by (rule rtranclp.rtrancl_into_rtrancl [OF example_run1], rule example_begin_step) (simp_all add: example_s1_def example_simps)


theorem journal_no_deadlock_witness:
  "sy_waiting example_s2 1 \<noteq> None \<and>
   ((\<exists>w' slot'. sy_inflight example_s2 (w', slot') \<noteq> None \<and> sy_waiting example_s2 w' = None) \<or>
    (\<exists>w' slot' r. sy_waiting example_s2 w' = Some (slot', r) \<and>
       \<not> must_wait (io_guard (slot_io example_s2 w' slot')) (sy_locks example_s2)))"
proof -
  have w: "sy_waiting example_s2 1 \<noteq> None" by (simp add: example_s2_def example_s1_def example_simps)
  show ?thesis using journal_no_deadlock [OF example_start example_run2 w] w by simp
qed

definition example_s4 :: journal_system where
  "example_s4 = example_begin 1 0 INTENT_READ_SKIP_UNINIT (example_finish 0 0 example_buf example_s1)"

lemma example_fill:
  "preWriteJournalFillBuf (slot_io example_s1 0 0) (sy_journals example_s1 0) 0 (replicate 8 0) = Inr example_buf"
  by (simp add: example_s1_def example_simps preWriteJournalFillBuf_def journal_fill_loop.simps example_buf_def)

lemma example_run4: "(journal_step example_env)\<^sup>*\<^sup>* example_s0 example_s4"
proof -
  have "journal_step example_env example_s1 (example_finish 0 0 example_buf example_s1)"
    unfolding example_finish_def
    by (rule journal_step.finish_write [where len = 8, OF _ _ _ _ example_fill]) (simp_all add: example_s1_def example_simps)
  moreover have "journal_step example_env (example_finish 0 0 example_buf example_s1) example_s4"
    unfolding example_s4_def by (rule example_begin_step)
      (simp_all add: example_s1_def example_simps)
  ultimately show ?thesis using example_run1 by simp
qed

theorem journal_claims_hold_witness:
  "jcell (sy_journals example_s4 0) 0 = 1 \<and> sy_inflight example_s4 (1, 0) = Some (0, 8) \<and> \<not> jio_isWrite (slot_io example_s4 1 0) \<and>
   sy_spoiled example_s4 0 = {} \<and> content_ok (sy_journals example_s4 0) {} (sy_target example_s4 0) \<and>
   postReadJournalVerifyBuf (slot_io example_s4 1 0) (sy_journals example_s4 0) 0 (load_bytes example_s4 0 0 8) = Inr ()"
proof -
  have f: "jcell (sy_journals example_s4 0) 0 = 1" "sy_inflight example_s4 (1, 0) = Some (0, 8)"
    "\<not> jio_isWrite (slot_io example_s4 1 0)" "io_journal (slot_io example_s4 1 0) = 0"
    "whole_blocks (sy_journals example_s4 0) 0 8"
    by (simp_all add: example_s4_def example_s1_def example_simps)
  have sp: "sy_spoiled example_s4 0 = {}" by (auto simp: example_s4_def example_s1_def example_simps)
  note c = journal_claims_hold [OF example_start example_run4]
  have "postReadJournalVerifyBuf (slot_io example_s4 1 0) (sy_journals example_s4 0) 0 (load_bytes example_s4 0 0 8) = Inr ()"
    using conjunct2 [OF c, rule_format, of 1 0 0 8] f(2,4,5) sp by simp
  moreover have "content_ok (sy_journals example_s4 0) {} (sy_target example_s4 0)" using conjunct1 [OF c, rule_format, of 0] sp by simp
  ultimately show ?thesis using f sp by simp
qed

end
