(* ===== verification/RateLimit.thy ===== *)
theory RateLimit
  imports Prelude
begin

text \<open>
  The limiters that a worker waits in before an I/O: \<open>toolkits/RateLimiter.h\<close>, which keeps one
  thread below a number of bytes per second, and \<open>toolkits/RateLimiterRWMixThreads.h\<close>, which keeps
  the bytes of all reader threads and all writer threads in a ratio. Points of time are
  nanoseconds of the steady clock. The clock is outside of the program: its readings are
  arguments of the operations.
\<close>

subsection \<open>Bytes per second\<close>

record rate_limiter =
  limitPerSec :: u64
  numDoneThisSec :: u64
  rl_startT :: nat

definition rl_initStart :: "u64 \<Rightarrow> nat \<Rightarrow> rate_limiter" where
  "rl_initStart limit nowT = \<lparr>limitPerSec = limit, numDoneThisSec = 0, rl_startT = nowT\<rparr>"

text \<open>
  \<open>nowT\<close> is the reading at the start of the call, \<open>laterT\<close> the one behind the sleep (or directly behind
  the first, when the second was over). The result tells whether the thread slept.
\<close>

definition rl_wait :: "u64 \<Rightarrow> nat \<Rightarrow> nat \<Rightarrow> rate_limiter \<Rightarrow> bool \<times> rate_limiter" where
  "rl_wait nextSize nowT laterT rl =
     (let elapsedMicroSec = (nowT - rl_startT rl) div 1000 in
      if 1000000 \<le> elapsedMicroSec then (False, rl\<lparr>numDoneThisSec := nextSize, rl_startT := laterT\<rparr>)
      else if limitPerSec rl < numDoneThisSec rl + nextSize then (True, rl\<lparr>numDoneThisSec := nextSize, rl_startT := laterT\<rparr>)
      else (False, rl\<lparr>numDoneThisSec := numDoneThisSec rl + nextSize\<rparr>))"

text \<open>
  The calls of a thread: the size and the two readings of each. The readings of a steady clock do
  not go back, and \<open>sleep_until\<close> does not return before its point of time.
\<close>

type_synonym rl_call = "u64 \<times> nat \<times> nat"

fun rl_run :: "rl_call list \<Rightarrow> rate_limiter \<Rightarrow> rate_limiter" where
  "rl_run [] rl = rl"
| "rl_run ((nextSize, nowT, laterT) # cs) rl = rl_run cs (snd (rl_wait nextSize nowT laterT rl))"

fun rl_clock_ok :: "nat \<Rightarrow> rl_call list \<Rightarrow> rate_limiter \<Rightarrow> bool" where
  "rl_clock_ok t [] rl = True"
| "rl_clock_ok t ((nextSize, nowT, laterT) # cs) rl =
     (t \<le> nowT \<and> nowT \<le> laterT \<and>
      (fst (rl_wait nextSize nowT laterT rl) \<longrightarrow> rl_startT rl + 1000000 * 1000 \<le> laterT) \<and>
      rl_clock_ok laterT cs (snd (rl_wait nextSize nowT laterT rl)))"

definition rl_end :: "nat \<Rightarrow> rl_call list \<Rightarrow> nat" where
  "rl_end t cs = (if cs = [] then t else snd (snd (last cs)))"

subsection \<open>Readers against writers\<close>

text \<open>The members of a thread's object, which all threads set alike.\<close>

record rwmix_conf =
  readRatioPercent :: u16
  numReaderThreads :: u32
  numWriterThreads :: u32
  maxBlockSize :: u64

definition numBytesAllowedRead :: "rwmix_conf \<Rightarrow> u64 \<Rightarrow> u64 \<Rightarrow> u64" where
  "numBytesAllowedRead c numBytesWrite numBytesRead =
     (let headRoomBytes = maxBlockSize c * ucast (numWriterThreads c);
          writesWithHeadroom = numBytesWrite + headRoomBytes
      in (writesWithHeadroom + numBytesRead) * ucast (readRatioPercent c) div 100)"

definition numBytesAllowedWrite :: "rwmix_conf \<Rightarrow> u64 \<Rightarrow> u64 \<Rightarrow> u64" where
  "numBytesAllowedWrite c numBytesRead numBytesWrite =
     (let headRoomBytes = maxBlockSize c * ucast (numReaderThreads c);
          readsWithHeadroom = numBytesRead + headRoomBytes
      in (readsWithHeadroom + numBytesWrite) * (100 - ucast (readRatioPercent c)) div 100)"

text \<open>
  Where a thread is in \<open>waitRead\<close> or \<open>waitWrite\<close>: outside of it or asleep in it, behind the load of
  the other side's counter, behind the load of both, or past the check with the size to count. A
  thread whose check fails either sleeps and starts over, or throws because it is interrupted or
  waited too long: it is outside in both cases. In \<open>initStart\<close> a thread is behind the store that
  sets the readers' counter to zero and before the one that sets the writers' counter.
\<close>

datatype rwmix_pc = Outside | LoadedOther u64 | LoadedBoth u64 u64 | Passed u64 | StoredRead

record rwmix_state =
  numBytesRead :: u64
  numBytesWrite :: u64
  rw_reader :: "nat \<Rightarrow> rwmix_pc"
  rw_writer :: "nat \<Rightarrow> rwmix_pc"

definition rwmix_start :: rwmix_state where
  "rwmix_start = \<lparr>numBytesRead = 0, numBytesWrite = 0, rw_reader = (\<lambda>_. Outside), rw_writer = (\<lambda>_. Outside)\<rparr>"

text \<open>
  The computation of the allowance multiplies the counters by up to 100. The steps are those of a run
  in which this stays below \<open>2^64\<close>, that is of some 184 petabytes.
\<close>

definition rwmix_small :: "rwmix_conf \<Rightarrow> rwmix_state \<Rightarrow> bool" where
  "rwmix_small c s \<longleftrightarrow>
     (unat (numBytesRead s) + unat (numBytesWrite s) +
      unat (maxBlockSize c) * (unat (numReaderThreads c) + unat (numWriterThreads c))) * 100 < W64"

text \<open>The steps of \<open>waitRead\<close> and \<open>waitWrite\<close>.\<close>

inductive rwmix_wait_step :: "rwmix_conf \<Rightarrow> rwmix_state \<Rightarrow> rwmix_state \<Rightarrow> bool" for c where
  read_load_write:
    "t < unat (numReaderThreads c) \<Longrightarrow> rw_reader s t = Outside \<Longrightarrow>
     rwmix_wait_step c s (s\<lparr>rw_reader := (rw_reader s)(t := LoadedOther (numBytesWrite s))\<rparr>)"
| read_load_read:
    "rw_reader s t = LoadedOther w \<Longrightarrow>
     rwmix_wait_step c s (s\<lparr>rw_reader := (rw_reader s)(t := LoadedBoth w (numBytesRead s))\<rparr>)"
| read_pass:
    "rw_reader s t = LoadedBoth w r \<Longrightarrow> numBytesRead s \<le> numBytesAllowedRead c w r \<Longrightarrow> n \<le> maxBlockSize c \<Longrightarrow>
     rwmix_wait_step c s (s\<lparr>rw_reader := (rw_reader s)(t := Passed n)\<rparr>)"
| read_wait:
    "rw_reader s t = LoadedBoth w r \<Longrightarrow> \<not> numBytesRead s \<le> numBytesAllowedRead c w r \<Longrightarrow>
     rwmix_wait_step c s (s\<lparr>rw_reader := (rw_reader s)(t := Outside)\<rparr>)"
| read_count:
    "rw_reader s t = Passed n \<Longrightarrow> s' = s\<lparr>numBytesRead := numBytesRead s + n, rw_reader := (rw_reader s)(t := Outside)\<rparr> \<Longrightarrow>
     unat (numBytesRead s) + unat n < W64 \<Longrightarrow> rwmix_small c s' \<Longrightarrow> rwmix_wait_step c s s'"
| write_load_read:
    "t < unat (numWriterThreads c) \<Longrightarrow> rw_writer s t = Outside \<Longrightarrow>
     rwmix_wait_step c s (s\<lparr>rw_writer := (rw_writer s)(t := LoadedOther (numBytesRead s))\<rparr>)"
| write_load_write:
    "rw_writer s t = LoadedOther r \<Longrightarrow>
     rwmix_wait_step c s (s\<lparr>rw_writer := (rw_writer s)(t := LoadedBoth r (numBytesWrite s))\<rparr>)"
| write_pass:
    "rw_writer s t = LoadedBoth r w \<Longrightarrow> numBytesWrite s \<le> numBytesAllowedWrite c r w \<Longrightarrow> n \<le> maxBlockSize c \<Longrightarrow>
     rwmix_wait_step c s (s\<lparr>rw_writer := (rw_writer s)(t := Passed n)\<rparr>)"
| write_wait:
    "rw_writer s t = LoadedBoth r w \<Longrightarrow> \<not> numBytesWrite s \<le> numBytesAllowedWrite c r w \<Longrightarrow>
     rwmix_wait_step c s (s\<lparr>rw_writer := (rw_writer s)(t := Outside)\<rparr>)"
| write_count:
    "rw_writer s t = Passed n \<Longrightarrow> s' = s\<lparr>numBytesWrite := numBytesWrite s + n, rw_writer := (rw_writer s)(t := Outside)\<rparr> \<Longrightarrow>
     unat (numBytesWrite s) + unat n < W64 \<Longrightarrow> rwmix_small c s' \<Longrightarrow> rwmix_wait_step c s s'"

text \<open>
  The two stores of \<open>initStart\<close>, which every reader and every writer calls when it prepares a phase, and
  again for each round of an infinite loop, whatever the other threads are doing at that moment.
\<close>

inductive rwmix_init_step :: "rwmix_conf \<Rightarrow> rwmix_state \<Rightarrow> rwmix_state \<Rightarrow> bool" for c where
  reader_stores_read:
    "t < unat (numReaderThreads c) \<Longrightarrow> rw_reader s t = Outside \<Longrightarrow>
     rwmix_init_step c s (s\<lparr>numBytesRead := 0, rw_reader := (rw_reader s)(t := StoredRead)\<rparr>)"
| reader_stores_write:
    "rw_reader s t = StoredRead \<Longrightarrow>
     rwmix_init_step c s (s\<lparr>numBytesWrite := 0, rw_reader := (rw_reader s)(t := Outside)\<rparr>)"
| writer_stores_read:
    "t < unat (numWriterThreads c) \<Longrightarrow> rw_writer s t = Outside \<Longrightarrow>
     rwmix_init_step c s (s\<lparr>numBytesRead := 0, rw_writer := (rw_writer s)(t := StoredRead)\<rparr>)"
| writer_stores_write:
    "rw_writer s t = StoredRead \<Longrightarrow>
     rwmix_init_step c s (s\<lparr>numBytesWrite := 0, rw_writer := (rw_writer s)(t := Outside)\<rparr>)"

definition rwmix_step :: "rwmix_conf \<Rightarrow> rwmix_state \<Rightarrow> rwmix_state \<Rightarrow> bool" where
  "rwmix_step c s s' \<longleftrightarrow> rwmix_init_step c s s' \<or> rwmix_wait_step c s s'"

subsection \<open>The rate of one thread\<close>

lemma rl_run_bound:
  assumes "rl_clock_ok t cs rl" "\<forall>c \<in> set cs. fst c \<le> M" "unat M < 2 ^ 63" "limitPerSec rl \<le> M"
    and "numDoneThisSec rl \<le> M" "rl_startT rl \<le> t"
    and "done \<le> unat M * ((rl_startT rl - t0) div 10 ^ 9)" "t0 \<le> rl_startT rl"
  shows "done + unat (numDoneThisSec rl) + (\<Sum>c\<leftarrow>cs. unat (fst c)) \<le>
    unat M * (1 + (rl_end t cs - t0) div 10 ^ 9)"
  using assms
proof (induction cs arbitrary: t rl "done")
  case Nil
  let ?L = "unat M"
  have "(rl_startT rl - t0) div 10 ^ 9 \<le> (t - t0) div 10 ^ 9" using Nil.prems by (intro div_le_mono) simp
  then have "?L * ((rl_startT rl - t0) div 10 ^ 9) \<le> ?L * ((t - t0) div 10 ^ 9)" by (rule mult_le_mono2)
  moreover have "unat (numDoneThisSec rl) \<le> ?L" using Nil.prems by (simp add: word_le_nat_alt)
  ultimately have "done + unat (numDoneThisSec rl) \<le> ?L + ?L * ((t - t0) div 10 ^ 9)" using Nil.prems(7) by linarith
  then show ?case by (simp add: rl_end_def)
next
  case (Cons a cs)
  obtain nextSize nowT laterT where a: "a = (nextSize, nowT, laterT)" by (cases a)
  let ?L = "unat M"
  define rl' where "rl' = snd (rl_wait nextSize nowT laterT rl)"
  have clk: "t \<le> nowT" "nowT \<le> laterT" "rl_clock_ok laterT cs rl'" "unat nextSize \<le> ?L" "unat (numDoneThisSec rl) \<le> ?L"
    using Cons.prems by (simp_all add: a rl'_def word_le_nat_alt)
  have end': "rl_end laterT cs = rl_end t (a # cs)" by (simp add: rl_end_def a)
  have rest: "\<forall>c \<in> set cs. fst c \<le> M" using Cons.prems(2) by simp
  have "rl' = rl\<lparr>numDoneThisSec := nextSize, rl_startT := laterT\<rparr> \<and> rl_startT rl + 10 ^ 9 \<le> laterT \<or>
    rl' = rl\<lparr>numDoneThisSec := numDoneThisSec rl + nextSize\<rparr> \<and> numDoneThisSec rl + nextSize \<le> limitPerSec rl"
  proof (cases "1000000 \<le> (nowT - rl_startT rl) div 1000")
    case True
    then have "1000000 * 1000 \<le> nowT - rl_startT rl" by (subst (asm) less_eq_div_iff_mult_less_eq) simp_all
    then have "rl_startT rl + 10 ^ 9 \<le> laterT" using clk(2) by simp
    then show ?thesis using True by (simp add: rl'_def rl_wait_def)
  next
    case False
    have "fst (rl_wait nextSize nowT laterT rl) \<longrightarrow> rl_startT rl + 1000000 * 1000 \<le> laterT" using Cons.prems(1) by (simp add: a)
    then show ?thesis using False by (cases "limitPerSec rl < numDoneThisSec rl + nextSize") (simp_all add: rl'_def rl_wait_def linorder_not_less)
  qed
  then show ?case
  proof (elim disjE conjE)
    assume r: "rl' = rl\<lparr>numDoneThisSec := nextSize, rl_startT := laterT\<rparr>" "rl_startT rl + 10 ^ 9 \<le> laterT"
    have "(rl_startT rl - t0) div 10 ^ 9 + 1 = (rl_startT rl - t0 + 10 ^ 9) div 10 ^ 9" by simp
    also have "\<dots> \<le> (laterT - t0) div 10 ^ 9" using r(2) Cons.prems(8) by (intro div_le_mono) linarith
    finally have "?L * ((rl_startT rl - t0) div 10 ^ 9 + 1) \<le> ?L * ((laterT - t0) div 10 ^ 9)" by (rule mult_le_mono2)
    then have "done + unat (numDoneThisSec rl) \<le> ?L * ((laterT - t0) div 10 ^ 9)"
      using Cons.prems(7) clk(5) unfolding distrib_left by linarith
    then have "(done + unat (numDoneThisSec rl)) + unat (numDoneThisSec rl') + (\<Sum>c\<leftarrow>cs. unat (fst c)) \<le>
      ?L * (1 + (rl_end laterT cs - t0) div 10 ^ 9)"
      using r rest Cons.prems(3,4,8) clk by (intro Cons.IH) (simp_all add: word_le_nat_alt)
    then show ?thesis by (simp add: r a end' [unfolded a])
  next
    assume r: "rl' = rl\<lparr>numDoneThisSec := numDoneThisSec rl + nextSize\<rparr>" "numDoneThisSec rl + nextSize \<le> limitPerSec rl"
    then have le: "numDoneThisSec rl + nextSize \<le> M" using Cons.prems(4) by (meson order_trans)
    have sum: "unat (numDoneThisSec rl + nextSize) = unat (numDoneThisSec rl) + unat nextSize"
      using clk(4,5) Cons.prems(3) by (intro unat_add_no) simp
    have "done + unat (numDoneThisSec rl') + (\<Sum>c\<leftarrow>cs. unat (fst c)) \<le> ?L * (1 + (rl_end laterT cs - t0) div 10 ^ 9)"
      using r le rest Cons.prems(3,4,6-8) clk by (intro Cons.IH) simp_all
    then show ?thesis by (simp add: r(1) sum a end' [unfolded a])
  qed
qed

subsection \<open>The balance of the two sides\<close>

fun pc_pending :: "rwmix_pc \<Rightarrow> nat" where
  "pc_pending (Passed n) = unat n"
| "pc_pending _ = 0"

fun pc_ok :: "u64 \<Rightarrow> u64 \<Rightarrow> u64 \<Rightarrow> rwmix_pc \<Rightarrow> bool" where
  "pc_ok B own other (LoadedOther x) \<longleftrightarrow> x \<le> other"
| "pc_ok B own other (LoadedBoth x y) \<longleftrightarrow> x \<le> other \<and> y \<le> own"
| "pc_ok B own other (Passed n) \<longleftrightarrow> n \<le> B"
| "pc_ok B own other _ \<longleftrightarrow> True"

text \<open>
  One side of the balance, with \<open>p\<close> percent for it, \<open>n\<close> threads of its own and \<open>m\<close> of the other
  side: what it counted and is about to count since a moment when its counter was \<open>b\<close>. The threads of \<open>K\<close>
  may still have values that they loaded before that moment, and each of them passes at most one check
  with these.
\<close>

definition side_ok :: "nat \<Rightarrow> nat \<Rightarrow> nat \<Rightarrow> u64 \<Rightarrow> nat \<Rightarrow> nat set \<Rightarrow> u64 \<Rightarrow> u64 \<Rightarrow> (nat \<Rightarrow> rwmix_pc) \<Rightarrow> bool" where
  "side_ok p n m B b K own other pcs \<longleftrightarrow>
     (\<forall>t \<ge> n. pcs t = Outside) \<and> K \<subseteq> {..<n} \<and>
     (\<forall>t. if t \<in> K then pc_pending (pcs t) = 0 else pc_ok B own other (pcs t)) \<and>
     (100 - p) * (unat own + ((\<Sum>t<n. pc_pending (pcs t)) + card K * unat B)) \<le>
       p * (unat other + unat B * m) + (100 - p) * (b + n * unat B)"

definition side_inv :: "nat \<Rightarrow> nat \<Rightarrow> nat \<Rightarrow> u64 \<Rightarrow> nat \<Rightarrow> u64 \<Rightarrow> u64 \<Rightarrow> (nat \<Rightarrow> rwmix_pc) \<Rightarrow> bool" where
  "side_inv p n m B b own other pcs \<longleftrightarrow> (\<exists>K. side_ok p n m B b K own other pcs)"

lemma pending_upd:
  fixes pcs :: "nat \<Rightarrow> rwmix_pc"
  assumes "t < n"
  shows "(\<Sum>u<n. pc_pending ((pcs(t := x)) u)) + pc_pending (pcs t) = (\<Sum>u<n. pc_pending (pcs u)) + pc_pending x"
proof -
  have "(\<Sum>u<n. pc_pending (f u)) = pc_pending (f t) + (\<Sum>u \<in> {..<n} - {t}. pc_pending (f u))" for f
    using assms by (intro sum.remove) simp_all
  from this [of "pcs(t := x)"] this [of pcs] show ?thesis by simp
qed

text \<open>A thread that may still pass a check with old values has nothing to count yet.\<close>

lemma pending_bound:
  assumes "K \<subseteq> {..<n}" "\<forall>t. if t \<in> K then pc_pending (pcs t) = 0 else pc_pending (pcs t) \<le> B"
  shows "(\<Sum>t<n. pc_pending (pcs t)) + card K * B \<le> n * B"
proof -
  have "card K * B = (\<Sum>t<n. if t \<in> K then B else 0)"
    using assms(1) by (simp add: sum.If_cases Int_absorb1)
  then have "(\<Sum>t<n. pc_pending (pcs t)) + card K * B = (\<Sum>t<n. pc_pending (pcs t) + (if t \<in> K then B else 0))"
    by (simp add: sum.distrib)
  also have "\<dots> \<le> (\<Sum>t<n. B)" using assms(2) by (intro sum_mono) (auto split: if_splits)
  finally show ?thesis by simp
qed

lemma pc_ok_mono: "pc_ok B own other pc \<Longrightarrow> own \<le> own' \<Longrightarrow> other \<le> other' \<Longrightarrow> pc_ok B own' other' pc"
  by (cases pc) auto

lemma pc_ok_pending: "pc_ok B own other pc \<Longrightarrow> pc_pending pc \<le> unat B"
  by (cases pc) (auto simp: word_le_nat_alt)

lemma side_inv_start:
  assumes "\<forall>t \<ge> n. pcs t = Outside" "\<forall>t. pc_pending (pcs t) \<le> unat B"
  shows "side_inv p n m B (unat own) own other pcs"
proof -
  let ?K = "{t. t < n \<and> pc_pending (pcs t) = 0}"
  have "(\<Sum>t<n. pc_pending (pcs t)) + card ?K * unat B \<le> n * unat B"
    using assms(2) by (intro pending_bound) auto
  then have "(100 - p) * (unat own + ((\<Sum>t<n. pc_pending (pcs t)) + card ?K * unat B)) \<le> (100 - p) * (unat own + n * unat B)"
    by (intro mult_le_mono2) simp
  then have "(100 - p) * (unat own + ((\<Sum>t<n. pc_pending (pcs t)) + card ?K * unat B)) \<le>
      p * (unat other + unat B * m) + (100 - p) * (unat own + n * unat B)" by (rule trans_le_add2)
  moreover have "\<forall>t. if t \<in> ?K then pc_pending (pcs t) = 0 else pc_ok B own other (pcs t)"
  proof
    fix t
    show "if t \<in> ?K then pc_pending (pcs t) = 0 else pc_ok B own other (pcs t)"
    proof (cases "t < n")
      case True
      then show ?thesis using spec [OF assms(2), of t] by (cases "pcs t") (simp_all add: word_le_nat_alt)
    qed (use assms(1) in simp)
  qed
  moreover have "?K \<subseteq> {..<n}" by auto
  ultimately show ?thesis unfolding side_inv_def side_ok_def using assms(1) by blast
qed

lemma side_inv_quiet:
  assumes "side_inv p n m B b own other pcs" "t < n" "pc_pending x = 0" "pc_pending (pcs t) = 0"
    and "pc_ok B own other (pcs t) \<Longrightarrow> pc_ok B own other x"
  shows "side_inv p n m B b own other (pcs(t := x))"
proof -
  obtain K where "side_ok p n m B b K own other pcs" using assms(1) by (auto simp: side_inv_def)
  then have "side_ok p n m B b K own other (pcs(t := x))"
    using assms(2-5) pending_upd [OF assms(2), of pcs x] by (auto simp: side_ok_def split: if_splits)
  then show ?thesis by (auto simp: side_inv_def)
qed

lemma side_inv_other:
  assumes "side_inv p n m B b own other pcs" "other \<le> other'"
  shows "side_inv p n m B b own other' pcs"
proof -
  obtain K where K: "side_ok p n m B b K own other pcs" using assms(1) by (auto simp: side_inv_def)
  have "p * (unat other + unat B * m) \<le> p * (unat other' + unat B * m)"
    using assms(2) by (intro mult_le_mono2) (simp add: word_le_nat_alt)
  moreover have "if t \<in> K then pc_pending (pcs t) = 0 else pc_ok B own other' (pcs t)" for t
    using K assms(2) pc_ok_mono [of B own other "pcs t" own other'] by (simp add: side_ok_def)
  ultimately have "side_ok p n m B b K own other' pcs" using K unfolding side_ok_def by (meson le_trans add_le_mono1)
  then show ?thesis by (auto simp: side_inv_def)
qed

lemma side_inv_count:
  assumes "side_inv p n m B b own other pcs" "t < n" "pcs t = Passed x" "unat own + unat x < W64"
  shows "side_inv p n m B b (own + x) other (pcs(t := Outside))"
proof -
  obtain K where K: "side_ok p n m B b K own other pcs" using assms(1) by (auto simp: side_inv_def)
  have u: "unat (own + x) = unat own + unat x" by (rule unat_add_no [OF assms(4)])
  have sum: "unat (own + x) + ((\<Sum>u<n. pc_pending ((pcs(t := Outside)) u)) + card K * unat B) =
      unat own + ((\<Sum>u<n. pc_pending (pcs u)) + card K * unat B)"
    using pending_upd [OF assms(2), of pcs Outside] assms(3) u by simp
  have "\<forall>v. if v \<in> K then pc_pending ((pcs(t := Outside)) v) = 0 else pc_ok B (own + x) other ((pcs(t := Outside)) v)"
    using K u pc_ok_mono [of B own other _ "own + x" other] by (simp add: side_ok_def word_le_nat_alt)
  moreover have "\<forall>v \<ge> n. (pcs(t := Outside)) v = Outside" using K by (simp add: side_ok_def)
  ultimately have "side_ok p n m B b K (own + x) other (pcs(t := Outside))" using K unfolding side_ok_def sum by blast
  then show ?thesis by (auto simp: side_inv_def)
qed

text \<open>A check that passes, made with values loaded earlier.\<close>

lemma check_passed:
  fixes own other B M P :: u64
  assumes small: "(unat own + unat other + unat B * unat M) * 100 < W64" and P: "unat P \<le> 100"
    and old: "x \<le> other" "y \<le> own" and chk: "own \<le> (x + B * M + y) * P div 100"
  shows "(100 - unat P) * unat own \<le> unat P * (unat other + unat B * unat M)"
proof -
  have o: "unat x \<le> unat other" "unat y \<le> unat own" using old by (simp_all add: word_le_nat_alt)
  let ?S = "unat x + unat B * unat M + unat y" and ?T = "unat other + unat B * unat M + unat own"
  have ST: "?S \<le> ?T" "?T * 100 < W64" using o small by (simp_all add: algebra_simps)
  have "?T \<le> ?T * 100" by simp
  with ST have lt: "?S < W64" by (meson le_less_trans)
  have lt2: "?S * unat P < W64" using mult_le_mono [OF ST(1) P] ST(2) by linarith
  have "unat (B * M) = unat B * unat M" using lt by (intro unat_mult_no) linarith
  then have "unat (x + B * M) = unat x + unat B * unat M" using lt by (subst unat_add_no) linarith+
  then have S: "unat (x + B * M + y) = ?S" using lt by (subst unat_add_no) linarith+
  then have "unat ((x + B * M + y) * P) = ?S * unat P" using lt2 by (subst unat_mult_no) simp_all
  then have "unat own \<le> ?S * unat P div 100" using chk by (simp add: word_le_nat_alt unat_div)
  then have "unat own * 100 \<le> ?S * unat P" by (simp add: less_eq_div_iff_mult_less_eq)
  also have "\<dots> \<le> ?T * unat P" using ST(1) by (rule mult_le_mono1)
  finally have "unat own * 100 \<le> ?T * unat P" .
  moreover have "(100 - unat P) * unat own + unat P * unat own = unat own * 100"
    using P by (simp only: add_mult_distrib [symmetric]) simp
  moreover have "?T * unat P = unat P * (unat other + unat B * unat M) + unat P * unat own" by (simp add: algebra_simps)
  ultimately show ?thesis by linarith
qed

lemma side_inv_pass:
  assumes ok: "side_inv (unat P) n (unat M) B b own other pcs" and t: "t < n" "pcs t = LoadedBoth x y" "k \<le> B"
    and small: "(unat own + unat other + unat B * unat M) * 100 < W64" and P: "unat P \<le> 100"
    and chk: "own \<le> (x + B * M + y) * P div 100"
  shows "side_inv (unat P) n (unat M) B b own other (pcs(t := Passed k))"
proof -
  let ?p = "unat P" and ?pcs = "pcs(t := Passed k)"
  let ?sum = "\<lambda>pcs K. unat own + ((\<Sum>u<n. pc_pending (pcs u)) + card K * unat B)"
  obtain K where K: "side_ok ?p n (unat M) B b K own other pcs" using ok by (auto simp: side_inv_def)
  have fin: "finite K" using K finite_subset by (auto simp: side_ok_def)
  have l: "\<forall>u. if u \<in> K - {t} then pc_pending (?pcs u) = 0 else pc_ok B own other (?pcs u)"
    using K t(3) by (simp add: side_ok_def)
  have "(100 - ?p) * ?sum ?pcs (K - {t}) \<le> ?p * (unat other + unat B * unat M) + (100 - ?p) * (b + n * unat B)"
  proof (cases "t \<in> K")
    case True
    have "(\<Sum>u<n. pc_pending (?pcs u)) = (\<Sum>u<n. pc_pending (pcs u)) + unat k"
      using pending_upd [OF t(1), of pcs "Passed k"] t(2) by simp
    moreover have "card K * unat B = card (K - {t}) * unat B + unat B"
      using card.remove [OF fin True] by simp
    ultimately have "?sum ?pcs (K - {t}) \<le> ?sum pcs K" using t(3) by (simp add: word_le_nat_alt)
    then have "(100 - ?p) * ?sum ?pcs (K - {t}) \<le> (100 - ?p) * ?sum pcs K" by (rule mult_le_mono2)
    then show ?thesis using K unfolding side_ok_def by (meson le_trans)
  next
    case False
    then have "pc_ok B own other (pcs t)" using K by (simp add: side_ok_def)
    then have "x \<le> other" "y \<le> own" using t(2) by simp_all
    from check_passed [OF small P this chk] have c: "(100 - ?p) * unat own \<le> ?p * (unat other + unat B * unat M)" .
    have "(\<Sum>u<n. pc_pending (?pcs u)) + card (K - {t}) * unat B \<le> n * unat B"
    proof (rule pending_bound)
      show "K - {t} \<subseteq> {..<n}" using K by (auto simp: side_ok_def)
      show "\<forall>u. if u \<in> K - {t} then pc_pending (?pcs u) = 0 else pc_pending (?pcs u) \<le> unat B"
      proof
        fix u
        show "if u \<in> K - {t} then pc_pending (?pcs u) = 0 else pc_pending (?pcs u) \<le> unat B"
          using spec [OF l, of u] pc_ok_pending [of B own other "?pcs u"]
          by (auto split: if_splits simp del: fun_upd_apply)
      qed
    qed
    then have "(100 - ?p) * ((\<Sum>u<n. pc_pending (?pcs u)) + card (K - {t}) * unat B) \<le> (100 - ?p) * (b + n * unat B)"
      by (intro mult_le_mono2) simp
    with c show ?thesis unfolding add_mult_distrib2 [of _ "unat own"] by linarith
  qed
  moreover have "\<forall>u \<ge> n. ?pcs u = Outside" "K - {t} \<subseteq> {..<n}" using K t(1) by (auto simp: side_ok_def)
  ultimately have "side_ok ?p n (unat M) B b (K - {t}) own other ?pcs"
    using l unfolding side_ok_def by blast
  then show ?thesis by (auto simp: side_inv_def)
qed

abbreviation read_pct :: "rwmix_conf \<Rightarrow> nat" where
  "read_pct c \<equiv> unat (readRatioPercent c)"

abbreviation num_readers :: "rwmix_conf \<Rightarrow> nat" where
  "num_readers c \<equiv> unat (numReaderThreads c)"

abbreviation num_writers :: "rwmix_conf \<Rightarrow> nat" where
  "num_writers c \<equiv> unat (numWriterThreads c)"

text \<open>What holds at any time, whatever \<open>initStart\<close> does: only the threads of the two sides move, with blocks that fit.\<close>

definition rwmix_ok :: "rwmix_conf \<Rightarrow> rwmix_state \<Rightarrow> bool" where
  "rwmix_ok c s \<longleftrightarrow> rwmix_small c s \<and>
     (\<forall>t \<ge> num_readers c. rw_reader s t = Outside) \<and> (\<forall>t. pc_pending (rw_reader s t) \<le> unat (maxBlockSize c)) \<and>
     (\<forall>t \<ge> num_writers c. rw_writer s t = Outside) \<and> (\<forall>t. pc_pending (rw_writer s t) \<le> unat (maxBlockSize c))"

text \<open>What holds along steps without \<open>initStart\<close> since a state \<open>s0\<close>.\<close>

definition rwmix_inv :: "rwmix_conf \<Rightarrow> rwmix_state \<Rightarrow> rwmix_state \<Rightarrow> bool" where
  "rwmix_inv c s0 s \<longleftrightarrow> rwmix_small c s \<and>
     side_inv (read_pct c) (num_readers c) (num_writers c) (maxBlockSize c) (unat (numBytesRead s0))
       (numBytesRead s) (numBytesWrite s) (rw_reader s) \<and>
     side_inv (100 - read_pct c) (num_writers c) (num_readers c) (maxBlockSize c) (unat (numBytesWrite s0))
       (numBytesWrite s) (numBytesRead s) (rw_writer s)"

lemma unat_ucast_up [simp]: "unat (ucast (x :: u16) :: u64) = unat x" "unat (ucast (y :: u32) :: u64) = unat y"
proof -
  have "unat x < 2 ^ 16" "unat y < 2 ^ 32" using unsigned_less [of x] unsigned_less [of y] by simp_all
  then show "unat (ucast x :: u64) = unat x" "unat (ucast y :: u64) = unat y"
    by (simp_all add: unsigned_ucast_eq take_bit_nat_eq_self)
qed

lemma unat_write_pct: "read_pct c \<le> 100 \<Longrightarrow> unat (100 - ucast (readRatioPercent c) :: u64) = 100 - read_pct c"
  by (subst unat_sub_no) (simp_all add: word_le_nat_alt)

lemma side_inv_bound:
  assumes "side_inv p n m B b own other pcs"
  shows "(100 - p) * unat own \<le> p * (unat other + unat B * m) + (100 - p) * (b + n * unat B)"
proof -
  obtain K where "side_ok p n m B b K own other pcs" using assms by (auto simp: side_inv_def)
  then have "(100 - p) * (unat own + ((\<Sum>t<n. pc_pending (pcs t)) + card K * unat B)) \<le>
      p * (unat other + unat B * m) + (100 - p) * (b + n * unat B)"
    unfolding side_ok_def by blast
  then show ?thesis unfolding distrib_left [of "100 - p" "unat own"] by linarith
qed

lemma side_running: "side_inv p n m B b own other pcs \<Longrightarrow> pcs t \<noteq> Outside \<Longrightarrow> t < n"
  by (meson side_inv_def side_ok_def not_le)

lemma rwmix_small_sides:
  assumes "rwmix_small c s"
  shows "(unat (numBytesRead s) + unat (numBytesWrite s) + unat (maxBlockSize c) * num_writers c) * 100 < W64"
    "(unat (numBytesWrite s) + unat (numBytesRead s) + unat (maxBlockSize c) * num_readers c) * 100 < W64"
  using assms by (simp_all add: rwmix_small_def algebra_simps)

lemma rwmix_step_ok:
  assumes "rwmix_step c s s'" "rwmix_ok c s"
  shows "rwmix_ok c s'"
  using assms(1) unfolding rwmix_step_def
proof (elim disjE)
  assume "rwmix_init_step c s s'"
  then show ?thesis using assms(2) by cases (auto simp: rwmix_ok_def rwmix_small_def)
next
  assume "rwmix_wait_step c s s'"
  then show ?thesis
    using assms(2) by cases (auto simp: rwmix_ok_def rwmix_small_def word_le_nat_alt not_le [symmetric])
qed

lemma rwmix_wait_step_inv:
  assumes "rwmix_wait_step c s s'" "rwmix_inv c s0 s" "read_pct c \<le> 100"
  shows "rwmix_inv c s0 s'"
  using assms(1)
proof cases
  case (read_pass t w r n)
  have "side_inv (unat (ucast (readRatioPercent c) :: u64)) (num_readers c) (unat (ucast (numWriterThreads c) :: u64)) (maxBlockSize c)
      (unat (numBytesRead s0)) (numBytesRead s) (numBytesWrite s) ((rw_reader s)(t := Passed n))"
    using assms(2,3) read_pass side_running rwmix_small_sides
    by (intro side_inv_pass [where x = w and y = r]) (auto simp: rwmix_inv_def numBytesAllowedRead_def Let_def)
  then show ?thesis using assms(2) read_pass by (simp add: rwmix_inv_def rwmix_small_def)
next
  case (write_pass t r w n)
  have "side_inv (unat (100 - ucast (readRatioPercent c) :: u64)) (num_writers c) (unat (ucast (numReaderThreads c) :: u64)) (maxBlockSize c)
      (unat (numBytesWrite s0)) (numBytesWrite s) (numBytesRead s) ((rw_writer s)(t := Passed n))"
    using assms(2,3) write_pass side_running rwmix_small_sides
    by (intro side_inv_pass [where x = r and y = w]) (auto simp: rwmix_inv_def numBytesAllowedWrite_def Let_def unat_write_pct)
  then show ?thesis using assms(2,3) write_pass by (simp add: rwmix_inv_def rwmix_small_def unat_write_pct)
next
  case (read_count t n)
  have le: "numBytesRead s \<le> numBytesRead s + n" using read_count(3) by (simp add: word_le_nat_alt unat_add_no)
  show ?thesis using assms(2) read_count side_running unfolding rwmix_inv_def
    by (auto intro!: side_inv_count side_inv_other [OF _ le])
next
  case (write_count t n)
  have le: "numBytesWrite s \<le> numBytesWrite s + n" using write_count(3) by (simp add: word_le_nat_alt unat_add_no)
  show ?thesis using assms(2) write_count side_running unfolding rwmix_inv_def
    by (auto intro!: side_inv_count side_inv_other [OF _ le])
qed (use assms(2) side_running in \<open>auto simp: rwmix_inv_def rwmix_small_def intro!: side_inv_quiet\<close>)

interpretation rwmix: step_system "rwmix_step c" "\<lambda>s. s = rwmix_start \<and> rwmix_small c s" "rwmix_ok c" for c
proof
  show "rwmix_ok c s" if "s = rwmix_start \<and> rwmix_small c s" for s
    using that by (auto simp: rwmix_ok_def rwmix_start_def)
qed (blast intro: rwmix_step_ok)

interpretation rwmix_since: step_system "rwmix_wait_step c" "\<lambda>s. s = s0 \<and> rwmix_ok c s \<and> read_pct c \<le> 100"
    "\<lambda>s. rwmix_inv c s0 s \<and> read_pct c \<le> 100" for c s0
proof
  show "rwmix_inv c s0 s \<and> read_pct c \<le> 100" if "s = s0 \<and> rwmix_ok c s \<and> read_pct c \<le> 100" for s
    using that by (auto simp: rwmix_inv_def rwmix_ok_def intro!: side_inv_start)
qed (blast intro: rwmix_wait_step_inv)

subsection \<open>Properties\<close>



text \<open>
  C13: Readers against writers, for every interleaving of the loads, checks and counts of all threads and of the stores
  to zero of \<open>initStart\<close>, while the sum of the counters stays below some 184 petabytes: from any moment \<open>s0\<close> that the
  threads can reach, for as long as no thread is in \<open>initStart\<close>, the bytes counted by the readers exceed their
  share by at most the headroom for the writers, one block of each reader, and what their counter held
  at \<open>s0\<close>; the same the other way round. With \<open>s0\<close> the end of the last \<open>initStart\<close> of a phase, the writers' counter is
  zero there and the readers' counter holds what was counted between the two stores.
\<close>

theorem rwmix_balance_holds:
  assumes "(rwmix_step c)\<^sup>*\<^sup>* rwmix_start s0" "(rwmix_wait_step c)\<^sup>*\<^sup>* s0 s"
    and "rwmix_small c rwmix_start" "read_pct c \<le> 100"
  shows "(100 - read_pct c) * unat (numBytesRead s) \<le>
      read_pct c * (unat (numBytesWrite s) + unat (maxBlockSize c) * num_writers c) +
      (100 - read_pct c) * (unat (numBytesRead s0) + num_readers c * unat (maxBlockSize c)) \<and>
    read_pct c * unat (numBytesWrite s) \<le>
      (100 - read_pct c) * (unat (numBytesRead s) + unat (maxBlockSize c) * num_readers c) +
      read_pct c * (unat (numBytesWrite s0) + num_writers c * unat (maxBlockSize c))"
proof -
  have "rwmix_ok c s0" using rwmix.reachable_inv [of rwmix_start c s0] assms by simp
  with assms(4) have s: "rwmix_inv c s0 s" using rwmix_since.reachable_inv [OF conjI [OF refl] assms(2)] by blast
  then show ?thesis using side_inv_bound assms(4) unfolding rwmix_inv_def by fastforce
qed

text \<open>
  One reader and one writer with half of the bytes each. The reader has counted a block of 4096 bytes when the writer
  calls \<open>initStart\<close>, which discards it; then the reader counts another block.
\<close>

definition example_conf :: rwmix_conf where
  "example_conf = \<lparr>readRatioPercent = 50, numReaderThreads = 1, numWriterThreads = 1, maxBlockSize = 4096\<rparr>"

definition example_rwmix :: rwmix_state where
  "example_rwmix = rwmix_start\<lparr>numBytesRead := 4096\<rparr>"

lemma example_rwmix_reached:
  "(rwmix_wait_step example_conf)\<^sup>*\<^sup>* rwmix_start example_rwmix" "rwmix_small example_conf rwmix_start" "read_pct example_conf \<le> 100"
proof -
  let ?c = example_conf and ?at = "\<lambda>pc. rwmix_start\<lparr>rw_reader := (\<lambda>_. Outside)(0 := pc)\<rparr>"
  have 1: "rwmix_wait_step ?c rwmix_start (?at (LoadedOther 0))"
    using rwmix_wait_step.read_load_write [of 0 ?c rwmix_start] by (simp add: rwmix_start_def example_conf_def)
  have 2: "rwmix_wait_step ?c (?at (LoadedOther 0)) (?at (LoadedBoth 0 0))"
    using rwmix_wait_step.read_load_read [of "?at (LoadedOther 0)" 0 0 ?c] by (simp add: rwmix_start_def)
  have 3: "rwmix_wait_step ?c (?at (LoadedBoth 0 0)) (?at (Passed 4096))"
    using rwmix_wait_step.read_pass [of "?at (LoadedBoth 0 0)" 0 0 0 ?c 4096] by (simp add: rwmix_start_def example_conf_def)
  have 4: "rwmix_wait_step ?c (?at (Passed 4096)) example_rwmix"
    by (rule rwmix_wait_step.read_count [where t = 0 and n = 4096])
      (simp_all add: example_rwmix_def rwmix_start_def rwmix_small_def example_conf_def fun_upd_idem)
  show "(rwmix_wait_step ?c)\<^sup>*\<^sup>* rwmix_start example_rwmix"
    by (rule converse_rtranclp_into_rtranclp, rule 1, rule converse_rtranclp_into_rtranclp, rule 2,
      rule converse_rtranclp_into_rtranclp, rule 3, rule converse_rtranclp_into_rtranclp, rule 4, rule rtranclp.rtrancl_refl)
  show "rwmix_small ?c rwmix_start" "read_pct ?c \<le> 100" by (simp_all add: rwmix_small_def example_conf_def rwmix_start_def)
qed

lemma example_rwmix_discarded: "(rwmix_step example_conf)\<^sup>*\<^sup>* example_rwmix rwmix_start"
proof -
  let ?c = example_conf and ?m = "rwmix_start\<lparr>rw_writer := (\<lambda>_. Outside)(0 := StoredRead)\<rparr>"
  have 1: "rwmix_init_step ?c example_rwmix ?m"
    using rwmix_init_step.writer_stores_read [of 0 ?c example_rwmix] by (simp add: rwmix_start_def example_rwmix_def example_conf_def)
  have 2: "rwmix_init_step ?c ?m rwmix_start"
    using rwmix_init_step.writer_stores_write [of ?m 0 ?c] by (simp add: rwmix_start_def fun_upd_idem)
  show "(rwmix_step ?c)\<^sup>*\<^sup>* example_rwmix rwmix_start"
    by (rule converse_rtranclp_into_rtranclp [OF _ r_into_rtranclp, of _ _ ?m]) (use 1 2 in \<open>simp_all add: rwmix_step_def\<close>)
qed

lemma example_rwmix_counted: "(rwmix_step example_conf)\<^sup>*\<^sup>* rwmix_start example_rwmix"
  using rtranclp_mono [of "rwmix_wait_step example_conf" "rwmix_step example_conf"] example_rwmix_reached(1)
  by (auto simp: rwmix_step_def le_fun_def)

theorem rwmix_balance_holds_witness:
  "(rwmix_step example_conf)\<^sup>*\<^sup>* example_rwmix rwmix_start \<and>
   (100 - read_pct example_conf) * unat (numBytesRead example_rwmix) \<le>
      read_pct example_conf * (unat (numBytesWrite example_rwmix) + unat (maxBlockSize example_conf) * num_writers example_conf) +
      (100 - read_pct example_conf) * (unat (numBytesRead rwmix_start) + num_readers example_conf * unat (maxBlockSize example_conf))"
  using rwmix_balance_holds [OF rtranclp_trans [OF example_rwmix_counted example_rwmix_discarded] example_rwmix_reached]
    example_rwmix_discarded
  by simp

end
