(* ===== verification/FileOps.thy ===== *)
theory FileOps
  imports Prelude
begin

text \<open>
  The operating system as the workers see it, and the functions of \<open>toolkits/FileTk\<close> that advise, map,
  lock and create. The state \<open>'x\<close> of the system and what a call does to it are not part of
  the program: the calls are members of a record that every operation gets as its first argument.
  Calls return what they return in C; those that set \<open>errno\<close> return it as well.
\<close>

subsection \<open>System calls\<close>

datatype advice = ADV_DONTNEED | ADV_NOREUSE | ADV_SEQUENTIAL | ADV_RANDOM | ADV_WILLNEED | ADV_HUGEPAGE | ADV_NOHUGEPAGE

datatype lock_type = F_RDLCK | F_WRLCK | F_UNLCK

datatype errno = ENOENT | EEXIST | EINVAL | OtherError nat

text \<open>
  A mapping is named by the file it maps; loads and stores outside of the file trap, which is \<open>None\<close>.
  \<open>k_balance\<close> is a call of the limiter that balances readers and writers, whose outcome depends on the
  other threads, and \<open>k_interrupted\<close> reads the flag by which another thread asks a worker to stop.
\<close>

record 'x kernel =
  k_pread :: "int \<Rightarrow> u64 \<Rightarrow> u64 \<Rightarrow> 'x \<Rightarrow> (int \<times> u8 list) \<times> 'x"
  k_pwrite :: "int \<Rightarrow> u8 list \<Rightarrow> u64 \<Rightarrow> 'x \<Rightarrow> int \<times> 'x"
  k_fadvise :: "int \<Rightarrow> advice \<Rightarrow> 'x \<Rightarrow> int \<times> 'x"
  k_mmap :: "int \<Rightarrow> u64 \<Rightarrow> 'x \<Rightarrow> bool \<times> 'x"
  k_madvise :: "int \<Rightarrow> advice \<Rightarrow> 'x \<Rightarrow> int \<times> 'x"
  k_munmap :: "int \<Rightarrow> u64 \<Rightarrow> 'x \<Rightarrow> 'x"
  k_load :: "int \<Rightarrow> u64 \<Rightarrow> u64 \<Rightarrow> 'x \<Rightarrow> u8 list option \<times> 'x"
  k_store :: "int \<Rightarrow> u8 list \<Rightarrow> u64 \<Rightarrow> 'x \<Rightarrow> bool \<times> 'x"
  k_setlkw :: "int \<Rightarrow> lock_type \<Rightarrow> u64 \<Rightarrow> u64 \<Rightarrow> 'x \<Rightarrow> bool \<times> 'x"
  k_mkdirat :: "int \<Rightarrow> string \<Rightarrow> 'x \<Rightarrow> errno option \<times> 'x"
  k_now :: "'x \<Rightarrow> nat \<times> 'x"
  k_sleep_until :: "nat \<Rightarrow> 'x \<Rightarrow> 'x"
  k_balance :: "bool \<Rightarrow> u64 \<Rightarrow> 'x \<Rightarrow> bool result \<times> 'x"
  k_interrupted :: "'x \<Rightarrow> bool \<times> 'x"

text \<open>A computation that changes the state and may throw, followed by another.\<close>

definition thenE :: "'a result \<times> 's \<Rightarrow> ('a \<Rightarrow> 's \<Rightarrow> 'b result \<times> 's) \<Rightarrow> 'b result \<times> 's" where
  "thenE m f = (case m of (Inl ex, s) \<Rightarrow> (Inl ex, s) | (Inr a, s) \<Rightarrow> f a s)"

lemma thenE_simps [simp]: "thenE (Inl ex, s) f = (Inl ex, s)" "thenE (Inr a, s) f = f a s"
  by (simp_all add: thenE_def)

lemma thenE_eq_Inr: "thenE m f = (Inr b, t) \<longleftrightarrow> (\<exists>a s. m = (Inr a, s) \<and> f a s = (Inr b, t))"
  by (auto simp: thenE_def split: prod.splits sum.splits)

subsection \<open>Advice and mappings\<close>

definition ARG_FADVISE_FLAG_SEQ :: u32 where "ARG_FADVISE_FLAG_SEQ = 1"
definition ARG_FADVISE_FLAG_RAND :: u32 where "ARG_FADVISE_FLAG_RAND = 2"
definition ARG_FADVISE_FLAG_WILLNEED :: u32 where "ARG_FADVISE_FLAG_WILLNEED = 4"
definition ARG_FADVISE_FLAG_DONTNEED :: u32 where "ARG_FADVISE_FLAG_DONTNEED = 8"
definition ARG_FADVISE_FLAG_NOREUSE :: u32 where "ARG_FADVISE_FLAG_NOREUSE = 16"
definition ARG_MADVISE_FLAG_HUGEPAGE :: u32 where "ARG_MADVISE_FLAG_HUGEPAGE = 16"
definition ARG_MADVISE_FLAG_NOHUGEPAGE :: u32 where "ARG_MADVISE_FLAG_NOHUGEPAGE = 32"

definition ARG_FLOCK_NONE :: u16 where "ARG_FLOCK_NONE = 0"
definition ARG_FLOCK_RANGE :: u16 where "ARG_FLOCK_RANGE = 1"
definition ARG_FLOCK_FULL :: u16 where "ARG_FLOCK_FULL = 2"

text \<open>One advice, given when its flag is set; \<open>failed\<close> tells which results of the call are errors.\<close>

definition advise_if :: "bool \<Rightarrow> ('x \<Rightarrow> int \<times> 'x) \<Rightarrow> (int \<Rightarrow> bool) \<Rightarrow> exn \<Rightarrow> 'x \<Rightarrow> unit result \<times> 'x" where
  "advise_if flag call failed ex x =
     (if flag then (case call x of (res, x) \<Rightarrow> if failed res then (Inl ex, x) else (Inr (), x))
      else (Inr (), x))"

definition FileTk_fadvise :: "(string \<Rightarrow> exn) \<Rightarrow> 'x kernel \<Rightarrow> int \<Rightarrow> u32 \<Rightarrow> 'x \<Rightarrow> unit result \<times> 'x" where
  "FileTk_fadvise EXCEPTION k fd flags x =
     (if flags = 0 then (Inr (), x)
      else
        let ex = EXCEPTION ''Unable to set POSIX fadvise. '';
            adv = (\<lambda>flag a x. advise_if (flags AND flag \<noteq> 0) (k_fadvise k fd a) (\<lambda>res. res \<noteq> 0) ex x)
        in thenE (adv ARG_FADVISE_FLAG_DONTNEED ADV_DONTNEED x) (\<lambda>_ x.
           thenE (adv ARG_FADVISE_FLAG_NOREUSE ADV_NOREUSE x) (\<lambda>_ x.
           thenE (adv ARG_FADVISE_FLAG_SEQ ADV_SEQUENTIAL x) (\<lambda>_ x.
           thenE (adv ARG_FADVISE_FLAG_RAND ADV_RANDOM x) (\<lambda>_ x.
           adv ARG_FADVISE_FLAG_WILLNEED ADV_WILLNEED x)))))"

definition FileTk_mmapAndMadvise :: "(string \<Rightarrow> exn) \<Rightarrow> 'x kernel \<Rightarrow> u64 \<Rightarrow> int \<Rightarrow> u32 \<Rightarrow> 'x \<Rightarrow> int result \<times> 'x" where
  "FileTk_mmapAndMadvise EXCEPTION k len fd flags x =
     (case k_mmap k fd len x of
        (False, x) \<Rightarrow> (Inl (EXCEPTION ''Unable to create file memory mapping. ''), x)
      | (True, x) \<Rightarrow>
          if flags = 0 then (Inr fd, x)
          else
            let ex = EXCEPTION ''Unable to set madvise. '';
                adv = (\<lambda>flag a failed x. advise_if (flags AND flag \<noteq> 0) (k_madvise k fd a) failed ex x);
                errnoRes = (\<lambda>res. res \<noteq> 0);
                minus1Res = (\<lambda>res. res = -1)
            in (case thenE (adv ARG_FADVISE_FLAG_DONTNEED ADV_DONTNEED errnoRes x) (\<lambda>_ x.
                     thenE (adv ARG_FADVISE_FLAG_SEQ ADV_SEQUENTIAL errnoRes x) (\<lambda>_ x.
                     thenE (adv ARG_FADVISE_FLAG_RAND ADV_RANDOM errnoRes x) (\<lambda>_ x.
                     thenE (adv ARG_FADVISE_FLAG_WILLNEED ADV_WILLNEED errnoRes x) (\<lambda>_ x.
                     thenE (adv ARG_MADVISE_FLAG_HUGEPAGE ADV_HUGEPAGE minus1Res x) (\<lambda>_ x.
                     adv ARG_MADVISE_FLAG_NOHUGEPAGE ADV_NOHUGEPAGE minus1Res x))))) of
                  (Inr _, x) \<Rightarrow> (Inr fd, x)
                | (Inl ex, x) \<Rightarrow> (Inl ex, k_munmap k fd len x)))"

subsection \<open>Locks of files\<close>

definition FileTk_flock ::
    "(string \<Rightarrow> exn) \<Rightarrow> 'x kernel \<Rightarrow> int \<Rightarrow> u16 \<Rightarrow> u64 \<Rightarrow> u64 \<Rightarrow> bool \<Rightarrow> bool \<Rightarrow> 'x \<Rightarrow> unit result \<times> 'x" where
  "FileTk_flock EXCEPTION k fd flockType offset len isWrite isUnlock x =
     (let l_type = (if isUnlock then F_UNLCK else if isWrite then F_WRLCK else F_RDLCK) in
      if flockType = ARG_FLOCK_RANGE
      then case k_setlkw k fd l_type offset len x of
             (ok, x) \<Rightarrow> (if ok then Inr () else Inl (EXCEPTION ''File range lock operation failed. ''), x)
      else if flockType = ARG_FLOCK_FULL
      then case k_setlkw k fd l_type 0 0 x of
             (ok, x) \<Rightarrow> (if ok then Inr () else Inl (EXCEPTION ''Full file lock operation failed. ''), x)
      else (Inr (), x))"

subsection \<open>Directories\<close>

text \<open>
  \<open>parent_path\<close> of a path with components separated by one slash: what precedes the last slash
  (the path itself when this is only the root), or nothing.
\<close>

definition parent_path :: "string \<Rightarrow> string" where
  "parent_path path =
     (let dir = rev (dropWhile (\<lambda>c. c \<noteq> CHR ''/'') (rev path)) in
      if dir = [] then [] else if dir = ''/'' then ''/'' else butlast dir)"

lemma length_parent_path: "parent_path path = path \<or> length (parent_path path) < length path"
proof -
  have "length (dropWhile (\<lambda>c. c \<noteq> CHR ''/'') (rev path)) \<le> length path"
    using length_dropWhile_le [of _ "rev path"] by simp
  then have "length (butlast (rev (dropWhile (\<lambda>c. c \<noteq> CHR ''/'') (rev path)))) < length path"
    if "dropWhile (\<lambda>c. c \<noteq> CHR ''/'') (rev path) \<noteq> []" using that by (cases path) auto
  then show ?thesis
    using length_dropWhile_le [of "\<lambda>c. c \<noteq> CHR ''/''" "rev path"] by (cases path) (auto simp: parent_path_def Let_def)
qed

text \<open>The result is the \<open>errno\<close> of a failure, \<open>None\<close> for success.\<close>

function mkdiratBottomUp :: "'x kernel \<Rightarrow> int \<Rightarrow> string \<Rightarrow> 'x \<Rightarrow> errno option \<times> 'x" where
  "mkdiratBottomUp k dirFD path x =
     (case k_mkdirat k dirFD path x of
        (mkdirRes, x) \<Rightarrow>
          if mkdirRes = None \<or> mkdirRes = Some EEXIST then (mkdirRes, x)
          else if mkdirRes = Some ENOENT
          then
            if parent_path path = path \<or> path = [] then (Some ENOENT, x)
            else (case mkdiratBottomUp k dirFD (parent_path path) x of
                    (mkdirParentRes, x) \<Rightarrow>
                      if mkdirParentRes \<noteq> None \<and> mkdirParentRes \<noteq> Some EEXIST then (mkdirParentRes, x)
                      else k_mkdirat k dirFD path x)
          else (mkdirRes, x))"
  by pat_completeness auto
termination
  by (relation "measure (\<lambda>(k, dirFD, path, x). length path)") (use length_parent_path in auto)

declare mkdiratBottomUp.simps [simp del]

end
