(* ===== verification/BlockIO.thy ===== *)
theory BlockIO
  imports OffsetGen LatencyHistogram JournalWorkers RateLimit Config FileOps
begin

text \<open>
  Block-wise I/O of a worker on files and block devices (\<open>workers/LocalWorker.cpp\<close>): the functions a
  phase uses (\<open>initPhaseFunctionPointers\<close>), the offset generator of a phase, the contents of buffers
  and their verification, and the synchronous loop \<open>rwBlockSized\<close>. The program modelled is the one built
  without CUDA, cuFile, HDFS and SPDK.
\<close>

subsection \<open>The functions of a phase\<close>

datatype rw_func = RwBlockSized | AioBlockSized | SpdkAioBlockSized

datatype positional_func =
    PreadWrapper | PwriteWrapper | PwriteAndReadWrapper | MmapReadWrapper | MmapWriteWrapper
  | CuFileReadWrapper | CuFileWriteWrapper | CuFileWriteAndReadWrapper | HdfsReadWrapper | HdfsWriteWrapper
  | SpdkReadWrapper | SpdkWriteWrapper | SpdkWriteAndReadWrapper

datatype aio_prepper = AioWritePrepper | AioReadPrepper | AioRWMixPrepper | AioJournalPrepper

datatype memcpy_func = NoOpCudaMemcpy | CudaMemcpyGPUToHost | CudaMemcpyHostToGPU

datatype block_func =
    NoOpIntegrityCheck | PreWriteIntegrityCheckFillBuf | PostReadIntegrityCheckVerifyBuf
  | PreWriteBufRandRefill | PreWriteBufRandRefillCuda | PreWriteJournalFillBuf | PostReadJournalVerifyBuf

datatype handle_func = NoOpCuFileHandle | DirModeCuFileHandle

datatype rate_func = NoOpRateLimiter | PreRWRateLimiter | PreRWRateBalanceLimiterForReaders | PreRWRateBalanceLimiterForWriters

text \<open>Function pointers are optional, as they can be \<open>NULL\<close>.\<close>

record phase_funcs =
  funcRWBlockSized :: "rw_func option"
  funcPositionalWrite :: "positional_func option"
  funcPositionalRead :: "positional_func option"
  funcAioRwPrepper :: "aio_prepper option"
  funcPreWriteCudaMemcpy :: "memcpy_func option"
  funcPostReadCudaMemcpy :: "memcpy_func option"
  funcPreWriteBlockModifier :: "block_func option"
  funcPostReadBlockChecker :: "block_func option"
  funcCuFileHandleReg :: "handle_func option"
  funcCuFileHandleDereg :: "handle_func option"
  funcRWRateLimiter :: "rate_func option"

definition nullifyPhaseFunctionPointers :: phase_funcs where
  "nullifyPhaseFunctionPointers =
     \<lparr>funcRWBlockSized = None, funcPositionalWrite = None, funcPositionalRead = None, funcAioRwPrepper = None,
      funcPreWriteCudaMemcpy = None, funcPostReadCudaMemcpy = None, funcPreWriteBlockModifier = None,
      funcPostReadBlockChecker = None, funcCuFileHandleReg = None, funcCuFileHandleDereg = None, funcRWRateLimiter = None\<rparr>"

text \<open>The symbol of the preprocessor, not set in the build that is modelled; no fact about the functions of a phase depends on it.\<close>

definition SPDK_SUPPORT :: bool where
  "SPDK_SUPPORT = False"

text \<open>
  The part of \<open>initPhaseFunctionPointers\<close> for a write phase and the part for other phases; the second result
  is the limit that a plain rate limiter is started with.
\<close>

definition init_write_funcs :: "prog_args \<Rightarrow> phase_funcs \<Rightarrow> phase_funcs \<times> u64 option" where
  "init_write_funcs pa f =
     (let areGPUsGiven = pa_gpuIDsVec pa \<noteq> [];
          integrityCheckEnabled = pa_integrityCheckSalt pa \<noteq> 0;
          useSPDK = (pa_benchMode pa = BenchMode_SPDK);
          f = f\<lparr>funcRWBlockSized := Some (if pa_ioDepth pa = 1 then RwBlockSized
                  else if SPDK_SUPPORT \<and> useSPDK then SpdkAioBlockSized else AioBlockSized),
                funcAioRwPrepper := (if pa_ioDepth pa = 1 then None
                  else if pa_rwMixReadPercent pa \<noteq> 0 then Some AioRWMixPrepper else Some AioWritePrepper),
                funcPreWriteCudaMemcpy := Some
                  (if areGPUsGiven \<and> integrityCheckEnabled then CudaMemcpyHostToGPU
                   else if areGPUsGiven \<and> \<not> pa_useCuFile pa then CudaMemcpyGPUToHost else NoOpCudaMemcpy),
                funcPostReadCudaMemcpy := Some NoOpCudaMemcpy,
                funcPreWriteBlockModifier := Some
                  (if integrityCheckEnabled then PreWriteIntegrityCheckFillBuf
                   else if pa_blockVariancePercent pa \<noteq> 0 \<and> areGPUsGiven then PreWriteBufRandRefillCuda
                   else if pa_blockVariancePercent pa \<noteq> 0 then PreWriteBufRandRefill else NoOpIntegrityCheck),
                funcPostReadBlockChecker := Some NoOpIntegrityCheck\<rparr>;
          f = (if pa_doDirectVerify pa \<or> pa_doReadInline pa
               then
                 let f = (if useSPDK then f\<lparr>funcPositionalWrite := Some SpdkWriteAndReadWrapper\<rparr>
                          else if \<not> pa_useCuFile pa then f\<lparr>funcPositionalWrite := Some PwriteAndReadWrapper\<rparr>
                          else f\<lparr>funcPositionalWrite := Some CuFileWriteAndReadWrapper,
                                 funcPostReadCudaMemcpy := Some CudaMemcpyGPUToHost\<rparr>)
                 in if pa_doDirectVerify pa then f\<lparr>funcPostReadBlockChecker := Some PostReadIntegrityCheckVerifyBuf\<rparr> else f
               else f)
      in if pa_numRWMixReadThreads pa \<noteq> 0 \<and> pa_rwMixThreadsReadPercent pa \<noteq> 0
         then (f\<lparr>funcRWRateLimiter := Some PreRWRateBalanceLimiterForWriters\<rparr>, None)
         else if pa_limitWriteBps pa \<noteq> 0
         then (f\<lparr>funcRWRateLimiter := Some PreRWRateLimiter\<rparr>, Some (pa_limitWriteBps pa))
         else (f\<lparr>funcRWRateLimiter := Some NoOpRateLimiter\<rparr>, None))"

definition init_read_funcs :: "prog_args \<Rightarrow> bench_phase \<Rightarrow> phase_funcs \<Rightarrow> phase_funcs \<times> u64 option" where
  "init_read_funcs pa globalBenchPhase f =
     (let areGPUsGiven = pa_gpuIDsVec pa \<noteq> [];
          integrityCheckEnabled = pa_integrityCheckSalt pa \<noteq> 0;
          useSPDK = (pa_benchMode pa = BenchMode_SPDK);
          f = f\<lparr>funcRWBlockSized := Some (if pa_ioDepth pa = 1 then RwBlockSized
                  else if SPDK_SUPPORT \<and> useSPDK then SpdkAioBlockSized else AioBlockSized),
                funcAioRwPrepper := (if pa_ioDepth pa = 1 then None else Some AioReadPrepper),
                funcPreWriteCudaMemcpy := Some NoOpCudaMemcpy,
                funcPostReadCudaMemcpy := Some
                  (if pa_useCuFile pa \<and> integrityCheckEnabled then CudaMemcpyGPUToHost
                   else if areGPUsGiven \<and> \<not> pa_useCuFile pa then CudaMemcpyHostToGPU else NoOpCudaMemcpy),
                funcPreWriteBlockModifier := Some NoOpIntegrityCheck,
                funcPostReadBlockChecker := Some
                  (if integrityCheckEnabled then PostReadIntegrityCheckVerifyBuf else NoOpIntegrityCheck)\<rparr>
      in if pa_numRWMixReadThreads pa \<noteq> 0 \<and> pa_rwMixThreadsReadPercent pa \<noteq> 0 \<and> globalBenchPhase = BenchPhase_CREATEFILES
         then (f\<lparr>funcRWRateLimiter := Some PreRWRateBalanceLimiterForReaders\<rparr>, None)
         else if pa_limitReadBps pa \<noteq> 0
         then (f\<lparr>funcRWRateLimiter := Some PreRWRateLimiter\<rparr>, Some (pa_limitReadBps pa))
         else (f\<lparr>funcRWRateLimiter := Some NoOpRateLimiter\<rparr>, None))"

definition initPhaseFunctionPointers :: "prog_args \<Rightarrow> bool \<Rightarrow> bench_phase \<Rightarrow> bench_phase \<Rightarrow> phase_funcs \<times> u64 option" where
  "initPhaseFunctionPointers pa isJournalingEnabled benchPhase globalBenchPhase =
     (let useHDFS = (pa_benchMode pa = BenchMode_HDFS);
          useSPDK = (pa_benchMode pa = BenchMode_SPDK);
          f = nullifyPhaseFunctionPointers
            \<lparr>funcPositionalWrite := Some
               (if useHDFS then HdfsWriteWrapper else if useSPDK then SpdkWriteWrapper
                else if pa_useMmap pa then MmapWriteWrapper else if pa_useCuFile pa then CuFileWriteWrapper else PwriteWrapper),
             funcPositionalRead := Some
               (if useHDFS then HdfsReadWrapper else if useSPDK then SpdkReadWrapper
                else if pa_useMmap pa then MmapReadWrapper else if pa_useCuFile pa then CuFileReadWrapper else PreadWrapper)\<rparr>;
          (f, startedLimit) = (if benchPhase = BenchPhase_CREATEFILES then init_write_funcs pa f else init_read_funcs pa globalBenchPhase f);
          handleFunc = Some (if pa_useCuFile pa \<and> pa_benchPathType pa = BenchPathType_DIR then DirModeCuFileHandle else NoOpCuFileHandle);
          f = f\<lparr>funcCuFileHandleReg := handleFunc, funcCuFileHandleDereg := handleFunc\<rparr>;
          f = (if isJournalingEnabled
               then
                 let f = f\<lparr>funcPreWriteBlockModifier := Some PreWriteJournalFillBuf, funcPostReadBlockChecker := Some PostReadJournalVerifyBuf\<rparr>
                 in if 1 < pa_ioDepth pa then f\<lparr>funcAioRwPrepper := Some AioJournalPrepper\<rparr> else f
               else f)
      in (f, startedLimit))"

subsection \<open>State of a worker\<close>

text \<open>
  \<open>lw_fdVec\<close> is the vector behind \<open>fileHandles.fdVecPtr\<close>, \<open>lw_mmapVec\<close> has the mapped file of each handle, and
  \<open>lw_journalPtrVec\<close> the number of the journal of each handle. The journals, the lock stripes and the
  state \<open>lw_x\<close> of the system are shared with the other workers.
\<close>

record 'x lw_state =
  lw_workerRank :: u64
  lw_benchPhase :: bench_phase
  lw_numIOPSSubmitted :: u64
  lw_workerGotPhaseWork :: bool
  lw_funcs :: phase_funcs
  lw_rwOffsetGen :: offset_gen
  lw_rand :: rand_src
  lw_randBlockVarAlgo :: rand_algo
  lw_randBlockVarReseed :: rand_algo
  lw_ioBuf :: "u8 list"
  lw_fdVec :: "int list"
  lw_threadFDVec :: "int list"
  lw_mmapVec :: "int option list"
  lw_errorFDVecIdx :: int
  lw_rateLimiter :: rate_limiter
  lw_iopsLatHisto :: histogram
  lw_iopsLatHistoReadMix :: histogram
  lw_liveBytes :: u64
  lw_liveIOPS :: u64
  lw_liveBytesReadMix :: u64
  lw_liveIOPSReadMix :: u64
  lw_journalPtrVec :: "nat list"
  lw_journalWorker :: journal_worker
  lw_journals :: "nat \<Rightarrow> journal"
  lw_stripeLocks :: stripe_locks
  lw_x :: 'x

definition on_kernel :: "('x \<Rightarrow> 'a \<times> 'x) \<Rightarrow> 'x lw_state \<Rightarrow> 'a \<times> 'x lw_state" where
  "on_kernel f s = (case f (lw_x s) of (a, x) \<Rightarrow> (a, s\<lparr>lw_x := x\<rparr>))"

definition checkInterruptionRequest :: "'x kernel \<Rightarrow> 'x lw_state \<Rightarrow> unit result \<times> 'x lw_state" where
  "checkInterruptionRequest k s =
     (case on_kernel (k_interrupted k) s of (isInterruptionRequested, s) \<Rightarrow>
        (if isInterruptionRequested then Inl (WorkerInterruptedException ''Received friendly request to interrupt execution.'')
         else Inr (), s))"

text \<open>Reverse sequential writes in place of random ones for S3.\<close>

definition getS3ModeDoReverseSeqFallback :: "prog_args \<Rightarrow> bench_phase \<Rightarrow> bool" where
  "getS3ModeDoReverseSeqFallback pa benchPhase \<longleftrightarrow>
     pa_useRandomOffsets pa \<and> pa_benchMode pa = BenchMode_S3 \<and> benchPhase = BenchPhase_CREATEFILES"

subsection \<open>Offset generators\<close>

text \<open>
  \<open>rdVar\<close>, \<open>rdReseed\<close> and \<open>rdOffset\<close> are the values of the random device that the constructors of the
  three random algorithms read.
\<close>

definition initPhaseRWOffsetGen ::
    "prog_args \<Rightarrow> bench_phase \<Rightarrow> (nat \<Rightarrow> u32) \<Rightarrow> (nat \<Rightarrow> u32) \<Rightarrow> (nat \<Rightarrow> u32) \<Rightarrow> 'x lw_state \<Rightarrow> unit result \<times> 'x lw_state" where
  "initPhaseRWOffsetGen pa globalBenchPhase rdVar rdReseed rdOffset s =
     (let blockSize = pa_blockSize pa;
          fileSize = pa_fileSize pa;
          isWritePhase = (globalBenchPhase = BenchPhase_CREATEFILES)
      in if pa_benchPathType pa \<noteq> BenchPathType_DIR \<and> pa_numDataSetThreads pa = 0 then (Inl (Fault ''division by zero''), s)
      else
        let randomAmount = (if pa_benchPathType pa = BenchPathType_DIR then fileSize else pa_randomAmount pa div pa_numDataSetThreads pa)
        in (case rand_stringToAlgo (pa_blockVarianceAlgo pa) rdVar of
              Inl ex \<Rightarrow> (Inl ex, s)
            | Inr varAlgo \<Rightarrow>
                (let s = s\<lparr>lw_randBlockVarAlgo := varAlgo, lw_randBlockVarReseed := RandAlgoXoshiro256ss (xoshiro256ss_new rdReseed)\<rparr> in
                 case rand_stringToAlgo (if pa_randOffsetAlgo pa = [] then ''balanced_single'' else pa_randOffsetAlgo pa) rdOffset of
                   Inl ex \<Rightarrow> (Inl ex, s)
                 | Inr offsetAlgo \<Rightarrow>
                     (let s = s\<lparr>lw_rand := (lw_rand s)\<lparr>rs_algo := offsetAlgo\<rparr>\<rparr>;
                          set_gen = (\<lambda>g s. case g of Inl ex \<Rightarrow> (Inl ex, s) | Inr g \<Rightarrow> (Inr (), s\<lparr>lw_rwOffsetGen := g\<rparr>))
                      in if pa_doReverseSeqOffsets pa \<or> getS3ModeDoReverseSeqFallback pa (lw_benchPhase s)
                         then set_gen (map_sum id OffsetGenReverseSeq (rev_new fileSize 0 blockSize)) s
                         else if \<not> pa_useRandomOffsets pa \<and> \<not> pa_useStridedAccess pa
                         then set_gen (Inr (OffsetGenSequential (seq_new fileSize 0 (pa_blockSizeMix pa)))) s
                         else if pa_useRandomUnaligned pa
                         then set_gen (map_sum id OffsetGenRandom (rnd_new randomAmount fileSize 0 (pa_blockSizeMix pa))) s
                         else if pa_randOffsetAlgo pa \<noteq> [] \<or> \<not> isWritePhase \<or> mix_isMix (pa_blockSizeMix pa)
                         then set_gen (map_sum id OffsetGenRandomAligned (ral_new randomAmount fileSize 0 (pa_blockSizeMix pa))) s
                         else let (rd, rs) = rs_draw (lw_rand s)
                              in set_gen (map_sum id OffsetGenRandomAlignedFullCoverageV2 (fcv_new randomAmount fileSize 0 blockSize rd))
                                   (s\<lparr>lw_rand := rs\<rparr>)))))"

subsection \<open>Files as one range\<close>

definition calcFileIdxAndOffsetStriped :: "u64 \<Rightarrow> u64 \<Rightarrow> u64 \<Rightarrow> bool \<Rightarrow> (u64 \<times> u64) result" where
  "calcFileIdxAndOffsetStriped rwOffsetGenNext fileSize fileOffsetBase isSingleFile =
     (if isSingleFile then Inr (0, rwOffsetGenNext + fileOffsetBase)
      else if fileSize = 0 then Inl (Fault ''division by zero'')
      else Inr (rwOffsetGenNext div fileSize, rwOffsetGenNext mod fileSize + fileOffsetBase))"

subsection \<open>Contents of buffers\<close>

text \<open>The bytes that \<open>preWriteIntegrityCheckFillBuf\<close> stores.\<close>

function integrity_fill_loop :: "u64 \<Rightarrow> u64 \<Rightarrow> nat \<Rightarrow> u8 list" where
  "integrity_fill_loop checkSumSalt currentOffset numBytesLeft =
     (if numBytesLeft = 0 then []
      else
        let checkSumStartOffset = currentOffset - currentOffset mod 8;
            checkSum = checkSumStartOffset + checkSumSalt;
            checkSumArrayStartIdx = unat (currentOffset - checkSumStartOffset);
            checkSumCopyLen = min numBytesLeft (8 - checkSumArrayStartIdx)
        in take checkSumCopyLen (drop checkSumArrayStartIdx (le_bytes checkSum)) @
           integrity_fill_loop checkSumSalt (currentOffset + of_nat checkSumCopyLen) (numBytesLeft - checkSumCopyLen))"
  by pat_completeness auto
termination
  by (relation "measure (\<lambda>(checkSumSalt, currentOffset, numBytesLeft). numBytesLeft)")
    (auto simp: unat_mod min_def)

declare integrity_fill_loop.simps [simp del]

definition preWriteIntegrityCheckFillBuf :: "prog_args \<Rightarrow> nat \<Rightarrow> u64 \<Rightarrow> u8 list" where
  "preWriteIntegrityCheckFillBuf pa bufLen fileOffset = integrity_fill_loop (pa_integrityCheckSalt pa) fileOffset bufLen"

definition postReadIntegrityCheckVerifyBuf :: "prog_args \<Rightarrow> u8 list \<Rightarrow> u64 \<Rightarrow> unit result" where
  "postReadIntegrityCheckVerifyBuf pa hostIOBuf fileOffset =
     (if hostIOBuf = [] then Inr ()
      else
        let verifyBuf = preWriteIntegrityCheckFillBuf pa (length hostIOBuf) fileOffset in
        if hostIOBuf = verifyBuf then Inr () else Inl (WorkerException ''Data verification failed. ''))"

definition bufFill :: "u64 \<Rightarrow> nat \<Rightarrow> u8 list" where
  "bufFill fillValue bufLen =
     concat (replicate (bufLen div 8) (le_bytes fillValue)) @ take (bufLen mod 8) (le_bytes fillValue)"

definition is_rwmix_read :: "prog_args \<Rightarrow> 'x lw_state \<Rightarrow> bool" where
  "is_rwmix_read pa s \<longleftrightarrow> (lw_workerRank s + lw_numIOPSSubmitted s) mod 100 < ucast (pa_rwMixReadPercent pa)"

definition journalGetIntent :: "prog_args \<Rightarrow> bench_phase \<Rightarrow> 'x lw_state \<Rightarrow> jio_intent" where
  "journalGetIntent pa globalBenchPhase s =
     (if lw_benchPhase s = BenchPhase_READFILES
      then if globalBenchPhase = BenchPhase_READFILES then INTENT_READ_SKIP_UNINIT else INTENT_READ_OR_INIT
      else if pa_rwMixReadPercent pa \<noteq> 0 \<and> is_rwmix_read pa s then INTENT_READ_OR_INIT
      else INTENT_WRITE)"

text \<open>
  Storing to the start of the I/O buffer; a length beyond the buffer is undefined, which the trap stands
  for.
\<close>

definition buf_store :: "u8 list \<Rightarrow> 'x lw_state \<Rightarrow> unit result \<times> 'x lw_state" where
  "buf_store bytes s =
     (if length bytes \<le> length (lw_ioBuf s) then (Inr (), s\<lparr>lw_ioBuf := bytes @ drop (length bytes) (lw_ioBuf s)\<rparr>)
      else (Inl (Fault ''access outside of the I/O buffer''), s))"

definition preWriteBufRandRefill :: "prog_args \<Rightarrow> u64 \<Rightarrow> 'x lw_state \<Rightarrow> unit result \<times> 'x lw_state" where
  "preWriteBufRandRefill pa bufLen s =
     (if is_rwmix_read pa s then (Inr (), s)
      else
        let varFillLen = bufLen * ucast (pa_blockVariancePercent pa) div 100;
            constFillRemainderLen = bufLen - varFillLen;
            (varBytes, ra) = rand_fillBuf varFillLen (lw_randBlockVarAlgo s)
        in if constFillRemainderLen = 0 then buf_store varBytes (s\<lparr>lw_randBlockVarAlgo := ra\<rparr>)
           else let (v, ra) = rand_next ra
                in buf_store (varBytes @ bufFill v (unat constFillRemainderLen)) (s\<lparr>lw_randBlockVarAlgo := ra\<rparr>))"

text \<open>The call of a function for the contents of a buffer.\<close>

definition active_journal_io :: "'x lw_state \<Rightarrow> journal_block_io" where
  "active_journal_io s = journalIOSlots (lw_journalWorker s) ! activeJournalIO (lw_journalWorker s)"

fun call_block_func :: "prog_args \<Rightarrow> block_func \<Rightarrow> u64 \<Rightarrow> u64 \<Rightarrow> 'x lw_state \<Rightarrow> unit result \<times> 'x lw_state" where
  "call_block_func pa NoOpIntegrityCheck bufLen off s = (Inr (), s)"
| "call_block_func pa PreWriteIntegrityCheckFillBuf bufLen off s =
     buf_store (preWriteIntegrityCheckFillBuf pa (unat bufLen) off) s"
| "call_block_func pa PostReadIntegrityCheckVerifyBuf bufLen off s =
     (postReadIntegrityCheckVerifyBuf pa (take (unat bufLen) (lw_ioBuf s)) off, s)"
| "call_block_func pa PreWriteBufRandRefill bufLen off s = preWriteBufRandRefill pa bufLen s"
| "call_block_func pa PreWriteBufRandRefillCuda bufLen off s =
     (Inl (WorkerException ''preWriteBufRandRefillCuda called, but this executable was built without CUDA support.''), s)"
| "call_block_func pa PreWriteJournalFillBuf bufLen off s =
     (let io = active_journal_io s in
      case preWriteJournalFillBuf io (lw_journals s (io_journal io)) off (take (unat bufLen) (lw_ioBuf s)) of
        Inl ex \<Rightarrow> (Inl ex, s)
      | Inr bytes \<Rightarrow> buf_store bytes s)"
| "call_block_func pa PostReadJournalVerifyBuf bufLen off s =
     (let io = active_journal_io s
      in (postReadJournalVerifyBuf io (lw_journals s (io_journal io)) off (take (unat bufLen) (lw_ioBuf s)), s))"

subsection \<open>Reading and writing\<close>

text \<open>A handle outside of the vector is undefined, which the trap stands for.\<close>

definition handle_at :: "'a list \<Rightarrow> u64 \<Rightarrow> 'a result" where
  "handle_at v i = (if unat i < length v then Inr (v ! unat i) else Inl (Fault ''access outside of the vector of handles''))"

definition do_pread :: "'x kernel \<Rightarrow> int \<Rightarrow> u64 \<Rightarrow> u64 \<Rightarrow> 'x lw_state \<Rightarrow> int result \<times> 'x lw_state" where
  "do_pread k fd nbytes offset s =
     (case on_kernel (k_pread k fd nbytes offset) s of ((res, bytes), s) \<Rightarrow>
        if res \<le> 0 then (Inr res, s) else thenE (buf_store bytes s) (\<lambda>_ s. (Inr res, s)))"

definition do_pwrite :: "'x kernel \<Rightarrow> int \<Rightarrow> u64 \<Rightarrow> u64 \<Rightarrow> 'x lw_state \<Rightarrow> int result \<times> 'x lw_state" where
  "do_pwrite k fd nbytes offset s =
     (case on_kernel (k_pwrite k fd (take (unat nbytes) (lw_ioBuf s)) offset) s of (res, s) \<Rightarrow> (Inr res, s))"

text \<open>\<open>mmapReadWrapper\<close> and \<open>mmapWriteWrapper\<close>; an access without a mapping or beyond the file traps.\<close>

definition mmapReadWrapper :: "'x kernel \<Rightarrow> int option \<Rightarrow> u64 \<Rightarrow> u64 \<Rightarrow> 'x lw_state \<Rightarrow> int result \<times> 'x lw_state" where
  "mmapReadWrapper k m nbytes offset s =
     (case m of
        None \<Rightarrow> (Inl (Fault ''access without a mapping''), s)
      | Some fd \<Rightarrow>
          (case on_kernel (k_load k fd nbytes offset) s of
             (None, s) \<Rightarrow> (Inl (Fault ''access outside of the mapped file''), s)
           | (Some bytes, s) \<Rightarrow> thenE (buf_store bytes s) (\<lambda>_ s. (Inr (int (unat nbytes)), s))))"

definition mmapWriteWrapper :: "'x kernel \<Rightarrow> int option \<Rightarrow> u64 \<Rightarrow> u64 \<Rightarrow> 'x lw_state \<Rightarrow> int result \<times> 'x lw_state" where
  "mmapWriteWrapper k m nbytes offset s =
     (case m of
        None \<Rightarrow> (Inl (Fault ''access without a mapping''), s)
      | Some fd \<Rightarrow>
          (case on_kernel (k_store k fd (take (unat nbytes) (lw_ioBuf s)) offset) s of
             (ok, s) \<Rightarrow> (if ok then Inr (int (unat nbytes)) else Inl (Fault ''access outside of the mapped file''), s)))"

fun call_positional :: "'x kernel \<Rightarrow> positional_func \<Rightarrow> u64 \<Rightarrow> u64 \<Rightarrow> u64 \<Rightarrow> 'x lw_state \<Rightarrow> int result \<times> 'x lw_state" where
  "call_positional k PreadWrapper idx nbytes offset s =
     (case handle_at (lw_fdVec s) idx of Inl ex \<Rightarrow> (Inl ex, s) | Inr fd \<Rightarrow> do_pread k fd nbytes offset s)"
| "call_positional k PwriteWrapper idx nbytes offset s =
     (case handle_at (lw_fdVec s) idx of Inl ex \<Rightarrow> (Inl ex, s) | Inr fd \<Rightarrow> do_pwrite k fd nbytes offset s)"
| "call_positional k PwriteAndReadWrapper idx nbytes offset s =
     (case handle_at (lw_fdVec s) idx of
        Inl ex \<Rightarrow> (Inl ex, s)
      | Inr fd \<Rightarrow>
          thenE (do_pwrite k fd nbytes offset s) (\<lambda>pwriteRes s.
            if pwriteRes \<le> 0 then (Inr pwriteRes, s) else do_pread k fd (of_int pwriteRes) offset s))"
| "call_positional k MmapReadWrapper idx nbytes offset s =
     (case handle_at (lw_mmapVec s) idx of Inl ex \<Rightarrow> (Inl ex, s) | Inr m \<Rightarrow> mmapReadWrapper k m nbytes offset s)"
| "call_positional k MmapWriteWrapper idx nbytes offset s =
     (case handle_at (lw_mmapVec s) idx of Inl ex \<Rightarrow> (Inl ex, s) | Inr m \<Rightarrow> mmapWriteWrapper k m nbytes offset s)"
| "call_positional k CuFileReadWrapper idx nbytes offset s =
     (Inl (WorkerException ''cuFileReadWrapper called, but this executable was built without cuFile API support''), s)"
| "call_positional k CuFileWriteWrapper idx nbytes offset s =
     (Inl (WorkerException ''cuFileWriteWrapper called, but this executable was built without cuFile API support''), s)"
| "call_positional k CuFileWriteAndReadWrapper idx nbytes offset s =
     (Inl (WorkerException ''cuFileWriteAndReadWrapper called, but this executable was built without cuFile API support''), s)"
| "call_positional k HdfsReadWrapper idx nbytes offset s =
     (Inl (WorkerException ''hdfsReadWrappercalled, but built without hdfs support''), s)"
| "call_positional k HdfsWriteWrapper idx nbytes offset s =
     (Inl (WorkerException ''hdfsWriteWrappercalled, but built without hdfs support''), s)"
| "call_positional k SpdkReadWrapper idx nbytes offset s =
     (Inl (WorkerException ''spdkReadWrappercalled, but built without spdk support''), s)"
| "call_positional k SpdkWriteWrapper idx nbytes offset s =
     (Inl (WorkerException ''spdkWriteWrappercalled, but built without spdk support''), s)"
| "call_positional k SpdkWriteAndReadWrapper idx nbytes offset s =
     (Inl (WorkerException ''spdkWriteAndReadWrappercalled, but built without spdk support''), s)"

text \<open>\<open>RateLimiter::wait\<close> with its calls of the clock.\<close>

definition preRWRateLimiter :: "'x kernel \<Rightarrow> u64 \<Rightarrow> 'x lw_state \<Rightarrow> bool \<times> 'x lw_state" where
  "preRWRateLimiter k rwSize s =
     (let rl = lw_rateLimiter s; (nowT, s) = on_kernel (k_now k) s in
      if 1000000 \<le> (nowT - rl_startT rl) div 1000
      then let (laterT, s) = on_kernel (k_now k) s; (waited, rl) = rl_wait rwSize nowT laterT rl in (waited, s\<lparr>lw_rateLimiter := rl\<rparr>)
      else if limitPerSec rl < numDoneThisSec rl + rwSize
      then let s = s\<lparr>lw_x := k_sleep_until k (rl_startT rl + 1000000 * 1000) (lw_x s)\<rparr>;
               (laterT, s) = on_kernel (k_now k) s; (waited, rl) = rl_wait rwSize nowT laterT rl
           in (waited, s\<lparr>lw_rateLimiter := rl\<rparr>)
      else let (waited, rl) = rl_wait rwSize nowT nowT rl in (waited, s\<lparr>lw_rateLimiter := rl\<rparr>))"

fun call_rate_func :: "'x kernel \<Rightarrow> rate_func \<Rightarrow> u64 \<Rightarrow> 'x lw_state \<Rightarrow> bool result \<times> 'x lw_state" where
  "call_rate_func k NoOpRateLimiter rwSize s = (Inr False, s)"
| "call_rate_func k PreRWRateLimiter rwSize s = (case preRWRateLimiter k rwSize s of (waited, s) \<Rightarrow> (Inr waited, s))"
| "call_rate_func k PreRWRateBalanceLimiterForReaders rwSize s = on_kernel (k_balance k False rwSize) s"
| "call_rate_func k PreRWRateBalanceLimiterForWriters rwSize s = on_kernel (k_balance k True rwSize) s"

text \<open>Calling through a pointer that is \<open>NULL\<close> traps.\<close>

definition call_ptr :: "'f option \<Rightarrow> ('f \<Rightarrow> 's \<Rightarrow> 'a result \<times> 's) \<Rightarrow> 's \<Rightarrow> 'a result \<times> 's" where
  "call_ptr p call s = (case p of None \<Rightarrow> (Inl (Fault ''call of a null function pointer''), s) | Some f \<Rightarrow> call f s)"

subsection \<open>The journal of an I/O\<close>

definition lw_journalBeginIO ::
    "sync_env \<Rightarrow> nat \<Rightarrow> u64 \<Rightarrow> u64 \<Rightarrow> u64 \<Rightarrow> jio_intent \<Rightarrow> 'x lw_state \<Rightarrow> jio_status \<times> 'x lw_state" where
  "lw_journalBeginIO env slotIdx fileHandleIdx currentOffset ioLen intent s =
     (case handle_at (lw_journalPtrVec s) fileHandleIdx of
        Inl ex \<Rightarrow> (Raised ex, s)
      | Inr j \<Rightarrow>
          (case journalBeginIO env slotIdx j currentOffset ioLen intent (lw_journalWorker s) (lw_journals s j) (lw_stripeLocks s) of
             (st, jw, jn, L) \<Rightarrow>
               (st, s\<lparr>lw_journalWorker := jw, lw_journals := (lw_journals s)(j := jn), lw_stripeLocks := L\<rparr>)))"

definition lw_journalCommitIO :: "sync_env \<Rightarrow> nat \<Rightarrow> 'x lw_state \<Rightarrow> unit result \<times> 'x lw_state" where
  "lw_journalCommitIO env slotIdx s =
     (let j = io_journal (journalIOSlots (lw_journalWorker s) ! slotIdx) in
      case journalCommitIO env slotIdx (lw_journalWorker s) (lw_journals s j) (lw_stripeLocks s) of
        (ex, jw, jn, L) \<Rightarrow>
          (case ex of None \<Rightarrow> Inr () | Some e \<Rightarrow> Inl e,
           s\<lparr>lw_journalWorker := jw, lw_journals := (lw_journals s)(j := jn), lw_stripeLocks := L\<rparr>))"

definition lw_journalReleaseIO :: "nat \<Rightarrow> 'x lw_state \<Rightarrow> 'x lw_state" where
  "lw_journalReleaseIO slotIdx s =
     (case journalReleaseIO slotIdx (lw_journalWorker s) (lw_stripeLocks s) of
        (jw, L) \<Rightarrow> s\<lparr>lw_journalWorker := jw, lw_stripeLocks := L\<rparr>)"

definition lw_journalReleaseSlots :: "'x lw_state \<Rightarrow> 'x lw_state" where
  "lw_journalReleaseSlots s =
     (case journalReleaseSlots (lw_journalWorker s) (lw_stripeLocks s) of
        (jw, L) \<Rightarrow> s\<lparr>lw_journalWorker := jw, lw_stripeLocks := L\<rparr>)"

subsection \<open>The synchronous loop\<close>

text \<open>
  What one round of \<open>rwBlockSized\<close> comes to. The parameters of the rounds are what the function reads
  before its loop.
\<close>

datatype rw_next = RwContinue | RwReturn int

definition rw_decide :: "prog_args \<Rightarrow> bench_phase \<Rightarrow> 'x lw_state \<Rightarrow> bool \<times> bool \<times> jio_intent" where
  "rw_decide pa globalBenchPhase s =
     (if lw_benchPhase s = BenchPhase_READFILES
      then let isRWMixRead = (lw_benchPhase s \<noteq> globalBenchPhase)
           in (True, isRWMixRead, if isRWMixRead then INTENT_READ_OR_INIT else INTENT_READ_SKIP_UNINIT)
      else if pa_rwMixReadPercent pa \<noteq> 0 \<and> is_rwmix_read pa s then (True, True, INTENT_READ_OR_INIT)
      else (False, False, INTENT_WRITE))"

definition rw_flock :: "'x kernel \<Rightarrow> prog_args \<Rightarrow> u64 \<Rightarrow> u64 \<Rightarrow> u64 \<Rightarrow> bool \<Rightarrow> bool \<Rightarrow> 'x lw_state \<Rightarrow> unit result \<times> 'x lw_state" where
  "rw_flock k pa fileHandleIdx offset len isWrite isUnlock s =
     (case handle_at (lw_fdVec s) fileHandleIdx of
        Inl ex \<Rightarrow> (Inl ex, s)
      | Inr fd \<Rightarrow> on_kernel (FileTk_flock WorkerException k fd (pa_flockType pa) offset len isWrite isUnlock) s)"

definition rw_account :: "'x kernel \<Rightarrow> bool \<Rightarrow> int \<Rightarrow> nat \<Rightarrow> 'x lw_state \<Rightarrow> rw_next result \<times> 'x lw_state" where
  "rw_account k isRWMixRead rwRes ioStartT s =
     (let (ioEndT, s) = on_kernel (k_now k) s;
          ioElapsedMicroSec = of_nat ((ioEndT - ioStartT) div 1000);
          s = (if isRWMixRead
               then s\<lparr>lw_iopsLatHistoReadMix := histo_addLatency ioElapsedMicroSec (lw_iopsLatHistoReadMix s),
                      lw_liveBytesReadMix := lw_liveBytesReadMix s + of_int rwRes, lw_liveIOPSReadMix := lw_liveIOPSReadMix s + 1\<rparr>
               else s\<lparr>lw_iopsLatHisto := histo_addLatency ioElapsedMicroSec (lw_iopsLatHisto s),
                      lw_liveBytes := lw_liveBytes s + of_int rwRes, lw_liveIOPS := lw_liveIOPS s + 1\<rparr>);
          s = s\<lparr>lw_numIOPSSubmitted := lw_numIOPSSubmitted s + 1,
                lw_rwOffsetGen := gen_addBytesSubmitted (of_int rwRes) (lw_rwOffsetGen s)\<rparr>
      in thenE (checkInterruptionRequest k s) (\<lambda>_ s. (Inr RwContinue, s)))"

text \<open>A round from the rate limiter on.\<close>

definition rw_transfer ::
    "sync_env \<Rightarrow> 'x kernel \<Rightarrow> prog_args \<Rightarrow> bool \<Rightarrow> bool \<Rightarrow> bool \<Rightarrow> u64 \<Rightarrow> u64 \<Rightarrow> u64 \<Rightarrow> 'x lw_state \<Rightarrow> rw_next result \<times> 'x lw_state" where
  "rw_transfer env k pa journalEnabled isRead isRWMixRead currentBlockSize fileHandleIdx currentOffset s =
     thenE (call_ptr (funcRWRateLimiter (lw_funcs s)) (\<lambda>f. call_rate_func k f currentBlockSize) s) (\<lambda>_ s.
     let (ioStartT, s) = on_kernel (k_now k) s in
     thenE (call_ptr (funcPreWriteBlockModifier (lw_funcs s)) (\<lambda>f. call_block_func pa f currentBlockSize currentOffset) s) (\<lambda>_ s.
     thenE (call_ptr (funcPreWriteCudaMemcpy (lw_funcs s)) (\<lambda>f s. (Inr (), s)) s) (\<lambda>_ s.
     thenE (rw_flock k pa fileHandleIdx currentOffset currentBlockSize (\<not> isRead) False s) (\<lambda>_ s.
     thenE (call_ptr (if isRead then funcPositionalRead (lw_funcs s) else funcPositionalWrite (lw_funcs s))
              (\<lambda>f. call_positional k f fileHandleIdx currentBlockSize currentOffset) s) (\<lambda>rwRes s.
       if rwRes \<le> 0
       then
         thenE (rw_flock k pa fileHandleIdx currentOffset currentBlockSize True True
                  (s\<lparr>lw_errorFDVecIdx := int (unat fileHandleIdx)\<rparr>)) (\<lambda>_ s.
         let s = (if journalEnabled then lw_journalReleaseIO 0 s else s);
             g = lw_rwOffsetGen s
         in (Inr (RwReturn (if rwRes < 0 then rwRes else sint (gen_getNumBytesTotal g - gen_getNumBytesLeftToSubmit g))), s))
       else
         thenE (rw_flock k pa fileHandleIdx currentOffset currentBlockSize True True s) (\<lambda>_ s.
         thenE (call_ptr (funcPostReadCudaMemcpy (lw_funcs s)) (\<lambda>f s. (Inr (), s)) s) (\<lambda>_ s.
         thenE (call_ptr (funcPostReadBlockChecker (lw_funcs s)) (\<lambda>f. call_block_func pa f currentBlockSize currentOffset) s) (\<lambda>_ s.
         thenE (if journalEnabled then lw_journalCommitIO env 0 s else (Inr (), s)) (\<lambda>_ s.
         rw_account k isRWMixRead rwRes ioStartT s)))))))))"

text \<open>
  A whole round. \<open>None\<close>: the generator does not return, or the thread waits for a lock stripe that another
  thread holds.
\<close>

definition rw_round ::
    "sync_env \<Rightarrow> 'x kernel \<Rightarrow> prog_args \<Rightarrow> bool \<Rightarrow> bench_phase \<Rightarrow> 'x lw_state \<Rightarrow> (rw_next result \<times> 'x lw_state) option" where
  "rw_round env k pa journalEnabled globalBenchPhase s =
     (case gen_getNextOffset (lw_rwOffsetGen s) (lw_rand s) of
        None \<Rightarrow> None
      | Some (Inl ex) \<Rightarrow> Some (Inl ex, s)
      | Some (Inr (rwOffsetGenNext, g, rs)) \<Rightarrow>
          (case gen_getNextBlockSizeToSubmit g rs of
             Inl ex \<Rightarrow> Some (Inl ex, s\<lparr>lw_rwOffsetGen := g, lw_rand := rs\<rparr>)
           | Inr (currentBlockSize, rs) \<Rightarrow>
               (let s = s\<lparr>lw_rwOffsetGen := g, lw_rand := rs\<rparr> in
                case calcFileIdxAndOffsetStriped rwOffsetGenNext (pa_fileSize pa) (pa_fileOffset pa) (length (lw_fdVec s) = 1) of
                  Inl ex \<Rightarrow> Some (Inl ex, s)
                | Inr (fileHandleIdx, currentOffset) \<Rightarrow>
                    (case rw_decide pa globalBenchPhase s of
                       (isRead, isRWMixRead, journalIntent) \<Rightarrow>
                         if \<not> journalEnabled
                         then Some (rw_transfer env k pa journalEnabled isRead isRWMixRead currentBlockSize fileHandleIdx currentOffset s)
                         else
                           (case lw_journalBeginIO env 0 fileHandleIdx currentOffset currentBlockSize journalIntent s of
                              (Raised ex, s) \<Rightarrow> Some (Inl ex, s)
                            | (WaitingIn _, s) \<Rightarrow> None
                            | (Returned journalAction, s) \<Rightarrow>
                                if journalAction = ACTION_SKIP
                                then Some (thenE (checkInterruptionRequest k
                                       (s\<lparr>lw_numIOPSSubmitted := lw_numIOPSSubmitted s + 1,
                                          lw_rwOffsetGen := gen_addBytesSubmitted currentBlockSize (lw_rwOffsetGen s)\<rparr>))
                                       (\<lambda>_ s. (Inr RwContinue, s)))
                                else Some (rw_transfer env k pa journalEnabled (journalAction = ACTION_READ)
                                       (isRWMixRead \<and> journalAction = ACTION_READ) currentBlockSize fileHandleIdx currentOffset s))))))"

partial_function (option) rw_loop ::
    "sync_env \<Rightarrow> 'x kernel \<Rightarrow> prog_args \<Rightarrow> bool \<Rightarrow> bench_phase \<Rightarrow> 'x lw_state \<Rightarrow> (int result \<times> 'x lw_state) option" where
  "rw_loop env k pa journalEnabled globalBenchPhase s =
     (if gen_getNumBytesLeftToSubmit (lw_rwOffsetGen s) = 0 then Some (Inr (sint (gen_getNumBytesTotal (lw_rwOffsetGen s))), s)
      else
        Option.bind (rw_round env k pa journalEnabled globalBenchPhase s) (\<lambda>(res, s).
          case res of
            Inl ex \<Rightarrow> Some (Inl ex, s)
          | Inr (RwReturn v) \<Rightarrow> Some (Inr v, s)
          | Inr RwContinue \<Rightarrow> rw_loop env k pa journalEnabled globalBenchPhase s))"

definition rwBlockSized ::
    "sync_env \<Rightarrow> 'x kernel \<Rightarrow> prog_args \<Rightarrow> bool \<Rightarrow> bench_phase \<Rightarrow> 'x lw_state \<Rightarrow> (int result \<times> 'x lw_state) option" where
  "rwBlockSized env k pa journalEnabled globalBenchPhase s =
     map_option (\<lambda>(res, s). (res, lw_journalReleaseSlots s)) (rw_loop env k pa journalEnabled globalBenchPhase s)"

subsection \<open>Kinds of functions\<close>

text \<open>Which functions fit which pointer.\<close>

fun is_positional_write :: "positional_func \<Rightarrow> bool" where
  "is_positional_write p \<longleftrightarrow> p \<in> set [PwriteWrapper, PwriteAndReadWrapper, MmapWriteWrapper, CuFileWriteWrapper,
     CuFileWriteAndReadWrapper, HdfsWriteWrapper, SpdkWriteWrapper, SpdkWriteAndReadWrapper]"

fun is_block_modifier :: "block_func \<Rightarrow> bool" where
  "is_block_modifier b \<longleftrightarrow> b \<in> set [NoOpIntegrityCheck, PreWriteIntegrityCheckFillBuf, PreWriteBufRandRefill,
     PreWriteBufRandRefillCuda, PreWriteJournalFillBuf]"

fun is_block_checker :: "block_func \<Rightarrow> bool" where
  "is_block_checker b \<longleftrightarrow> b \<in> set [NoOpIntegrityCheck, PostReadIntegrityCheckVerifyBuf, PostReadJournalVerifyBuf]"

text \<open>
  C12: After the preparation of a phase no function pointer that the I/O loops call is null, and each points to a function of its kind: the
  pointer for writes to a function that writes, the one for reads to a function that reads, the one called
  before a write to a function that fills the buffer, the one called after a read to a function that checks it. The
  asynchronous preparer is null exactly for the synchronous engine, and a rate limit has been started exactly when the limiter
  that waits for it is the one that is called.
\<close>

theorem phase_functions_typed:
  assumes "initPhaseFunctionPointers pa journaling benchPhase globalBenchPhase = (f, startedLimit)"
  shows "(\<exists>e. funcRWBlockSized f = Some e \<and> (e = RwBlockSized \<longleftrightarrow> funcAioRwPrepper f = None)) \<and>
    (\<exists>w r. funcPositionalWrite f = Some w \<and> is_positional_write w \<and> funcPositionalRead f = Some r \<and> \<not> is_positional_write r) \<and>
    (\<exists>m c. funcPreWriteBlockModifier f = Some m \<and> is_block_modifier m \<and> funcPostReadBlockChecker f = Some c \<and> is_block_checker c) \<and>
    funcPreWriteCudaMemcpy f \<noteq> None \<and> funcPostReadCudaMemcpy f \<noteq> None \<and>
    (\<exists>h. funcCuFileHandleReg f = Some h \<and> funcCuFileHandleDereg f = Some h) \<and>
    (\<exists>l. funcRWRateLimiter f = Some l \<and> (l = PreRWRateLimiter \<longleftrightarrow> startedLimit \<noteq> None))"
proof -
  have f: "f = fst (initPhaseFunctionPointers pa journaling benchPhase globalBenchPhase)"
    "startedLimit = snd (initPhaseFunctionPointers pa journaling benchPhase globalBenchPhase)" using assms by simp_all
  note fields = initPhaseFunctionPointers_def init_write_funcs_def init_read_funcs_def Let_def split_beta if_distrib [of fst] if_distrib [of snd]
  have "\<exists>e. funcRWBlockSized f = Some e \<and> (e = RwBlockSized \<longleftrightarrow> funcAioRwPrepper f = None)"
    unfolding f by (simp add: fields if_distrib [of funcRWBlockSized] if_distrib [of funcAioRwPrepper] cong: if_cong)
  moreover have "\<exists>w r. funcPositionalWrite f = Some w \<and> is_positional_write w \<and> funcPositionalRead f = Some r \<and> \<not> is_positional_write r"
    unfolding f by (simp add: fields if_distrib [of funcPositionalWrite] if_distrib [of funcPositionalRead] cong: if_cong)
  moreover have "\<exists>m c. funcPreWriteBlockModifier f = Some m \<and> is_block_modifier m \<and> funcPostReadBlockChecker f = Some c \<and> is_block_checker c"
    unfolding f by (simp add: fields if_distrib [of funcPreWriteBlockModifier] if_distrib [of funcPostReadBlockChecker] cong: if_cong)
  moreover have "funcPreWriteCudaMemcpy f \<noteq> None" "funcPostReadCudaMemcpy f \<noteq> None"
    unfolding f by (simp_all add: fields if_distrib [of funcPreWriteCudaMemcpy] if_distrib [of funcPostReadCudaMemcpy] cong: if_cong)
  moreover have "\<exists>h. funcCuFileHandleReg f = Some h \<and> funcCuFileHandleDereg f = Some h"
    unfolding f by (simp add: fields if_distrib [of funcCuFileHandleReg] if_distrib [of funcCuFileHandleDereg] cong: if_cong)
  moreover have "\<exists>l. funcRWRateLimiter f = Some l \<and> (l = PreRWRateLimiter \<longleftrightarrow> startedLimit \<noteq> None)"
    unfolding f by (simp add: fields if_distrib [of funcRWRateLimiter] cong: if_cong)
  ultimately show ?thesis by blast
qed

theorem phase_functions_typed_witness:
  "\<exists>f. initPhaseFunctionPointers blank_args True BenchPhase_CREATEFILES BenchPhase_CREATEFILES = (f, None) \<and>
    funcPreWriteBlockModifier f = Some PreWriteJournalFillBuf \<and> (\<exists>w. funcPositionalWrite f = Some w \<and> is_positional_write w)"
proof -
  obtain f l where f: "initPhaseFunctionPointers blank_args True BenchPhase_CREATEFILES BenchPhase_CREATEFILES = (f, l)" by fastforce
  have "l = None" "funcPreWriteBlockModifier f = Some PreWriteJournalFillBuf"
    using f by (auto simp: initPhaseFunctionPointers_def init_write_funcs_def Let_def blank_args_def split: if_splits)
  then show ?thesis using f phase_functions_typed [OF f] by (intro exI [of _ f]) blast
qed

end
