(* ===== verification/BlockVerify.thy ===== *)
theory BlockVerify
  imports BlockIO
begin

text \<open>
  What the synchronous loop does to files that behave as POSIX says: the contents for verification, a
  written range, and the verification of a range that is read.
\<close>

subsection \<open>Contents for verification\<close>

text \<open>The byte at an offset, whatever the offset and the length of the I/O it is part of.\<close>

definition check_byte :: "u64 \<Rightarrow> u64 \<Rightarrow> u8" where
  "check_byte salt off = le_bytes (off - off mod 8 + salt) ! unat (off mod 8)"

lemma check_byte_in_word:
  assumes "unat (off mod 8) + i < 8"
  shows "check_byte salt (off + of_nat i) = le_bytes (off - off mod 8 + salt) ! (unat (off mod 8) + i)"
proof -
  let ?a = "unat off" and ?r = "unat off mod 8"
  have r: "unat (off mod 8) = ?r" by (simp add: unat_mod)
  have i: "?r + i < 8" "i < W64" using assms r by simp_all
  have "?a < 2 ^ 61 * 8" using unat_less_W64 [of off] by simp
  then have "?a div 8 < 2 ^ 61" by (rule less_mult_imp_div_less)
  then have "?a div 8 * 8 + 8 \<le> W64" by simp
  moreover have "?a = ?a div 8 * 8 + ?r" by simp
  ultimately have "?a + i < W64" using i(1) by linarith
  then have u: "unat (off + of_nat i) = ?a + i" using i(2) by (subst unat_add_no) (simp_all add: unat_of_nat_no)
  have m: "(?a + i) mod 8 = ?r + i" using i(1) by (metis mod_add_left_eq mod_less)
  have mod: "unat ((off + of_nat i) mod 8) = ?r + i" using u m by (simp add: unat_mod)
  have "unat (off + of_nat i - (off + of_nat i) mod 8) = unat (off - off mod 8)"
    using u m by (subst (1 2) unat_sub_no) (simp_all add: word_le_nat_alt unat_mod)
  then have "off + of_nat i - (off + of_nat i) mod 8 = off - off mod 8" by (rule iffD2 [OF unat_eq_iff_u64])
  then show ?thesis unfolding check_byte_def mod r by (simp only:)
qed

lemma map_upt_shift: "m \<le> n \<Longrightarrow> map (\<lambda>i. f (m + i)) [0..<n - m] = map f [m..<n]"
  by (intro nth_equalityI) simp_all

lemma integrity_fill_bytes: "integrity_fill_loop salt off n = map (\<lambda>i. check_byte salt (off + of_nat i)) [0..<n]"
proof (induction salt off n rule: integrity_fill_loop.induct)
  case (1 salt off n)
  show ?case
  proof (cases "n = 0")
    case False
    let ?r = "unat (off mod 8)"
    let ?m = "min n (8 - ?r)"
    have r: "?r < 8" by (simp add: unat_mod)
    have d: "off - (off - off mod 8) = off mod 8" by simp
    have "take ?m (drop ?r (le_bytes (off - off mod 8 + salt))) = map (\<lambda>i. check_byte salt (off + of_nat i)) [0..<?m]"
    proof (rule nth_equalityI)
      fix i assume "i < length (take ?m (drop ?r (le_bytes (off - off mod 8 + salt))))"
      then have i: "i < ?m" "?r + i < 8" using r by auto
      show "take ?m (drop ?r (le_bytes (off - off mod 8 + salt))) ! i = map (\<lambda>i. check_byte salt (off + of_nat i)) [0..<?m] ! i"
        using i(1) r check_byte_in_word [OF i(2), of salt] by simp
    qed (use r in simp)
    moreover have "integrity_fill_loop salt (off + of_nat ?m) (n - ?m) = map (\<lambda>i. check_byte salt (off + of_nat (?m + i))) [0..<n - ?m]"
      using 1 [OF False refl refl] d by (simp add: add.assoc)
    moreover have "map (\<lambda>i. check_byte salt (off + of_nat (?m + i))) [0..<n - ?m] = map (\<lambda>i. check_byte salt (off + of_nat i)) [?m..<n]"
      by (rule map_upt_shift) simp
    moreover have "[0..<n] = [0..<?m] @ [?m..<n]" using upt_add_eq_append [of 0 ?m "n - ?m"] by simp
    ultimately show ?thesis using False d by (subst integrity_fill_loop.simps) (simp only: Let_def if_False map_append)
  qed (simp add: integrity_fill_loop.simps)
qed

lemma preWriteIntegrityCheckFillBuf_bytes:
  "preWriteIntegrityCheckFillBuf pa n off = map (\<lambda>i. check_byte (pa_integrityCheckSalt pa) (off + of_nat i)) [0..<n]"
  by (simp add: preWriteIntegrityCheckFillBuf_def integrity_fill_bytes)

lemma postReadIntegrityCheckVerifyBuf_iff:
  "postReadIntegrityCheckVerifyBuf pa buf off =
    (if \<forall>i < length buf. buf ! i = check_byte (pa_integrityCheckSalt pa) (off + of_nat i) then Inr ()
     else Inl (WorkerException ''Data verification failed. ''))"
proof -
  have "buf = map f [0..<length buf] \<longleftrightarrow> (\<forall>i < length buf. buf ! i = f i)" for f
    by (metis (no_types, lifting) add_0 length_map length_upt minus_nat.diff_0 nth_equalityI nth_map_upt)
  then show ?thesis
    by (simp add: postReadIntegrityCheckVerifyBuf_def preWriteIntegrityCheckFillBuf_bytes Let_def)
qed

subsection \<open>Rounds of a generator\<close>

lemma gen_drain_cases:
  assumes "gen_drain g rs = Some (Inr (ios, g', rs'))"
  obtains (empty) "gen_getNumBytesLeftToSubmit g = 0" "ios = []" "g' = g" "rs' = rs"
  | (round) off n rest g1 rs1 rs2 where "gen_getNumBytesLeftToSubmit g \<noteq> 0" "ios = (off, n) # rest"
      "gen_getNextOffset g rs = Some (Inr (off, g1, rs1))" "gen_getNextBlockSizeToSubmit g1 rs1 = Inr (n, rs2)"
      "gen_drain (gen_addBytesSubmitted n g1) rs2 = Some (Inr (rest, g', rs'))"
proof (cases "gen_getNumBytesLeftToSubmit g = 0")
  case True
  have "Some (Inr ([], g, rs)) = Some (Inr (ios, g', rs'))"
    using assms by (subst (asm) drain.simps) (simp add: True)
  then have "ios = []" "g' = g" "rs' = rs" by auto
  with True show ?thesis by (rule empty)
next
  case False
  have e: "Option.bind (gen_getNextOffset g rs) (\<lambda>x. case x of Inl e \<Rightarrow> Some (Inl e) | Inr (off, g1, rs1) \<Rightarrow>
      (case gen_getNextBlockSizeToSubmit g1 rs1 of Inl e \<Rightarrow> Some (Inl e) | Inr (n, rs2) \<Rightarrow>
        Option.bind (gen_drain (gen_addBytesSubmitted n g1) rs2) (\<lambda>y. Some (bindE y (\<lambda>(ios, g', rs'). Inr ((off, n) # ios, g', rs')))))) =
    Some (Inr (ios, g', rs'))"
    using assms by (subst (asm) drain.simps) (simp add: False)
  obtain off g1 rs1 where 1: "gen_getNextOffset g rs = Some (Inr (off, g1, rs1))"
    using e by (cases "gen_getNextOffset g rs"; cases "the (gen_getNextOffset g rs)") auto
  obtain n rs2 where 2: "gen_getNextBlockSizeToSubmit g1 rs1 = Inr (n, rs2)"
    using e 1 by (cases "gen_getNextBlockSizeToSubmit g1 rs1") auto
  obtain rest where 3: "gen_drain (gen_addBytesSubmitted n g1) rs2 = Some (Inr (rest, g', rs'))" "ios = (off, n) # rest"
    using e 1 2 by (cases "gen_drain (gen_addBytesSubmitted n g1) rs2") auto
  from False 3(2) 1 2 3(1) show ?thesis by (rule round)
qed

lemma gen_total_add [simp]: "gen_getNumBytesTotal (gen_addBytesSubmitted n g) = gen_getNumBytesTotal g"
  by (cases g) (simp_all add: seq_addBytesSubmitted_def rev_addBytesSubmitted_def rnd_addBytesSubmitted_def
      ral_addBytesSubmitted_def str_addBytesSubmitted_def fcv_addBytesSubmitted_def)

lemma gen_total_next: "gen_getNextOffset g rs = Some (Inr (off, g1, rs1)) \<Longrightarrow> gen_getNumBytesTotal g1 = gen_getNumBytesTotal g"
  by (cases g) (auto simp: fcv_getNextOffset_def Let_def split: prod.splits option.splits)

text \<open>
  The loop follows its generator when every round is a full transfer. \<open>Q ds s\<close> holds of the state \<open>s\<close> behind
  the I/Os \<open>ds\<close>.
\<close>

lemma rw_loop_drain:
  assumes "gen_drain (lw_rwOffsetGen s) (lw_rand s) = Some (Inr (ios, g', rs'))" "Q ds s" "all = ds @ ios"
    and round: "\<And>ds s off n rest g1 rs1 rs2. all = ds @ (off, n) # rest \<Longrightarrow> Q ds s \<Longrightarrow>
      gen_getNextOffset (lw_rwOffsetGen s) (lw_rand s) = Some (Inr (off, g1, rs1)) \<Longrightarrow>
      gen_getNextBlockSizeToSubmit g1 rs1 = Inr (n, rs2) \<Longrightarrow>
      \<exists>s'. rw_round env k pa je ph s = Some (Inr RwContinue, s') \<and> lw_rwOffsetGen s' = gen_addBytesSubmitted n g1 \<and>
        lw_rand s' = rs2 \<and> Q (ds @ [(off, n)]) s'"
  shows "\<exists>s'. rw_loop env k pa je ph s = Some (Inr (sint (gen_getNumBytesTotal (lw_rwOffsetGen s))), s') \<and> Q all s'"
  using assms(1-3)
proof (induction ios arbitrary: ds s)
  case Nil
  then show ?case by (cases rule: gen_drain_cases) (auto simp: rw_loop.simps [of env k])
next
  case (Cons io rest)
  from Cons.prems(1) obtain off n g1 rs1 rs2 where r: "gen_getNumBytesLeftToSubmit (lw_rwOffsetGen s) \<noteq> 0" "io = (off, n)"
    "gen_getNextOffset (lw_rwOffsetGen s) (lw_rand s) = Some (Inr (off, g1, rs1))"
    "gen_getNextBlockSizeToSubmit g1 rs1 = Inr (n, rs2)"
    "gen_drain (gen_addBytesSubmitted n g1) rs2 = Some (Inr (rest, g', rs'))"
    by (cases rule: gen_drain_cases) auto
  obtain s' where s': "rw_round env k pa je ph s = Some (Inr RwContinue, s')" "lw_rwOffsetGen s' = gen_addBytesSubmitted n g1"
    "lw_rand s' = rs2" "Q (ds @ [(off, n)]) s'"
    using round [OF _ Cons.prems(2) r(3,4), of rest] Cons.prems(3) r(2) by auto
  obtain t where "rw_loop env k pa je ph s' = Some (Inr (sint (gen_getNumBytesTotal (lw_rwOffsetGen s'))), t)" "Q all t"
    using Cons.IH [of s' "ds @ [(off, n)]"] r(2,5) s'(2-4) Cons.prems(3) by auto
  then show ?case using r(1) s' gen_total_next [OF r(3)] by (subst rw_loop.simps) simp
qed

subsection \<open>Files\<close>

text \<open>Writing to a file, with zeros where the file ends before the offset.\<close>

definition write_at :: "nat \<Rightarrow> u8 list \<Rightarrow> u8 list \<Rightarrow> u8 list" where
  "write_at off bs file = take off (file @ replicate (off - length file) 0) @ bs @ drop (off + length bs) file"

lemma length_write_at [simp]: "length (write_at off bs file) = max (length file) (off + length bs)"
  by (simp add: write_at_def)

lemma nth_write_at:
  "i < length (write_at off bs file) \<Longrightarrow> write_at off bs file ! i =
    (if i < off then if i < length file then file ! i else 0 else if i < off + length bs then bs ! (i - off) else file ! i)"
  by (auto simp: write_at_def nth_append min_def max_def)

text \<open>
  What POSIX documents of reads and writes that are not cut short and of a worker that is not
  interrupted; \<open>content x fd\<close> are the bytes of a file in the state \<open>x\<close>.
\<close>

definition posix_files :: "'x kernel \<Rightarrow> ('x \<Rightarrow> int \<Rightarrow> u8 list) \<Rightarrow> bool" where
  "posix_files k content \<longleftrightarrow>
     (\<forall>fd bs off x. bs \<noteq> [] \<longrightarrow> fst (k_pwrite k fd bs off x) = int (length bs) \<and>
        content (snd (k_pwrite k fd bs off x)) = (content x)(fd := write_at (unat off) bs (content x fd))) \<and>
     (\<forall>fd n off x.
        snd (fst (k_pread k fd n off x)) = take (unat n) (drop (unat off) (content x fd)) \<and>
        fst (fst (k_pread k fd n off x)) = int (length (snd (fst (k_pread k fd n off x)))) \<and>
        content (snd (k_pread k fd n off x)) = content x) \<and>
     (\<forall>x. content (snd (k_now k x)) = content x) \<and>
     (\<forall>x. \<not> fst (k_interrupted k x) \<and> content (snd (k_interrupted k x)) = content x)"

text \<open>The bytes of a file that have the contents for verification.\<close>

definition verified_byte :: "u64 \<Rightarrow> u8 list \<Rightarrow> nat \<Rightarrow> bool" where
  "verified_byte salt file i \<longleftrightarrow> i < length file \<and> file ! i = check_byte salt (of_nat i)"

lemma verified_write_new:
  assumes "unat off \<le> i" "i < unat off + n" "unat off + n < W64"
  shows "verified_byte salt (write_at (unat off) (map (\<lambda>i. check_byte salt (off + of_nat i)) [0..<n]) file) i"
proof -
  have "off + of_nat (i - unat off) = (of_nat i :: u64)"
    using assms(1) by (simp add: of_nat_diff)
  then show ?thesis using assms by (simp add: verified_byte_def nth_write_at)
qed

lemma verified_write_old:
  assumes "verified_byte salt file i" "unat off + n < W64"
  shows "verified_byte salt (write_at (unat off) (map (\<lambda>i. check_byte salt (off + of_nat i)) [0..<n]) file) i"
proof (cases "unat off \<le> i \<and> i < unat off + n")
  case True
  then show ?thesis using verified_write_new assms(2) by blast
next
  case False
  then show ?thesis using assms(1) by (auto simp: verified_byte_def nth_write_at)
qed

subsection \<open>One round\<close>

text \<open>
  Plain synchronous I/O with verification: no mapping, no direct verification, no file locks, no advice, no rate
  limit, no mix of reads and writes.
\<close>

definition verify_args :: "prog_args \<Rightarrow> bool" where
  "verify_args pa \<longleftrightarrow>
     pa_integrityCheckSalt pa \<noteq> 0 \<and> pa_benchMode pa = BenchMode_POSIX \<and> \<not> pa_useMmap pa \<and> \<not> pa_useCuFile pa \<and>
     \<not> pa_doDirectVerify pa \<and> \<not> pa_doReadInline pa \<and> pa_flockType pa = ARG_FLOCK_NONE \<and>
     pa_limitWriteBps pa = 0 \<and> pa_limitReadBps pa = 0 \<and> pa_numRWMixReadThreads pa = 0 \<and> pa_rwMixReadPercent pa = 0 \<and>
     pa_ioDepth pa = 1 \<and> pa_fadviseFlags pa = 0"

lemma verify_funcs:
  assumes "verify_args pa"
  defines "fw \<equiv> fst (initPhaseFunctionPointers pa False BenchPhase_CREATEFILES BenchPhase_CREATEFILES)"
    and "fr \<equiv> fst (initPhaseFunctionPointers pa False BenchPhase_READFILES BenchPhase_READFILES)"
  shows "funcRWBlockSized fw = Some RwBlockSized" "funcPositionalWrite fw = Some PwriteWrapper"
    "funcPreWriteBlockModifier fw = Some PreWriteIntegrityCheckFillBuf" "funcPostReadBlockChecker fw = Some NoOpIntegrityCheck"
    "funcRWRateLimiter fw = Some NoOpRateLimiter" "\<exists>m. funcPreWriteCudaMemcpy fw = Some m" "\<exists>m. funcPostReadCudaMemcpy fw = Some m"
    "funcRWBlockSized fr = Some RwBlockSized" "funcPositionalRead fr = Some PreadWrapper"
    "funcPreWriteBlockModifier fr = Some NoOpIntegrityCheck" "funcPostReadBlockChecker fr = Some PostReadIntegrityCheckVerifyBuf"
    "funcRWRateLimiter fr = Some NoOpRateLimiter" "\<exists>m. funcPreWriteCudaMemcpy fr = Some m" "\<exists>m. funcPostReadCudaMemcpy fr = Some m"
  using assms(1) unfolding fw_def fr_def
  by (simp_all add: verify_args_def initPhaseFunctionPointers_def init_write_funcs_def init_read_funcs_def Let_def)

definition worker_setup :: "prog_args \<Rightarrow> bench_phase \<Rightarrow> 'x lw_state \<Rightarrow> bool" where
  "worker_setup pa phase s \<longleftrightarrow>
     lw_benchPhase s = phase \<and> lw_funcs s = fst (initPhaseFunctionPointers pa False phase phase) \<and>
     length (lw_ioBuf s) = unat (pa_blockSize pa) \<and> length (lw_fdVec s) = 1"

text \<open>What a round of I/O leaves as it was.\<close>

definition same_worker :: "'x lw_state \<Rightarrow> 'x lw_state \<Rightarrow> bool" where
  "same_worker s t \<longleftrightarrow>
     lw_workerRank t = lw_workerRank s \<and> lw_benchPhase t = lw_benchPhase s \<and> lw_funcs t = lw_funcs s \<and>
     length (lw_ioBuf t) = length (lw_ioBuf s) \<and> lw_fdVec t = lw_fdVec s \<and> lw_threadFDVec t = lw_threadFDVec s"

lemma rw_account_continue:
  assumes "posix_files k content"
  shows "\<exists>t. rw_account k mix res t0 s = (Inr RwContinue, t) \<and> content (lw_x t) = content (lw_x s) \<and>
    lw_rwOffsetGen t = gen_addBytesSubmitted (of_int res) (lw_rwOffsetGen s) \<and> lw_rand t = lw_rand s \<and> same_worker s t"
  using assms
  by (simp add: rw_account_def on_kernel_def checkInterruptionRequest_def same_worker_def posix_files_def Let_def split_beta)

lemma same_worker_refl [simp]: "same_worker s s"
  by (simp add: same_worker_def)

lemma same_worker_trans: "same_worker s t \<Longrightarrow> same_worker t u \<Longrightarrow> same_worker s u"
  by (simp add: same_worker_def)

lemma worker_setup_same: "worker_setup pa ph s \<Longrightarrow> same_worker s t \<Longrightarrow> worker_setup pa ph t"
  by (simp add: same_worker_def worker_setup_def)

lemma write_transfer:
  assumes posix: "posix_files k content" and args: "verify_args pa" and wset: "worker_setup pa BenchPhase_CREATEFILES s"
    and n: "0 < n" "n \<le> pa_blockSize pa"
  shows "\<exists>t. rw_transfer env k pa False False mix n 0 off s = (Inr RwContinue, t) \<and> same_worker s t \<and>
    lw_rwOffsetGen t = gen_addBytesSubmitted n (lw_rwOffsetGen s) \<and> lw_rand t = lw_rand s \<and>
    content (lw_x t) = (content (lw_x s))(hd (lw_fdVec s) :=
      write_at (unat off) (preWriteIntegrityCheckFillBuf pa (unat n) off) (content (lw_x s) (hd (lw_fdVec s))))"
proof -
  let ?fd = "hd (lw_fdVec s)" and ?bs = "preWriteIntegrityCheckFillBuf pa (unat n) off"
  note f = verify_funcs [OF args]
  obtain m m' where m: "funcPreWriteCudaMemcpy (lw_funcs s) = Some m" "funcPostReadCudaMemcpy (lw_funcs s) = Some m'"
    using f(6,7) wset by (auto simp: worker_setup_def)
  have fs: "funcPositionalWrite (lw_funcs s) = Some PwriteWrapper"
    "funcPreWriteBlockModifier (lw_funcs s) = Some PreWriteIntegrityCheckFillBuf"
    "funcPostReadBlockChecker (lw_funcs s) = Some NoOpIntegrityCheck" "funcRWRateLimiter (lw_funcs s) = Some NoOpRateLimiter"
    using f wset by (simp_all add: worker_setup_def)
  have fd: "handle_at (lw_fdVec s) 0 = Inr ?fd" using wset by (cases "lw_fdVec s") (simp_all add: handle_at_def worker_setup_def)
  have flock: "rw_flock k pa 0 o' l w u t = (Inr (), t)" if "lw_fdVec t = lw_fdVec s" for o' l w u t
    using args that fd by (simp add: rw_flock_def on_kernel_def FileTk_flock_def verify_args_def ARG_FLOCK_NONE_def ARG_FLOCK_RANGE_def ARG_FLOCK_FULL_def)
  have len: "length ?bs = unat n" "unat n \<le> length (lw_ioBuf s)" "?bs \<noteq> []"
    using n wset by (auto simp: preWriteIntegrityCheckFillBuf_bytes worker_setup_def word_le_nat_alt word_less_nat_alt)
  have n0: "0 < uint n" using n(1) by (simp add: word_less_def)
  obtain t0 x0 where now: "k_now k (lw_x s) = (t0, x0)" by (cases "k_now k (lw_x s)")
  define s1 where "s1 = s\<lparr>lw_x := x0, lw_ioBuf := ?bs @ drop (unat n) (lw_ioBuf s)\<rparr>"
  obtain res x1 where pw: "k_pwrite k ?fd ?bs off x0 = (res, x1)" by (cases "k_pwrite k ?fd ?bs off x0")
  have c: "content x0 = content (lw_x s)" "res = uint n" "content x1 = (content x0)(?fd := write_at (unat off) ?bs (content x0 ?fd))"
  proof -
    show "content x0 = content (lw_x s)" using posix now unfolding posix_files_def by (metis snd_conv)
    have "fst (k_pwrite k ?fd ?bs off x0) = int (length ?bs) \<and> content (snd (k_pwrite k ?fd ?bs off x0)) = (content x0)(?fd := write_at (unat off) ?bs (content x0 ?fd))"
      using posix len(3) unfolding posix_files_def by blast
    then show "res = uint n" "content x1 = (content x0)(?fd := write_at (unat off) ?bs (content x0 ?fd))" using pw len(1) by simp_all
  qed
  have pos: "call_positional k PwriteWrapper 0 n off s1 = (Inr (uint n), s1\<lparr>lw_x := x1\<rparr>)"
    using fd pw c(2) len(1) by (simp add: s1_def do_pwrite_def on_kernel_def)
  have "rw_transfer env k pa False False mix n 0 off s = rw_account k mix (uint n) t0 (s1\<lparr>lw_x := x1\<rparr>)"
    using fs m now len n0 pos flock [of s1] flock [of "s1\<lparr>lw_x := x1\<rparr>"]
    by (simp add: rw_transfer_def call_ptr_def on_kernel_def buf_store_def s1_def del: call_positional.simps)
  then show ?thesis
    using rw_account_continue [OF posix, of mix "uint n" t0 "s1\<lparr>lw_x := x1\<rparr>"] c len
    by (auto simp: s1_def same_worker_def)
qed

lemma read_transfer:
  assumes posix: "posix_files k content" and args: "verify_args pa" and wset: "worker_setup pa BenchPhase_READFILES s"
    and n: "0 < n" "n \<le> pa_blockSize pa" and flen: "unat off + unat n \<le> length (content (lw_x s) (hd (lw_fdVec s)))" "unat off + unat n < W64"
  defines "ok \<equiv> \<forall>i. unat off \<le> i \<and> i < unat off + unat n \<longrightarrow>
      verified_byte (pa_integrityCheckSalt pa) (content (lw_x s) (hd (lw_fdVec s))) i"
  shows "\<exists>t. rw_transfer env k pa False True mix n 0 off s =
      (if ok then Inr RwContinue else Inl (WorkerException ''Data verification failed. ''), t) \<and> same_worker s t \<and>
    (ok \<longrightarrow> lw_rwOffsetGen t = gen_addBytesSubmitted n (lw_rwOffsetGen s) \<and> lw_rand t = lw_rand s) \<and>
    content (lw_x t) = content (lw_x s)"
proof -
  let ?fd = "hd (lw_fdVec s)" and ?salt = "pa_integrityCheckSalt pa"
  let ?bs = "take (unat n) (drop (unat off) (content (lw_x s) ?fd))"
  note f = verify_funcs [OF args]
  obtain m m' where m: "funcPreWriteCudaMemcpy (lw_funcs s) = Some m" "funcPostReadCudaMemcpy (lw_funcs s) = Some m'"
    using f(13,14) wset by (auto simp: worker_setup_def)
  have fs: "funcPositionalRead (lw_funcs s) = Some PreadWrapper" "funcPreWriteBlockModifier (lw_funcs s) = Some NoOpIntegrityCheck"
    "funcPostReadBlockChecker (lw_funcs s) = Some PostReadIntegrityCheckVerifyBuf" "funcRWRateLimiter (lw_funcs s) = Some NoOpRateLimiter"
    using f wset by (simp_all add: worker_setup_def)
  have fd: "handle_at (lw_fdVec s) 0 = Inr ?fd" using wset by (cases "lw_fdVec s") (simp_all add: handle_at_def worker_setup_def)
  have flock: "rw_flock k pa 0 o' l w u t = (Inr (), t)" if "lw_fdVec t = lw_fdVec s" for o' l w u t
    using args that fd by (simp add: rw_flock_def on_kernel_def FileTk_flock_def verify_args_def ARG_FLOCK_NONE_def ARG_FLOCK_RANGE_def ARG_FLOCK_FULL_def)
  have len: "length ?bs = unat n" "unat n \<le> length (lw_ioBuf s)"
    using n flen wset by (auto simp: worker_setup_def word_le_nat_alt)
  have n0: "0 < uint n" using n(1) by (simp add: word_less_def)
  obtain t0 x0 where now: "k_now k (lw_x s) = (t0, x0)" by (cases "k_now k (lw_x s)")
  obtain res bs x1 where pr: "k_pread k ?fd n off x0 = ((res, bs), x1)" by (metis prod.exhaust)
  have c: "content x0 = content (lw_x s)" "bs = ?bs" "res = uint n" "content x1 = content (lw_x s)"
  proof -
    show c0: "content x0 = content (lw_x s)" using posix now unfolding posix_files_def by (metis snd_conv)
    have "snd (fst (k_pread k ?fd n off x0)) = take (unat n) (drop (unat off) (content x0 ?fd)) \<and>
        fst (fst (k_pread k ?fd n off x0)) = int (length (snd (fst (k_pread k ?fd n off x0)))) \<and> content (snd (k_pread k ?fd n off x0)) = content x0"
      using posix unfolding posix_files_def by blast
    then show "bs = ?bs" "res = uint n" "content x1 = content (lw_x s)" using pr len(1) c0 by simp_all
  qed
  define s1 where "s1 = s\<lparr>lw_ioBuf := ?bs @ drop (unat n) (lw_ioBuf s), lw_x := x1\<rparr>"
  have pos: "call_positional k PreadWrapper 0 n off (s\<lparr>lw_x := x0\<rparr>) = (Inr (uint n), s1)"
    using fd pr c(2,3) len n0 by (simp add: s1_def do_pread_def on_kernel_def buf_store_def del: length_take)
  have tr: "rw_transfer env k pa False True mix n 0 off s =
      thenE (postReadIntegrityCheckVerifyBuf pa ?bs off, s1) (\<lambda>_ s. rw_account k mix (uint n) t0 s)"
    using fs m now n0 pos flock [of "s\<lparr>lw_x := x0\<rparr>"] flock [of s1] len
    by (simp add: rw_transfer_def call_ptr_def on_kernel_def s1_def del: call_positional.simps)
  have "(\<forall>i < length ?bs. ?bs ! i = check_byte ?salt (off + of_nat i)) \<longleftrightarrow> ok"
  proof
    assume l: "\<forall>i < length ?bs. ?bs ! i = check_byte ?salt (off + of_nat i)"
    have "verified_byte ?salt (content (lw_x s) ?fd) i" if "unat off \<le> i" "i < unat off + unat n" for i
    proof -
      have "i - unat off < length ?bs" unfolding len(1) using that by linarith
      with l have "?bs ! (i - unat off) = check_byte ?salt (off + of_nat (i - unat off))" by blast
      then show ?thesis using that flen(1) by (simp add: verified_byte_def of_nat_diff)
    qed
    then show ok by (simp add: ok_def)
  next
    assume ok
    then have "?bs ! i = check_byte ?salt (off + of_nat i)" if "i < unat n" for i
      using that flen(1) by (auto simp: ok_def verified_byte_def dest: spec [of _ "unat off + i"])
    then show "\<forall>i < length ?bs. ?bs ! i = check_byte ?salt (off + of_nat i)" using len(1) by simp
  qed
  then have v: "postReadIntegrityCheckVerifyBuf pa ?bs off = (if ok then Inr () else Inl (WorkerException ''Data verification failed. ''))"
    by (simp only: postReadIntegrityCheckVerifyBuf_iff)
  show ?thesis
    using rw_account_continue [OF posix, of mix "uint n" t0 s1] c(4) len
    unfolding tr v by (auto simp: s1_def same_worker_def)
qed

subsection \<open>A range\<close>

lemma rw_round_transfer:
  assumes "gen_getNextOffset (lw_rwOffsetGen s) (lw_rand s) = Some (Inr (off, g1, rs1))" "gen_getNextBlockSizeToSubmit g1 rs1 = Inr (n, rs2)"
    and "verify_args pa" "worker_setup pa ph s" "ph = BenchPhase_CREATEFILES \<or> ph = BenchPhase_READFILES"
  shows "rw_round env k pa False ph s = Some (rw_transfer env k pa False (ph = BenchPhase_READFILES) False n 0
    (off + pa_fileOffset pa) (s\<lparr>lw_rwOffsetGen := g1, lw_rand := rs2\<rparr>))"
  using assms by (auto simp: rw_round_def calcFileIdxAndOffsetStriped_def rw_decide_def worker_setup_def verify_args_def)

text \<open>Generators of the same class with the same block sizes.\<close>

fun gen_like :: "offset_gen \<Rightarrow> offset_gen \<Rightarrow> bool" where
  "gen_like (OffsetGenSequential g) (OffsetGenSequential h) \<longleftrightarrow> sq_blockSizeMix h = sq_blockSizeMix g"
| "gen_like (OffsetGenReverseSeq g) (OffsetGenReverseSeq h) \<longleftrightarrow> rv_blockSize h = rv_blockSize g"
| "gen_like (OffsetGenRandom g) (OffsetGenRandom h) \<longleftrightarrow> True"
| "gen_like (OffsetGenRandomAligned g) (OffsetGenRandomAligned h) \<longleftrightarrow> True"
| "gen_like (OffsetGenStrided g) (OffsetGenStrided h) \<longleftrightarrow> True"
| "gen_like (OffsetGenRandomAlignedFullCoverageV2 g) (OffsetGenRandomAlignedFullCoverageV2 h) \<longleftrightarrow> True"
| "gen_like g h \<longleftrightarrow> False"

lemma gen_like_refl [simp]: "gen_like g g"
  by (cases g) simp_all

lemma gen_like_trans: "gen_like g h \<Longrightarrow> gen_like h i \<Longrightarrow> gen_like g i"
  by (cases g; cases h; cases i) simp_all

lemma gen_like_round:
  assumes "gen_getNextOffset g rs = Some (Inr (off, g1, rs1))"
  shows "gen_like g (gen_addBytesSubmitted n g1)"
  using assms by (cases g) (auto simp: seq_addBytesSubmitted_def rev_addBytesSubmitted_def fcv_getNextOffset_def
    split: prod.splits option.splits if_splits)

text \<open>The I/Os of a range are no larger than a block and stay below the end of the offsets.\<close>

definition ios_ok :: "prog_args \<Rightarrow> (u64 \<times> u64) list \<Rightarrow> bool" where
  "ios_ok pa ios \<longleftrightarrow> (\<forall>(off, n) \<in> set ios. 0 < n \<and> n \<le> pa_blockSize pa \<and> unat off + unat (pa_fileOffset pa) + unat n < W64)"

definition io_bytes :: "prog_args \<Rightarrow> (u64 \<times> u64) list \<Rightarrow> nat set" where
  "io_bytes pa ios = (\<Union>(off, n) \<in> set ios. {unat off + unat (pa_fileOffset pa) ..< unat off + unat (pa_fileOffset pa) + unat n})"

lemma io_bytes_simps [simp]:
  "io_bytes pa [] = {}" "io_bytes pa ((off, n) # ios) =
    {unat off + unat (pa_fileOffset pa) ..< unat off + unat (pa_fileOffset pa) + unat n} \<union> io_bytes pa ios"
  "io_bytes pa (ios @ ios') = io_bytes pa ios \<union> io_bytes pa ios'"
  by (auto simp: io_bytes_def)

lemma release_slots_same [simp]:
  "same_worker s (lw_journalReleaseSlots s)" "lw_x (lw_journalReleaseSlots s) = lw_x s"
  "lw_rwOffsetGen (lw_journalReleaseSlots s) = lw_rwOffsetGen s" "lw_rand (lw_journalReleaseSlots s) = lw_rand s"
  by (simp_all add: lw_journalReleaseSlots_def same_worker_def split: prod.splits)

lemma write_round:
  assumes posix: "posix_files k content" and args: "verify_args pa" and wu: "worker_setup pa BenchPhase_CREATEFILES u"
    and nx: "gen_getNextOffset (lw_rwOffsetGen u) (lw_rand u) = Some (Inr (off, g1, rs1))"
    and sz: "gen_getNextBlockSizeToSubmit g1 rs1 = Inr (n, rs2)" and ios: "ios_ok pa [(off, n)]"
  shows "\<exists>t. rw_round env k pa False BenchPhase_CREATEFILES u = Some (Inr RwContinue, t) \<and> same_worker u t \<and>
    lw_rwOffsetGen t = gen_addBytesSubmitted n g1 \<and> lw_rand t = rs2 \<and>
    (\<forall>fd i. verified_byte (pa_integrityCheckSalt pa) (content (lw_x u) fd) i \<or> fd = hd (lw_fdVec u) \<and> i \<in> io_bytes pa [(off, n)] \<longrightarrow>
      verified_byte (pa_integrityCheckSalt pa) (content (lw_x t) fd) i)"
proof -
  let ?u = "u\<lparr>lw_rwOffsetGen := g1, lw_rand := rs2\<rparr>" and ?off = "off + pa_fileOffset pa" and ?salt = "pa_integrityCheckSalt pa"
  have n: "0 < n" "n \<le> pa_blockSize pa" "unat off + unat (pa_fileOffset pa) + unat n < W64" using ios by (auto simp: ios_ok_def)
  have o: "unat ?off = unat off + unat (pa_fileOffset pa)" using n(3) by (intro unat_add_no) linarith
  have wu': "worker_setup pa BenchPhase_CREATEFILES ?u" using wu by (simp add: worker_setup_def)
  obtain t where t: "rw_transfer env k pa False False False n 0 ?off ?u = (Inr RwContinue, t)" "same_worker ?u t"
    "lw_rwOffsetGen t = gen_addBytesSubmitted n g1" "lw_rand t = rs2"
    "content (lw_x t) = (content (lw_x u))(hd (lw_fdVec u) := write_at (unat ?off)
      (preWriteIntegrityCheckFillBuf pa (unat n) ?off) (content (lw_x u) (hd (lw_fdVec u))))"
    using write_transfer [OF posix args wu' n(1,2), of env False ?off] by auto
  have "verified_byte ?salt (content (lw_x t) fd) i"
    if "verified_byte ?salt (content (lw_x u) fd) i \<or> fd = hd (lw_fdVec u) \<and> i \<in> io_bytes pa [(off, n)]" for fd i
    using that verified_write_new [of ?off i "unat n" ?salt] verified_write_old [of ?salt _ i ?off "unat n"] n(3) o
    unfolding t(5) preWriteIntegrityCheckFillBuf_bytes by auto
  moreover have "same_worker u t" using t(2) by (simp add: same_worker_def)
  ultimately show ?thesis using rw_round_transfer [OF nx sz args wu] t(1,3,4) by simp
qed

lemma write_range:
  assumes posix: "posix_files k content" and args: "verify_args pa" and wset: "worker_setup pa BenchPhase_CREATEFILES s"
    and dr: "gen_drain (lw_rwOffsetGen s) (lw_rand s) = Some (Inr (ios, g', rs'))" and ios: "ios_ok pa ios"
  shows "\<exists>t. rwBlockSized env k pa False BenchPhase_CREATEFILES s = Some (Inr (sint (gen_getNumBytesTotal (lw_rwOffsetGen s))), t) \<and>
    same_worker s t \<and> gen_like (lw_rwOffsetGen s) (lw_rwOffsetGen t) \<and>
    (\<forall>fd i. verified_byte (pa_integrityCheckSalt pa) (content (lw_x s) fd) i \<or> fd = hd (lw_fdVec s) \<and> i \<in> io_bytes pa ios \<longrightarrow>
      verified_byte (pa_integrityCheckSalt pa) (content (lw_x t) fd) i)"
proof -
  let ?salt = "pa_integrityCheckSalt pa"
  define Q where "Q ds t \<longleftrightarrow> same_worker s t \<and> gen_like (lw_rwOffsetGen s) (lw_rwOffsetGen t) \<and>
    (\<forall>fd i. verified_byte ?salt (content (lw_x s) fd) i \<or> fd = hd (lw_fdVec s) \<and> i \<in> io_bytes pa ds \<longrightarrow>
      verified_byte ?salt (content (lw_x t) fd) i)" for ds and t :: "'a lw_state"
  have "\<exists>t. rw_loop env k pa False BenchPhase_CREATEFILES s = Some (Inr (sint (gen_getNumBytesTotal (lw_rwOffsetGen s))), t) \<and> Q ios t"
  proof (rule rw_loop_drain [OF dr, where ds = "[]"])
    show "Q [] s" by (simp add: Q_def)
  next
    fix ds and u :: "'a lw_state" and off n rest g1 rs1 rs2
    assume all: "ios = ds @ (off, n) # rest" and q: "Q ds u" and nx: "gen_getNextOffset (lw_rwOffsetGen u) (lw_rand u) = Some (Inr (off, g1, rs1))"
      and sz: "gen_getNextBlockSizeToSubmit g1 rs1 = Inr (n, rs2)"
    have wu: "worker_setup pa BenchPhase_CREATEFILES u" and fd: "hd (lw_fdVec u) = hd (lw_fdVec s)" and io: "ios_ok pa [(off, n)]"
      using worker_setup_same [OF wset] q ios all by (auto simp: Q_def same_worker_def ios_ok_def)
    obtain t where t: "rw_round env k pa False BenchPhase_CREATEFILES u = Some (Inr RwContinue, t)" "same_worker u t"
      "lw_rwOffsetGen t = gen_addBytesSubmitted n g1" "lw_rand t = rs2"
      "\<forall>fd i. verified_byte ?salt (content (lw_x u) fd) i \<or> fd = hd (lw_fdVec u) \<and> i \<in> io_bytes pa [(off, n)] \<longrightarrow>
        verified_byte ?salt (content (lw_x t) fd) i"
      using write_round [OF posix args wu nx sz io] by blast
    have "gen_like (lw_rwOffsetGen s) (lw_rwOffsetGen t)" using q t(3) gen_like_round [OF nx, of n] gen_like_trans by (auto simp: Q_def)
    moreover have "same_worker s t" using q t(2) same_worker_trans by (auto simp: Q_def)
    ultimately have "Q (ds @ [(off, n)]) t" using q t(5) fd by (auto simp: Q_def)
    then show "\<exists>t. rw_round env k pa False BenchPhase_CREATEFILES u = Some (Inr RwContinue, t) \<and>
      lw_rwOffsetGen t = gen_addBytesSubmitted n g1 \<and> lw_rand t = rs2 \<and> Q (ds @ [(off, n)]) t"
      using t(1,3,4) by blast
  qed simp
  then obtain t where "rw_loop env k pa False BenchPhase_CREATEFILES s = Some (Inr (sint (gen_getNumBytesTotal (lw_rwOffsetGen s))), t)" "Q ios t"
    by blast
  then show ?thesis
    by (intro exI [of _ "lw_journalReleaseSlots t"]) (auto simp: rwBlockSized_def Q_def intro: same_worker_trans)
qed

lemma read_round:
  assumes posix: "posix_files k content" and args: "verify_args pa" and wu: "worker_setup pa BenchPhase_READFILES u"
    and nx: "gen_getNextOffset (lw_rwOffsetGen u) (lw_rand u) = Some (Inr (off, g1, rs1))"
    and sz: "gen_getNextBlockSizeToSubmit g1 rs1 = Inr (n, rs2)" and ios: "ios_ok pa [(off, n)]"
    and len: "\<forall>i \<in> io_bytes pa [(off, n)]. i < length (content (lw_x u) (hd (lw_fdVec u)))"
  defines "ok \<equiv> \<forall>i \<in> io_bytes pa [(off, n)]. verified_byte (pa_integrityCheckSalt pa) (content (lw_x u) (hd (lw_fdVec u))) i"
  shows "\<exists>t. rw_round env k pa False BenchPhase_READFILES u =
      Some (if ok then Inr RwContinue else Inl (WorkerException ''Data verification failed. ''), t) \<and> same_worker u t \<and>
    (ok \<longrightarrow> lw_rwOffsetGen t = gen_addBytesSubmitted n g1 \<and> lw_rand t = rs2) \<and> content (lw_x t) = content (lw_x u)"
proof -
  let ?u = "u\<lparr>lw_rwOffsetGen := g1, lw_rand := rs2\<rparr>" and ?off = "off + pa_fileOffset pa" and ?file = "content (lw_x u) (hd (lw_fdVec u))"
  have n: "0 < n" "n \<le> pa_blockSize pa" "unat off + unat (pa_fileOffset pa) + unat n < W64" using ios by (auto simp: ios_ok_def)
  have o: "unat ?off = unat off + unat (pa_fileOffset pa)" using n(3) by (intro unat_add_no) linarith
  have wu': "worker_setup pa BenchPhase_READFILES ?u" using wu by (simp add: worker_setup_def)
  have "unat ?off + unat n - 1 < length ?file" using bspec [OF len, of "unat ?off + unat n - 1"] o n(1) by (auto simp: word_less_nat_alt)
  then have l: "unat ?off + unat n \<le> length ?file" "unat ?off + unat n < W64" using n(3) o by linarith+
  have ok: "ok \<longleftrightarrow> (\<forall>i. unat ?off \<le> i \<and> i < unat ?off + unat n \<longrightarrow> verified_byte (pa_integrityCheckSalt pa) ?file i)"
    by (auto simp: ok_def o)
  have "\<exists>t. rw_transfer env k pa False True False n 0 ?off ?u =
      (if ok then Inr RwContinue else Inl (WorkerException ''Data verification failed. ''), t) \<and> same_worker ?u t \<and>
    (ok \<longrightarrow> lw_rwOffsetGen t = gen_addBytesSubmitted n g1 \<and> lw_rand t = rs2) \<and> content (lw_x t) = content (lw_x u)"
    using read_transfer [OF posix args wu' n(1,2), of ?off env False] l unfolding ok by simp
  then show ?thesis using rw_round_transfer [OF nx sz args wu, of env k] by (auto simp: same_worker_def)
qed

lemma read_loop:
  assumes posix: "posix_files k content" and args: "verify_args pa" and "worker_setup pa BenchPhase_READFILES s"
    and "gen_drain (lw_rwOffsetGen s) (lw_rand s) = Some (Inr (ios, g', rs'))" "ios_ok pa ios"
    and "\<forall>i \<in> io_bytes pa ios. i < length (content (lw_x s) (hd (lw_fdVec s)))"
  shows "\<exists>t. rw_loop env k pa False BenchPhase_READFILES s =
      Some (if \<forall>i \<in> io_bytes pa ios. verified_byte (pa_integrityCheckSalt pa) (content (lw_x s) (hd (lw_fdVec s))) i
            then Inr (sint (gen_getNumBytesTotal (lw_rwOffsetGen s))) else Inl (WorkerException ''Data verification failed. ''), t) \<and>
    same_worker s t \<and> content (lw_x t) = content (lw_x s) \<and>
    ((\<forall>i \<in> io_bytes pa ios. verified_byte (pa_integrityCheckSalt pa) (content (lw_x s) (hd (lw_fdVec s))) i) \<longrightarrow>
      gen_like (lw_rwOffsetGen s) (lw_rwOffsetGen t))"
  using assms(3-6)
proof (induction ios arbitrary: s)
  case Nil
  from Nil.prems(2) show ?case by (cases rule: gen_drain_cases) (auto simp: rw_loop.simps [of env k])
next
  case (Cons io rest)
  from Cons.prems(2) obtain off n g1 rs1 rs2 where r: "gen_getNumBytesLeftToSubmit (lw_rwOffsetGen s) \<noteq> 0" "io = (off, n)"
    "gen_getNextOffset (lw_rwOffsetGen s) (lw_rand s) = Some (Inr (off, g1, rs1))"
    "gen_getNextBlockSizeToSubmit g1 rs1 = Inr (n, rs2)"
    "gen_drain (gen_addBytesSubmitted n g1) rs2 = Some (Inr (rest, g', rs'))"
    by (cases rule: gen_drain_cases) auto
  let ?ok = "\<lambda>ios. \<forall>i \<in> io_bytes pa ios. verified_byte (pa_integrityCheckSalt pa) (content (lw_x s) (hd (lw_fdVec s))) i"
  have io: "ios_ok pa [(off, n)]" "ios_ok pa rest" "\<forall>i \<in> io_bytes pa [(off, n)]. i < length (content (lw_x s) (hd (lw_fdVec s)))"
    using Cons.prems(3,4) r(2) by (auto simp: ios_ok_def)
  obtain t where t: "rw_round env k pa False BenchPhase_READFILES s =
      Some (if ?ok [(off, n)] then Inr RwContinue else Inl (WorkerException ''Data verification failed. ''), t)" "same_worker s t"
    "?ok [(off, n)] \<longrightarrow> lw_rwOffsetGen t = gen_addBytesSubmitted n g1 \<and> lw_rand t = rs2" "content (lw_x t) = content (lw_x s)"
    using read_round [OF posix args Cons.prems(1) r(3,4) io(1,3), of env] by blast
  show ?case
  proof (cases "?ok [(off, n)]")
    case True
    then have g: "lw_rwOffsetGen t = gen_addBytesSubmitted n g1" "lw_rand t = rs2" using t(3) by simp_all
    have fd: "lw_fdVec t = lw_fdVec s" using t(2) by (simp add: same_worker_def)
    have ok: "?ok (io # rest) \<longleftrightarrow> ?ok rest" using True r(2) by auto
    have tot: "gen_getNumBytesTotal (lw_rwOffsetGen t) = gen_getNumBytesTotal (lw_rwOffsetGen s)" using g(1) gen_total_next [OF r(3)] by simp
    have "\<exists>u. rw_loop env k pa False BenchPhase_READFILES t =
        Some (if ?ok rest then Inr (sint (gen_getNumBytesTotal (lw_rwOffsetGen t))) else Inl (WorkerException ''Data verification failed. ''), u) \<and>
      same_worker t u \<and> content (lw_x u) = content (lw_x s) \<and> (?ok rest \<longrightarrow> gen_like (lw_rwOffsetGen t) (lw_rwOffsetGen u))"
      using Cons.IH [OF worker_setup_same [OF Cons.prems(1) t(2)]] g r(2,5) io(2) Cons.prems(4) t(4) fd by simp
    then obtain u where u: "rw_loop env k pa False BenchPhase_READFILES t =
        Some (if ?ok rest then Inr (sint (gen_getNumBytesTotal (lw_rwOffsetGen s))) else Inl (WorkerException ''Data verification failed. ''), u)"
      "same_worker t u" "content (lw_x u) = content (lw_x s)" "?ok rest \<longrightarrow> gen_like (lw_rwOffsetGen t) (lw_rwOffsetGen u)" unfolding tot by blast
    have "rw_loop env k pa False BenchPhase_READFILES s = rw_loop env k pa False BenchPhase_READFILES t"
      using r(1) t(1) True by (subst rw_loop.simps) simp
    moreover have "?ok rest \<longrightarrow> gen_like (lw_rwOffsetGen s) (lw_rwOffsetGen u)"
      using u(4) gen_like_trans gen_like_round [OF r(3), of n] g(1) by auto
    ultimately show ?thesis using u(1,3) same_worker_trans [OF t(2) u(2)] unfolding ok by simp
  next
    case False
    then have "rw_round env k pa False BenchPhase_READFILES s = Some (Inl (WorkerException ''Data verification failed. ''), t)"
      using t(1) by (simp only: if_False)
    then have "rw_loop env k pa False BenchPhase_READFILES s = Some (Inl (WorkerException ''Data verification failed. ''), t)"
      using r(1) by (subst rw_loop.simps) simp
    moreover have "\<not> ?ok (io # rest)" using False r(2) by auto
    ultimately show ?thesis using t(2,4) by (intro exI [of _ t]) (simp only: if_False simp_thms)
  qed
qed

lemma read_range:
  assumes "posix_files k content" "verify_args pa" "worker_setup pa BenchPhase_READFILES s"
    and "gen_drain (lw_rwOffsetGen s) (lw_rand s) = Some (Inr (ios, g', rs'))" "ios_ok pa ios"
    and "\<forall>i \<in> io_bytes pa ios. i < length (content (lw_x s) (hd (lw_fdVec s)))"
  defines "ok \<equiv> \<forall>i \<in> io_bytes pa ios. verified_byte (pa_integrityCheckSalt pa) (content (lw_x s) (hd (lw_fdVec s))) i"
  shows "\<exists>t. rwBlockSized env k pa False BenchPhase_READFILES s =
      Some (if ok then Inr (sint (gen_getNumBytesTotal (lw_rwOffsetGen s))) else Inl (WorkerException ''Data verification failed. ''), t) \<and>
    same_worker s t \<and> content (lw_x t) = content (lw_x s) \<and> (ok \<longrightarrow> gen_like (lw_rwOffsetGen s) (lw_rwOffsetGen t))"
proof -
  obtain t where "rw_loop env k pa False BenchPhase_READFILES s =
      Some (if ok then Inr (sint (gen_getNumBytesTotal (lw_rwOffsetGen s))) else Inl (WorkerException ''Data verification failed. ''), t)"
    "same_worker s t" "content (lw_x t) = content (lw_x s)" "ok \<longrightarrow> gen_like (lw_rwOffsetGen s) (lw_rwOffsetGen t)"
    using read_loop [OF assms(1-6), of env] unfolding ok_def by blast
  then show ?thesis
    using same_worker_trans [OF _ release_slots_same(1)] by (intro exI [of _ "lw_journalReleaseSlots t"]) (simp add: rwBlockSized_def)
qed

end
