(* ===== verification/FileMode.thy ===== *)
theory FileMode
  imports BlockIO
begin

text \<open>
  Iteration over files and block devices in \<open>workers/LocalWorker.cpp\<close>: sequential I/O, in which each worker has a
  contiguous share of the blocks of all files (\<open>fileModeIterateFilesSeq\<close>), and random I/O, in which
  the files are one range (\<open>fileModeIterateFilesRand\<close>).
\<close>

subsection \<open>Sequential I/O\<close>

text \<open>The share of a worker: the first block, and the one behind the last.\<close>

definition seq_worker_blocks :: "u64 \<Rightarrow> u64 \<Rightarrow> u64 \<Rightarrow> u64 \<times> u64" where
  "seq_worker_blocks workerRank numThreads blocksTotal =
     (let standardWorkerNumBlocks = blocksTotal div numThreads;
          thisWorkerNumBlocks =
            (if workerRank = numThreads - 1 \<and> blocksTotal mod numThreads \<noteq> 0
             then blocksTotal - standardWorkerNumBlocks * (numThreads - 1) else standardWorkerNumBlocks);
          startBlock = workerRank * standardWorkerNumBlocks
      in (startBlock, startBlock + thisWorkerNumBlocks))"

definition seq_numBlocksPerFile :: "prog_args \<Rightarrow> u64" where
  "seq_numBlocksPerFile pa =
     pa_fileSize pa div pa_blockSize pa + (if pa_fileSize pa mod pa_blockSize pa \<noteq> 0 then 1 else 0)"

definition seq_pathFDs :: "prog_args \<Rightarrow> 'x lw_state \<Rightarrow> int list" where
  "seq_pathFDs pa s =
     (if pa_benchMode pa = BenchMode_SPDK then pa_benchPathSpdkNsIdsVec pa
      else if lw_threadFDVec s = [] then pa_benchPathFDsVec pa else lw_threadFDVec s)"

text \<open>The range of the current file: its index, the start and the length.\<close>

definition seq_file_range :: "prog_args \<Rightarrow> u64 \<Rightarrow> u64 \<Rightarrow> u64 \<times> u64 \<times> u64" where
  "seq_file_range pa endBlock currentBlockIdx =
     (let numBlocksPerFile = seq_numBlocksPerFile pa;
          currentFileIndex = currentBlockIdx div numBlocksPerFile;
          currentBlockInFile = currentBlockIdx mod numBlocksPerFile;
          currentIOStart = currentBlockInFile * pa_blockSize pa;
          remainingWorkerLen = (endBlock - currentBlockIdx) * pa_blockSize pa;
          remainingFileLen = pa_fileSize pa - currentBlockInFile * pa_blockSize pa
      in (currentFileIndex, currentIOStart, min remainingWorkerLen remainingFileLen))"

text \<open>The call of \<open>funcRWBlockSized\<close> for a range, and the check of its result; the asynchronous engine, libaio or SPDK, is a parameter.\<close>

type_synonym 'x aio_engine = "'x lw_state \<Rightarrow> (int result \<times> 'x lw_state) option"

definition call_rw_func ::
    "sync_env \<Rightarrow> 'x kernel \<Rightarrow> 'x aio_engine \<Rightarrow> prog_args \<Rightarrow> bool \<Rightarrow> bench_phase \<Rightarrow> 'x lw_state \<Rightarrow> (int result \<times> 'x lw_state) option" where
  "call_rw_func env k aio pa journalEnabled globalBenchPhase s =
     (case funcRWBlockSized (lw_funcs s) of
        None \<Rightarrow> Some (Inl (Fault ''call of a null function pointer''), s)
      | Some RwBlockSized \<Rightarrow> rwBlockSized env k pa journalEnabled globalBenchPhase s
      | Some AioBlockSized \<Rightarrow> aio s
      | Some SpdkAioBlockSized \<Rightarrow> aio s)"

definition rw_checked ::
    "'x aio_engine \<Rightarrow> bool \<Rightarrow> ('x lw_state \<Rightarrow> u64) \<Rightarrow> 'x lw_state \<Rightarrow> (unit result \<times> 'x lw_state) option" where
  "rw_checked rw isWrite expected s =
     (case rw s of
        None \<Rightarrow> None
      | Some (Inl ex, s) \<Rightarrow> Some (Inl ex, s)
      | Some (Inr res, s) \<Rightarrow>
          Some (if res = -1 then Inl (WorkerException (if isWrite then ''File write failed. '' else ''File read failed. ''))
                else if of_int res \<noteq> expected s
                then Inl (WorkerException (if isWrite then ''Unexpected short file write. '' else ''Unexpected short file read. ''))
                else Inr (), s))"

text \<open>The I/O of one range, inside of the mapping of the file.\<close>

definition seq_range_io ::
    "'x aio_engine \<Rightarrow> u64 \<Rightarrow> 'x lw_state \<Rightarrow> (unit result \<times> 'x lw_state) option" where
  "seq_range_io rw currentIOLen s =
     (case (if lw_benchPhase s = BenchPhase_CREATEFILES then rw_checked rw True (\<lambda>_. currentIOLen) s else Some (Inr (), s)) of
        None \<Rightarrow> None
      | Some (Inl ex, s) \<Rightarrow> Some (Inl ex, s)
      | Some (Inr _, s) \<Rightarrow>
          if lw_benchPhase s = BenchPhase_READFILES then rw_checked rw False (\<lambda>_. currentIOLen) s else Some (Inr (), s))"

definition seq_file_round ::
    "'x kernel \<Rightarrow> 'x aio_engine \<Rightarrow> prog_args \<Rightarrow> u64 \<Rightarrow> u64 \<Rightarrow> 'x lw_state \<Rightarrow> (u64 result \<times> 'x lw_state) option" where
  "seq_file_round k rw pa endBlock currentBlockIdx s =
     (case seq_file_range pa endBlock currentBlockIdx of
        (currentFileIndex, currentIOStart, currentIOLen) \<Rightarrow>
          (case handle_at (seq_pathFDs pa s) currentFileIndex of
             Inl ex \<Rightarrow> Some (Inl ex, s)
           | Inr fd \<Rightarrow>
               (let s = s\<lparr>lw_fdVec := (lw_fdVec s)[0 := fd],
                          lw_journalPtrVec := (if lw_journalPtrVec s = [] then [] else (lw_journalPtrVec s)[0 := unat currentFileIndex])\<rparr>
                in case gen_reset_to currentIOLen currentIOStart (lw_rwOffsetGen s) (lw_rand s) of
                     Inl ex \<Rightarrow> Some (Inl ex, s)
                   | Inr (g, rs) \<Rightarrow>
                       (let s = s\<lparr>lw_rwOffsetGen := g, lw_rand := rs\<rparr>;
                            mapLen = pa_fileOffset pa + pa_fileSize pa
                        in case thenE (on_kernel (FileTk_fadvise WorkerException k fd (pa_fadviseFlags pa)) s) (\<lambda>_ s.
                                  if pa_useMmap pa
                                  then thenE (on_kernel (FileTk_mmapAndMadvise WorkerException k mapLen fd (pa_madviseFlags pa)) s) (\<lambda>m s.
                                         (Inr (), s\<lparr>lw_mmapVec := (lw_mmapVec s)[0 := Some m]\<rparr>))
                                  else (Inr (), s)) of
                             (Inl ex, s) \<Rightarrow> Some (Inl ex, s)
                           | (Inr _, s) \<Rightarrow>
                               map_option (\<lambda>(res, s).
                                 (bindE res (\<lambda>_. Inr (currentBlockIdx + (currentIOLen div pa_blockSize pa +
                                    (if currentIOLen mod pa_blockSize pa \<noteq> 0 then 1 else 0)))),
                                  if pa_useMmap pa then s\<lparr>lw_x := k_munmap k fd mapLen (lw_x s), lw_mmapVec := (lw_mmapVec s)[0 := None]\<rparr> else s))
                                 (seq_range_io rw currentIOLen s)))))"

partial_function (option) seq_files_loop ::
    "'x kernel \<Rightarrow> 'x aio_engine \<Rightarrow> prog_args \<Rightarrow> u64 \<Rightarrow> u64 \<Rightarrow> 'x lw_state \<Rightarrow> (unit result \<times> 'x lw_state) option" where
  "seq_files_loop k rw pa endBlock currentBlockIdx s =
     (if \<not> currentBlockIdx < endBlock then Some (Inr (), s)
      else
        Option.bind (seq_file_round k rw pa endBlock currentBlockIdx s) (\<lambda>(res, s).
          case res of Inl ex \<Rightarrow> Some (Inl ex, s) | Inr nextBlockIdx \<Rightarrow> seq_files_loop k rw pa endBlock nextBlockIdx s))"

definition fileModeIterateFilesSeq ::
    "sync_env \<Rightarrow> 'x kernel \<Rightarrow> 'x aio_engine \<Rightarrow> prog_args \<Rightarrow> bool \<Rightarrow> bench_phase \<Rightarrow> 'x lw_state \<Rightarrow> (unit result \<times> 'x lw_state) option" where
  "fileModeIterateFilesSeq env k aio pa journalEnabled globalBenchPhase s =
     (if pa_blockSize pa = 0 \<or> pa_numDataSetThreads pa = 0 then Some (Inl (Fault ''division by zero''), s)
      else
        let numFiles = of_nat (length (seq_pathFDs pa s));
            blocksTotal = seq_numBlocksPerFile pa * numFiles;
            (startBlock, endBlock) = seq_worker_blocks (lw_workerRank s) (pa_numDataSetThreads pa) blocksTotal
        in if endBlock \<le> startBlock then Some (Inr (), s\<lparr>lw_workerGotPhaseWork := False\<rparr>)
           else seq_files_loop k (call_rw_func env k aio pa journalEnabled globalBenchPhase) pa endBlock startBlock s)"

subsection \<open>Random I/O\<close>

text \<open>The generator that \<open>fileModeIterateFilesRand\<close> makes for a worker.\<close>

definition rand_files_gen :: "prog_args \<Rightarrow> bench_phase \<Rightarrow> u64 \<Rightarrow> nat \<Rightarrow> rand_src \<Rightarrow> (offset_gen \<times> rand_src) result" where
  "rand_files_gen pa globalBenchPhase workerRank numHandles rs =
     (if pa_blockSize pa = 0 \<or> pa_numDataSetThreads pa = 0 then Inl (Fault ''division by zero'')
      else
        let blockSize = pa_blockSize pa;
            isWritePhase = (globalBenchPhase = BenchPhase_CREATEFILES);
            numBlocksPerFile = pa_fileSize pa div blockSize;
            blocksTotal = numBlocksPerFile * of_nat numHandles;
            numDataSetThreads = pa_numDataSetThreads pa;
            randomAmount = pa_randomAmount pa div numDataSetThreads;
            rangeLen = blockSize * (blocksTotal div numDataSetThreads);
            rangeOffset = workerRank * blockSize * (blocksTotal div numDataSetThreads)
        in if pa_useStridedAccess pa
           then Inr (OffsetGenStrided (str_new rangeLen (blockSize * workerRank) blockSize numDataSetThreads), rs)
           else if pa_useRandomUnaligned pa
           then bindE (rnd_new randomAmount rangeLen rangeOffset (pa_blockSizeMix pa)) (\<lambda>g. Inr (OffsetGenRandom g, rs))
           else if pa_randOffsetAlgo pa \<noteq> [] \<or> \<not> isWritePhase \<or> mix_isMix (pa_blockSizeMix pa)
           then bindE (ral_new randomAmount rangeLen rangeOffset (pa_blockSizeMix pa)) (\<lambda>g. Inr (OffsetGenRandomAligned g, rs))
           else let (rd, rs) = rs_draw rs
                in bindE (fcv_new randomAmount rangeLen rangeOffset blockSize rd) (\<lambda>g. Inr (OffsetGenRandomAlignedFullCoverageV2 g, rs)))"

definition fileModeIterateFilesRand ::
    "sync_env \<Rightarrow> 'x kernel \<Rightarrow> 'x aio_engine \<Rightarrow> prog_args \<Rightarrow> bool \<Rightarrow> bench_phase \<Rightarrow> 'x lw_state \<Rightarrow> (unit result \<times> 'x lw_state) option" where
  "fileModeIterateFilesRand env k aio pa journalEnabled globalBenchPhase s =
     (case rand_files_gen pa globalBenchPhase (lw_workerRank s) (length (lw_fdVec s)) (lw_rand s) of
        Inl ex \<Rightarrow> Some (Inl ex, s)
      | Inr (g, rs) \<Rightarrow>
          (let s = s\<lparr>lw_rwOffsetGen := g, lw_rand := rs\<rparr>;
               rw = call_rw_func env k aio pa journalEnabled globalBenchPhase;
               total = (\<lambda>s. gen_getNumBytesTotal (lw_rwOffsetGen s))
           in if globalBenchPhase = BenchPhase_CREATEFILES then rw_checked rw True total s
              else if globalBenchPhase = BenchPhase_READFILES then rw_checked rw False total s
              else Some (Inr (), s)))"

subsection \<open>A phase of a worker\<close>

definition initThreadPhaseVars :: "prog_args \<Rightarrow> bench_phase \<Rightarrow> 'x lw_state \<Rightarrow> 'x lw_state" where
  "initThreadPhaseVars pa globalBenchPhase s =
     (let localWorkerRank = lw_workerRank s - pa_rankOffset pa;
          isRWMixedReader = (globalBenchPhase = BenchPhase_CREATEFILES \<and> localWorkerRank < pa_numRWMixReadThreads pa)
      in s\<lparr>lw_benchPhase := (if isRWMixedReader then BenchPhase_READFILES else globalBenchPhase)\<rparr>)"

text \<open>
  The null pointer in the vector of journals of the sequential mode is the number 0 here; it is replaced by the
  journal of the file before the first use.
\<close>

definition initPhaseFileHandleVecs :: "prog_args \<Rightarrow> bool \<Rightarrow> 'x lw_state \<Rightarrow> 'x lw_state" where
  "initPhaseFileHandleVecs pa journalEnabled s =
     (let s = s\<lparr>lw_errorFDVecIdx := -1, lw_journalPtrVec := []\<rparr>
      in if pa_benchPathType pa = BenchPathType_DIR
         then s\<lparr>lw_fdVec := [-1], lw_mmapVec := take 1 (lw_mmapVec s @ [None])\<rparr>
         else if \<not> pa_useRandomOffsets pa \<and> \<not> pa_useStridedAccess pa
         then s\<lparr>lw_fdVec := [-1], lw_journalPtrVec := (if journalEnabled then [0] else []),
                lw_mmapVec := take 1 (lw_mmapVec s @ [None])\<rparr>
         else let fds = seq_pathFDs pa s
              in s\<lparr>lw_fdVec := fds, lw_journalPtrVec := (if journalEnabled then [0..<length fds] else [])\<rparr>)"

text \<open>
  One pass of the loop of \<open>run\<close> for a phase that writes or reads in file and block device mode: the preparations and the
  dispatch to the random or the sequential method.
\<close>

definition run_file_phase ::
    "sync_env \<Rightarrow> 'x kernel \<Rightarrow> 'x aio_engine \<Rightarrow> prog_args \<Rightarrow> bool \<Rightarrow> (nat \<Rightarrow> u32) \<times> (nat \<Rightarrow> u32) \<times> (nat \<Rightarrow> u32) \<Rightarrow> bench_phase \<Rightarrow>
      'x lw_state \<Rightarrow> (unit result \<times> 'x lw_state) option" where
  "run_file_phase env k aio pa journalEnabled rd globalBenchPhase s =
     (let s = initPhaseFileHandleVecs pa journalEnabled (initThreadPhaseVars pa globalBenchPhase s) in
      case initPhaseRWOffsetGen pa globalBenchPhase (fst rd) (fst (snd rd)) (snd (snd rd)) s of
        (Inl ex, s) \<Rightarrow> Some (Inl ex, s)
      | (Inr _, s) \<Rightarrow>
          (let (f, startedLimit) = initPhaseFunctionPointers pa journalEnabled (lw_benchPhase s) globalBenchPhase;
               s = s\<lparr>lw_funcs := f\<rparr>;
               s = (case startedLimit of
                      None \<Rightarrow> s
                    | Some limit \<Rightarrow> (case on_kernel (k_now k) s of (t, s) \<Rightarrow> s\<lparr>lw_rateLimiter := rl_initStart limit t\<rparr>))
           in if pa_useRandomOffsets pa \<or> pa_useStridedAccess pa
              then fileModeIterateFilesRand env k aio pa journalEnabled globalBenchPhase s
              else fileModeIterateFilesSeq env k aio pa journalEnabled globalBenchPhase s))"

text \<open>The workers of a phase, one after the other; the state of the system is shared.\<close>

primrec run_workers ::
    "('x lw_state \<Rightarrow> (unit result \<times> 'x lw_state) option) \<Rightarrow> 'x lw_state list \<Rightarrow> 'x \<Rightarrow> (unit result list \<times> 'x) option" where
  "run_workers phase [] x = Some ([], x)"
| "run_workers phase (w # ws) x =
     Option.bind (phase (w\<lparr>lw_x := x\<rparr>)) (\<lambda>(res, w').
       map_option (\<lambda>(rs, x). (res # rs, x)) (run_workers phase ws (lw_x w')))"

subsection \<open>Strided access\<close>


text \<open>Seven blocks in one file and three workers: the last block is left out.\<close>

definition strided_args :: prog_args where
  "strided_args = blank_args\<lparr>pa_useStridedAccess := True, pa_blockSize := 4096, pa_fileSize := 28672, pa_numDataSetThreads := 3\<rparr>"


end
