(* ===== verification/FileVerify.thy ===== *)
theory FileVerify
  imports BlockVerify FileMode JournalSafety
begin

text \<open>
  Verification of whole files in file mode: the shares of the workers partition the blocks, a worker that writes
  its share leaves the contents for verification in it, and a worker that reads its share fails exactly when a byte of it
  has other contents. A phase of all workers, one after the other in any order, follows from it.
\<close>

subsection \<open>The shares of the workers\<close>

lemma worker_blocks_unat:
  fixes N T :: u64
  assumes "r < unat T"
  defines "q \<equiv> unat N div unat T"
  shows "unat (fst (seq_worker_blocks (of_nat r) T N)) = r * q"
    "unat (snd (seq_worker_blocks (of_nat r) T N)) = (if r = unat T - 1 then unat N else (r + 1) * q)"
proof -
  have T: "0 < unat T" "r < W64" using assms(1) unat_less_W64 [of T] by linarith+
  have qT: "unat T * q \<le> unat N" by (simp add: q_def)
  have "(r + 1) * q \<le> unat T * q" using assms(1) by (intro mult_le_mono1) simp
  with qT have rq: "r * q + q \<le> unat N" by simp
  have lt: "unat N < W64" by (rule unat_less_W64)
  have qq: "unat (N div T) = q" by (simp add: q_def unat_div)
  have r: "unat (of_nat r :: u64) = r" using T(2) by (rule unat_of_nat_no)
  have st: "unat (of_nat r * (N div T)) = r * q" using rq lt r qq by (subst unat_mult_no) simp_all
  then show "unat (fst (seq_worker_blocks (of_nat r) T N)) = r * q" by (simp add: seq_worker_blocks_def Let_def)
  have T1: "unat (T - 1) = unat T - 1" using T(1) by (subst unat_sub_no) (simp_all add: word_le_nat_alt)
  then have last: "of_nat r = T - 1 \<longleftrightarrow> r = unat T - 1" using r by (simp add: unat_eq_iff_u64)
  have "(unat T - 1) * q \<le> unat T * q" by (intro mult_le_mono1) simp
  then have le: "(unat T - 1) * q \<le> unat N" using qT by (rule order_trans)
  then have "unat (N div T * (T - 1)) = (unat T - 1) * q"
    using lt T1 qq by (subst unat_mult_no) (simp_all only: mult.commute)
  with le have rest: "unat (N - N div T * (T - 1)) = unat N - (unat T - 1) * q" by (subst unat_sub_no) (simp_all add: word_le_nat_alt)
  show "unat (snd (seq_worker_blocks (of_nat r) T N)) = (if r = unat T - 1 then unat N else (r + 1) * q)"
  proof (cases "r = unat T - 1 \<and> unat N mod unat T \<noteq> 0")
    case True
    then have m: "N mod T \<noteq> 0" by (metis unat_0 unat_mod)
    have "unat (of_nat r * (N div T) + (N - N div T * (T - 1))) = r * q + (unat N - (unat T - 1) * q)"
      using st rest True rq lt by (subst unat_add_no) simp_all
    then show ?thesis using True m last rq by (simp add: seq_worker_blocks_def Let_def)
  next
    case False
    have "snd (seq_worker_blocks (of_nat r) T N) = of_nat r * (N div T) + N div T"
      using False last by (auto simp: seq_worker_blocks_def Let_def unat_mod [symmetric] word_ne_0_pos)
    moreover have "unat (of_nat r * (N div T) + N div T) = r * q + q" using st qq rq lt by (subst unat_add_no) simp_all
    moreover have "r * q + q = unat N" if "r = unat T - 1"
    proof -
      have "unat T * q = unat N" using False that by (simp add: q_def mult_div_mod_eq dvd_imp_mod_0 mod_0_imp_dvd)
      then show ?thesis using that T(1) by (metis Suc_diff_1 add.commute mult_Suc)
    qed
    ultimately show ?thesis by simp
  qed
qed

text \<open>Every block is in the share of exactly one worker.\<close>

lemma seq_shares_partition:
  assumes "T \<noteq> 0" "b < unat N"
  shows "\<exists>!r. r < unat T \<and> unat (fst (seq_worker_blocks (of_nat r) T N)) \<le> b \<and> b < unat (snd (seq_worker_blocks (of_nat r) T N))"
proof -
  define q where "q = unat N div unat T"
  have T: "0 < unat T" using assms(1) by (simp add: word_ne_0_pos)
  let ?in = "\<lambda>r. r < unat T \<and> r * q \<le> b \<and> b < (if r = unat T - 1 then unat N else (r + 1) * q)"
  define r0 where "r0 = (if q = 0 then unat T - 1 else min (b div q) (unat T - 1))"
  have "?in r0"
  proof (cases "q = 0 \<or> unat T - 1 \<le> b div q")
    case True
    then have "r0 = unat T - 1" "r0 * q \<le> b" using T by (auto simp: r0_def min_def less_eq_div_iff_mult_less_eq)
    then show ?thesis using T assms(2) by simp
  next
    case False
    then have "r0 = b div q" "0 < q" by (auto simp: r0_def)
    moreover have "b < (b div q + 1) * q" using \<open>0 < q\<close> by (metis add.commute dividend_less_div_times mult.commute mult_Suc plus_1_eq_Suc)
    ultimately show ?thesis using False by simp
  qed
  moreover have "r = r'" if "?in r" "?in r'" for r r'
  proof (rule ccontr)
    assume ne: "r \<noteq> r'"
    have no: False if "?in r" "?in r'" "r < r'" for r r'
    proof -
      have "(r + 1) * q \<le> r' * q" using that(3) by (intro mult_le_mono1) simp
      moreover have "r \<noteq> unat T - 1" using that by linarith
      ultimately show False using that by simp
    qed
    show False using no [of r r'] no [of r' r] that ne by (meson nat_neq_iff)
  qed
  ultimately have "\<exists>!r. ?in r" by blast
  moreover have "?in r \<longleftrightarrow> r < unat T \<and> unat (fst (seq_worker_blocks (of_nat r) T N)) \<le> b \<and>
      b < unat (snd (seq_worker_blocks (of_nat r) T N))" for r
    using worker_blocks_unat [of r T N, folded q_def] by (cases "r < unat T") simp_all
  ultimately show ?thesis by (simp only: )
qed

subsection \<open>Blocks and byte ranges\<close>

text \<open>The number of blocks of a file, rounded up, and the bytes of a block.\<close>

definition blocks_of :: "nat \<Rightarrow> nat \<Rightarrow> nat" where
  "blocks_of S B = S div B + (if S mod B \<noteq> 0 then 1 else 0)"

lemma blocks_of_less:
  assumes "0 < B"
  shows "j < blocks_of S B \<longleftrightarrow> j * B < S"
proof -
  have S: "S = S div B * B + S mod B" "S mod B < B" using assms by simp_all
  show ?thesis
  proof (cases "S mod B = 0")
    case True
    then have "S = S div B * B" using S by simp
    then have "j * B < S \<longleftrightarrow> j < S div B" using assms by (metis mult_less_cancel2)
    then show ?thesis using True by (simp add: blocks_of_def)
  next
    case False
    have "j * B < S \<longleftrightarrow> j \<le> S div B"
    proof
      assume "j \<le> S div B"
      then have "j * B \<le> S div B * B" by (rule mult_le_mono1)
      then show "j * B < S" using S False by linarith
    next
      assume "j * B < S"
      then show "j \<le> S div B" using assms by (simp add: less_eq_div_iff_mult_less_eq)
    qed
    then show ?thesis using False by (auto simp: blocks_of_def)
  qed
qed

lemma blocks_of_mult: "blocks_of (k * B) B = (if B = 0 then 0 else k)"
  by (simp add: blocks_of_def)

lemma blocks_of_diff:
  assumes "0 < B" "j * B < S"
  shows "blocks_of (S - j * B) B = blocks_of S B - j"
proof -
  have "i < blocks_of (S - j * B) B \<longleftrightarrow> i < blocks_of S B - j" for i
    unfolding blocks_of_less [OF assms(1)] less_diff_conv [of i "blocks_of S B" j] using assms(2) by (auto simp: add_mult_distrib)
  then show ?thesis by (metis linorder_neq_iff order_less_irrefl)
qed

text \<open>The length of the range of a round, and the number of blocks that it has.\<close>

lemma round_blocks:
  assumes "0 < B" "m < blocks_of S B" "0 < k"
  shows "blocks_of (min (k * B) (S - m * B)) B = min k (blocks_of S B - m)" "0 < min (k * B) (S - m * B)"
proof -
  have m: "m * B < S" using assms(1,2) by (simp add: blocks_of_less)
  show "blocks_of (min (k * B) (S - m * B)) B = min k (blocks_of S B - m)"
  proof (cases "S - m * B \<le> k * B")
    case True
    have "\<not> k < blocks_of (S - m * B) B" using True assms(1) by (simp add: blocks_of_less)
    then show ?thesis using True blocks_of_diff [OF assms(1) m] by (simp add: min_def)
  next
    case False
    then have "k < blocks_of (S - m * B) B" using assms(1) by (simp add: blocks_of_less)
    then show ?thesis using False assms(1) blocks_of_diff [OF assms(1) m] by (simp add: min_def blocks_of_mult)
  qed
  show "0 < min (k * B) (S - m * B)" using m assms by simp
qed

text \<open>A property of the bytes of the range is the property of the bytes of its blocks.\<close>

lemma round_bytes:
  fixes c e S B :: nat
  defines "nb \<equiv> blocks_of S B" and "m \<equiv> c mod blocks_of S B"
  assumes B: "0 < B" and nb: "0 < nb"
  shows "(\<forall>blk. c \<le> blk \<and> blk < c + min (e - c) (nb - m) \<longrightarrow>
      (\<forall>i. blk mod nb * B \<le> i \<and> i < (blk mod nb + 1) * B \<and> i < S \<longrightarrow> V (blk div nb) i)) \<longleftrightarrow>
    (\<forall>i. m * B \<le> i \<and> i < m * B + min ((e - c) * B) (S - m * B) \<longrightarrow> V (c div nb) i)" (is "?blocks = ?bytes")
proof -
  have m: "m < nb" using nb by (simp add: m_def nb_def)
  have c: "c = c div nb * nb + m" by (simp only: m_def nb_def div_mult_mod_eq)
  have blk: "(c + j) div nb = c div nb" "(c + j) mod nb = m + j" if "j < nb - m" for j
  proof -
    have cj: "c + j = (m + j) + c div nb * nb" "m + j < nb" using c that by simp_all
    show "(c + j) div nb = c div nb" unfolding cj(1) using cj(2) nb by simp
    show "(c + j) mod nb = m + j" unfolding cj(1) using cj(2) by simp
  qed
  have S: "i div B < nb" if "i < S" for i using that B unfolding nb_def by (simp add: blocks_of_less) (meson div_times_less_eq_dividend le_less_trans)
  show ?thesis
  proof
    assume l: ?blocks
    show ?bytes
    proof (intro allI impI, elim conjE)
      fix i assume i: "m * B \<le> i" "i < m * B + min ((e - c) * B) (S - m * B)"
      define j where "j = i div B - m"
      have mi: "m \<le> i div B" using i(1) B by (simp add: less_eq_div_iff_mult_less_eq)
      have "i < m * B + (S - m * B)" "i < m * B + (e - c) * B" using i(2) by linarith+
      then have iS: "i < S" "i < (m + (e - c)) * B" using i(1) by (simp_all only: add_mult_distrib)
      then have j: "j < nb - m" "j < e - c" "m + j = i div B" using S mi B m
        by (simp_all add: j_def less_mult_imp_div_less less_diff_conv2 add.commute)
      have "i div B * B \<le> i" "i < (i div B + 1) * B" using B by (simp_all add: dividend_less_div_times add.commute)
      moreover have "c \<le> c + j" "c + j < c + min (e - c) (nb - m)" using j by simp_all
      ultimately have "V ((c + j) div nb) i" using l iS(1) unfolding j(3) [symmetric] blk(2) [OF j(1), symmetric] by blast
      then show "V (c div nb) i" using blk(1) [OF j(1)] by simp
    qed
  next
    assume r: ?bytes
    show ?blocks
    proof (intro allI impI, elim conjE)
      fix b i assume b: "c \<le> b" "b < c + min (e - c) (nb - m)" and i: "b mod nb * B \<le> i" "i < (b mod nb + 1) * B" "i < S"
      define j where "j = b - c"
      have j: "b = c + j" "j < nb - m" "j < e - c" using b by (simp_all add: j_def)
      have "m * B \<le> (m + j) * B" "(m + j + 1) * B \<le> (m + (e - c)) * B" using j(3) by (intro mult_le_mono1; simp)+
      then show "V (b div nb) i" using r i j(1) blk [OF j(2)] by (simp add: add_mult_distrib)
    qed
  qed
qed

subsection \<open>The generator of a range\<close>

text \<open>Sequential or reverse, and with blocks that fit into the buffer.\<close>

fun seq_gen_ok :: "prog_args \<Rightarrow> offset_gen \<Rightarrow> bool" where
  "seq_gen_ok pa (OffsetGenSequential g) \<longleftrightarrow> mix_ok (sq_blockSizeMix g) \<and> maxSize (sq_blockSizeMix g) \<le> pa_blockSize pa"
| "seq_gen_ok pa (OffsetGenReverseSeq g) \<longleftrightarrow> rv_blockSize g = pa_blockSize pa"
| "seq_gen_ok pa g \<longleftrightarrow> False"

lemma seq_gen_ok_like: "seq_gen_ok pa g \<Longrightarrow> gen_like g h \<Longrightarrow> seq_gen_ok pa h"
  by (cases g; cases h) simp_all

lemma tiles_bytes:
  assumes "tiles a b ios" "b + unat (pa_fileOffset pa) < W64" "\<forall>(off, n) \<in> set ios. n \<le> pa_blockSize pa"
  shows "ios_ok pa ios \<and> io_bytes pa ios = {a + unat (pa_fileOffset pa) ..< b + unat (pa_fileOffset pa)} \<and> a \<le> b"
  using assms
proof (induction a b ios rule: tiles.induct)
  case (1 a b)
  then show ?case by (simp add: ios_ok_def)
next
  case (2 a b off n ios)
  then have "ios_ok pa ios" "io_bytes pa ios = {a + unat n + unat (pa_fileOffset pa) ..< b + unat (pa_fileOffset pa)}" "a + unat n \<le> b"
    by simp_all
  then show ?case using 2(2-4) by (auto simp: ios_ok_def)
qed

lemma io_bytes_rev: "io_bytes pa (rev ios) = io_bytes pa ios" "ios_ok pa (rev ios) = ios_ok pa ios"
  by (simp_all add: io_bytes_def ios_ok_def)

lemma rev_reset_to_new: "rev_reset_to len off g = rev_new len off (rv_blockSize g)"
  by (cases g) (simp add: rev_reset_to_def rev_new_def)

lemma rev_new_Inr:
  assumes "bs \<noteq> 0"
  shows "\<exists>g. rev_new len off bs = Inr g \<and> rv_blockSize g = bs"
  using assms by (simp add: rev_new_def rev_reset_def Let_def)

lemma range_drain:
  assumes g: "seq_gen_ok pa g" and bs: "pa_blockSize pa \<noteq> 0"
    and lt: "unat start + unat len + unat (pa_fileOffset pa) < W64"
  shows "\<exists>g1 ios g' rs'. gen_reset_to len start g rs = Inr (g1, rs) \<and> seq_gen_ok pa g1 \<and> gen_getNumBytesTotal g1 = len \<and>
    gen_drain g1 rs = Some (Inr (ios, g', rs')) \<and> ios_ok pa ios \<and>
    io_bytes pa ios = {unat start + unat (pa_fileOffset pa) ..< unat start + unat len + unat (pa_fileOffset pa)}"
proof (cases g)
  case (OffsetGenSequential h)
  let ?h = "seq_reset_to len start h"
  have h: "sq_currentOffset ?h = start" "sq_numBytesLeft ?h = len" "sq_numBytesTotal ?h = len" "sq_blockSizeMix ?h = sq_blockSizeMix h"
    by (simp_all add: seq_reset_to_def seq_reset_def)
  have mix: "mix_ok (sq_blockSizeMix h)" "maxSize (sq_blockSizeMix h) \<le> pa_blockSize pa" using g OffsetGenSequential by simp_all
  obtain ios g' rs' where d: "gen_drain (OffsetGenSequential ?h) rs = Some (Inr (ios, g', rs'))"
    "\<forall>(off, n) \<in> set ios. 0 < n \<and> gen_io_ok (OffsetGenSequential ?h) off n"
    using og.drain_total [of "OffsetGenSequential ?h" rs] h mix by auto
  then have d2: "\<forall>(off, n) \<in> set ios. n \<le> pa_blockSize pa" using mix(2) h by (fastforce intro: order_trans)
  have "tiles (unat start) (unat start + unat len) ios" using seq_drain_tiles [OF d(1)] mix h lt by simp
  then show ?thesis using tiles_bytes [OF _ _ d2] lt d(1) OffsetGenSequential mix h by (intro exI [of _ "OffsetGenSequential ?h"]) auto
next
  case (OffsetGenReverseSeq h)
  then obtain r where r: "rev_new len start (pa_blockSize pa) = Inr r" "rv_blockSize r = pa_blockSize pa"
    using rev_new_Inr [OF bs] by blast
  have inv: "rev_inv r" "rv_startOffset r = start" "rv_numBytesLeft r = len" "rv_numBytesTotal r = len" using rev_new_inv [OF r(1)] lt by simp_all
  then obtain ios g' rs' where d: "gen_drain (OffsetGenReverseSeq r) rs = Some (Inr (ios, g', rs'))"
    "\<forall>(off, n) \<in> set ios. n \<le> pa_blockSize pa"
    using og.drain_total [of "OffsetGenReverseSeq r" rs] r(2) by (auto simp: split_beta)
  have "tiles (unat start) (unat start + unat len) (rev ios)" using rev_drain_tiles [OF d(1) inv(1)] inv by simp
  then have "ios_ok pa ios" "io_bytes pa ios = {unat start + unat (pa_fileOffset pa) ..< unat start + unat len + unat (pa_fileOffset pa)}"
    using tiles_bytes [of _ _ "rev ios" pa] d(2) lt by (simp_all add: io_bytes_rev)
  then show ?thesis using d(1) OffsetGenReverseSeq r inv g by (intro exI [of _ "OffsetGenReverseSeq r"]) (simp add: rev_reset_to_new)
qed (use g in simp_all)

subsection \<open>The loop over the files\<close>

lemma seq_files_loop_inv:
  assumes "P (unat cur) s" "cur \<le> e"
    and round: "\<And>cur s. P (unat cur) s \<Longrightarrow> cur < e \<Longrightarrow> \<exists>res t. seq_file_round k rw pa e cur s = Some (res, t) \<and>
      (case res of Inl ex \<Rightarrow> Q ex t | Inr nxt \<Rightarrow> cur < nxt \<and> nxt \<le> e \<and> P (unat nxt) t)"
  shows "\<exists>res t. seq_files_loop k rw pa e cur s = Some (res, t) \<and> (case res of Inl ex \<Rightarrow> Q ex t | Inr _ \<Rightarrow> P (unat e) t)"
  using assms(1,2)
proof (induction "unat e - unat cur" arbitrary: cur s rule: less_induct)
  case less
  show ?case
  proof (cases "cur < e")
    case True
    obtain res t where r: "seq_file_round k rw pa e cur s = Some (res, t)"
      "case res of Inl ex \<Rightarrow> Q ex t | Inr nxt \<Rightarrow> cur < nxt \<and> nxt \<le> e \<and> P (unat nxt) t"
      using round [OF less.prems(1) True] by blast
    show ?thesis
    proof (cases res)
      case (Inl ex)
      then show ?thesis using True r by (subst seq_files_loop.simps) simp
    next
      case (Inr nxt)
      then have n: "cur < nxt" "nxt \<le> e" "P (unat nxt) t" using r(2) by simp_all
      then have "unat e - unat nxt < unat e - unat cur" using True by (simp add: nat_of_word)
      from less.hyps [OF this n(3,2)] show ?thesis using True r(1) Inr by (subst seq_files_loop.simps) simp
    qed
  next
    case False
    then have "cur = e" using less.prems(2) by simp
    then show ?thesis using less.prems(1) by (subst seq_files_loop.simps) simp
  qed
qed

text \<open>The sizes are such that no computation of the file mode overflows.\<close>

definition file_sizes_ok :: "prog_args \<Rightarrow> nat \<Rightarrow> bool" where
  "file_sizes_ok pa numFiles \<longleftrightarrow>
     pa_blockSize pa \<noteq> 0 \<and> pa_fileSize pa \<noteq> 0 \<and> 0 < numFiles \<and>
     (unat (pa_fileSize pa) + unat (pa_blockSize pa)) * numFiles < 2 ^ 63 \<and>
     unat (pa_fileOffset pa) + unat (pa_fileSize pa) < 2 ^ 63"

abbreviation file_nblocks :: "prog_args \<Rightarrow> nat" where
  "file_nblocks pa \<equiv> blocks_of (unat (pa_fileSize pa)) (unat (pa_blockSize pa))"

lemma file_sizes_blocks:
  assumes "file_sizes_ok pa F"
  shows "unat (seq_numBlocksPerFile pa) = file_nblocks pa" "0 < file_nblocks pa" "file_nblocks pa * F * unat (pa_blockSize pa) < 2 ^ 63" "file_nblocks pa * F < 2 ^ 63"
proof -
  let ?S = "unat (pa_fileSize pa)" and ?B = "unat (pa_blockSize pa)"
  have B: "0 < ?B" "0 < ?S" "0 < F" "(?S + ?B) * F < 2 ^ 63" using assms by (simp_all add: file_sizes_ok_def word_ne_0_pos)
  show nb: "0 < file_nblocks pa" using B by (simp add: blocks_of_less)
  have "(file_nblocks pa - 1) * ?B < ?S" using B nb by (simp flip: blocks_of_less)
  then have "file_nblocks pa * ?B \<le> ?S + ?B" using nb by (simp add: diff_mult_distrib)
  then have "file_nblocks pa * ?B * F \<le> (?S + ?B) * F" by (rule mult_le_mono1)
  from le_less_trans [OF this B(4)] have l: "file_nblocks pa * F * ?B < 2 ^ 63" by (simp only: ac_simps)
  then show "file_nblocks pa * F * ?B < 2 ^ 63" .
  have "file_nblocks pa * F * 1 \<le> file_nblocks pa * F * ?B" using B(1) by (intro mult_le_mono2) simp
  from le_less_trans [OF this l] show l2: "file_nblocks pa * F < 2 ^ 63" by simp
  have "file_nblocks pa * 1 \<le> file_nblocks pa * F" using B(3) by (intro mult_le_mono2) simp
  from le_less_trans [OF this l2] have "file_nblocks pa < W64" by simp
  then show "unat (seq_numBlocksPerFile pa) = file_nblocks pa"
    by (auto simp: seq_numBlocksPerFile_def blocks_of_def unat_div unat_mod [symmetric] word_ne_0_pos intro!: unat_add_no [THEN trans])
qed

lemma seq_file_range_unat:
  assumes sz: "file_sizes_ok pa F" and cur: "cur < e" and e: "unat e \<le> file_nblocks pa * F"
  defines "m \<equiv> unat cur mod file_nblocks pa" and "B \<equiv> unat (pa_blockSize pa)" and "S \<equiv> unat (pa_fileSize pa)"
  shows "\<exists>fi start len. seq_file_range pa e cur = (fi, start, len) \<and> unat fi = unat cur div file_nblocks pa \<and> unat fi < F \<and> unat start = m * B \<and>
    unat len = min ((unat e - unat cur) * B) (S - m * B) \<and> 0 < unat len \<and> unat start + unat len \<le> S \<and>
    unat (cur + (len div pa_blockSize pa + (if len mod pa_blockSize pa \<noteq> 0 then 1 else 0))) =
      unat cur + min (unat e - unat cur) (file_nblocks pa - m)"
proof -
  note nb = file_sizes_blocks [OF sz]
  have B: "0 < B" using sz by (simp add: file_sizes_ok_def B_def word_ne_0_pos)
  have c: "unat cur < unat e" "unat (e - cur) = unat e - unat cur" using cur by (simp_all add: nat_of_word)
  have m: "m < file_nblocks pa" using nb(2) by (simp add: m_def)
  then have mS: "m * B < S" using B by (simp add: B_def S_def blocks_of_less)
  have fi: "unat (cur div seq_numBlocksPerFile pa) = unat cur div file_nblocks pa" "unat cur div file_nblocks pa < F"
    using nb(1) c e by (simp_all add: unat_div less_mult_imp_div_less ac_simps)
  have "unat (cur mod seq_numBlocksPerFile pa) = m" using nb(1) by (simp add: unat_mod m_def)
  then have st: "unat (cur mod seq_numBlocksPerFile pa * pa_blockSize pa) = m * B"
    using mS unat_less_W64 [of "pa_fileSize pa"] by (subst unat_mult_no) (simp_all add: B_def S_def)
  have "(unat e - unat cur) * B \<le> file_nblocks pa * F * B" using e by (intro mult_le_mono1) simp
  from le_less_trans [OF this [unfolded B_def] nb(3)] have wl: "unat ((e - cur) * pa_blockSize pa) = (unat e - unat cur) * B"
    using c(2) by (subst unat_mult_no) (simp_all add: B_def)
  have fl: "unat (pa_fileSize pa - cur mod seq_numBlocksPerFile pa * pa_blockSize pa) = S - m * B"
    using mS st by (subst unat_sub_no) (simp_all add: word_le_nat_alt S_def)
  define L where "L = min ((e - cur) * pa_blockSize pa) (pa_fileSize pa - cur mod seq_numBlocksPerFile pa * pa_blockSize pa)"
  have len: "unat L = min ((unat e - unat cur) * B) (S - m * B)" using wl fl by (simp add: L_def min_def word_le_nat_alt)
  have rb: "blocks_of (unat L) B = min (unat e - unat cur) (file_nblocks pa - m)" "0 < unat L"
    using round_blocks [OF B, of m S "unat e - unat cur"] m c(1) len by (simp_all add: B_def S_def)
  have "unat cur + blocks_of (unat L) B < W64" using rb(1) unat_less_W64 [of e] c(1) by linarith
  moreover have "blocks_of (unat L) B = unat L div B + (if L mod pa_blockSize pa \<noteq> 0 then 1 else 0)"
    by (simp add: blocks_of_def B_def unat_mod [symmetric] word_ne_0_pos)
  ultimately have "unat (cur + (L div pa_blockSize pa + (if L mod pa_blockSize pa \<noteq> 0 then 1 else 0))) = unat cur + blocks_of (unat L) B"
    by (simp only: unat_add_no unat_div B_def [symmetric] if_distrib [of unat] unat_1 unat_0 split: if_splits)
  moreover have "seq_file_range pa e cur = (cur div seq_numBlocksPerFile pa, cur mod seq_numBlocksPerFile pa * pa_blockSize pa, L)"
    by (simp add: seq_file_range_def Let_def L_def)
  moreover have "m * B + min ((unat e - unat cur) * B) (S - m * B) \<le> S" using mS by linarith
  ultimately show ?thesis using fi st len rb by simp
qed

text \<open>A round up to the call for its range; \<open>nxt\<close> is the block at which the next round starts.\<close>

definition seq_worker :: "prog_args \<Rightarrow> bench_phase \<Rightarrow> int list \<Rightarrow> 'x lw_state \<Rightarrow> bool" where
  "seq_worker pa ph fds s \<longleftrightarrow> worker_setup pa ph s \<and> seq_gen_ok pa (lw_rwOffsetGen s) \<and> seq_pathFDs pa s = fds"

lemma seq_file_round_plain:
  assumes "seq_file_range pa e cur = (fi, start, len)" "unat fi < length (seq_pathFDs pa s)" "pa_fadviseFlags pa = 0" "\<not> pa_useMmap pa"
    and "gen_reset_to len start (lw_rwOffsetGen s) (lw_rand s) = Inr (g, rs)"
  shows "seq_file_round k rw pa e cur s = map_option (\<lambda>(res, s). (bindE res (\<lambda>_. Inr (cur + (len div pa_blockSize pa +
      (if len mod pa_blockSize pa \<noteq> 0 then 1 else 0)))), s))
    (seq_range_io rw len (s\<lparr>lw_fdVec := (lw_fdVec s)[0 := seq_pathFDs pa s ! unat fi],
      lw_journalPtrVec := (if lw_journalPtrVec s = [] then [] else (lw_journalPtrVec s)[0 := unat fi]), lw_rwOffsetGen := g, lw_rand := rs\<rparr>))"
  using assms by (simp add: seq_file_round_def handle_at_def Let_def FileTk_fadvise_def advise_if_def on_kernel_def)

definition seq_range_ready ::
    "prog_args \<Rightarrow> bench_phase \<Rightarrow> int list \<Rightarrow> nat \<Rightarrow> nat \<Rightarrow> 'x lw_state \<Rightarrow> u64 \<Rightarrow> nat \<Rightarrow> (u64 \<times> u64) list \<Rightarrow> bool" where
  "seq_range_ready pa ph fds e cur u len nxt ios \<longleftrightarrow>
     (let m = cur mod file_nblocks pa; B = unat (pa_blockSize pa); S = unat (pa_fileSize pa) in
      nxt = cur + min (e - cur) (file_nblocks pa - m) \<and> unat len < 2 ^ 63 \<and>
      worker_setup pa ph u \<and> seq_gen_ok pa (lw_rwOffsetGen u) \<and> seq_pathFDs pa u = fds \<and>
      hd (lw_fdVec u) = fds ! (cur div file_nblocks pa) \<and> gen_getNumBytesTotal (lw_rwOffsetGen u) = len \<and>
      (\<exists>g' rs'. gen_drain (lw_rwOffsetGen u) (lw_rand u) = Some (Inr (ios, g', rs'))) \<and> ios_ok pa ios \<and>
      io_bytes pa ios = {unat (pa_fileOffset pa) + m * B ..< unat (pa_fileOffset pa) + (m * B + min ((e - cur) * B) (S - m * B))})"

lemma seq_round_start:
  assumes args: "verify_args pa" and w: "seq_worker pa ph fds s" and sz: "file_sizes_ok pa (length fds)"
    and cur: "cur < e" and e: "unat e \<le> file_nblocks pa * length fds"
  obtains u len nxt ios where "seq_file_round k rw pa e cur s =
      map_option (\<lambda>(res, s). (bindE res (\<lambda>_. Inr nxt), s)) (seq_range_io rw len u)"
    "lw_x u = lw_x s" "cur < nxt" "nxt \<le> e" "seq_range_ready pa ph fds (unat e) (unat cur) u len (unat nxt) ios"
proof -
  define m B S where "m = unat cur mod file_nblocks pa" and "B = unat (pa_blockSize pa)" and "S = unat (pa_fileSize pa)"
  obtain fi start len where r: "seq_file_range pa e cur = (fi, start, len)" "unat fi = unat cur div file_nblocks pa" "unat fi < length fds"
    "unat start = m * B" "unat len = min ((unat e - unat cur) * B) (S - m * B)" "0 < unat len" "unat start + unat len \<le> S"
    "unat (cur + (len div pa_blockSize pa + (if len mod pa_blockSize pa \<noteq> 0 then 1 else 0))) =
      unat cur + min (unat e - unat cur) (file_nblocks pa - m)"
    using seq_file_range_unat [OF sz cur e] unfolding m_def B_def S_def by blast
  have off: "unat (pa_fileOffset pa) + S < 2 ^ 63" using sz by (simp add: file_sizes_ok_def S_def)
  then have lt: "unat start + unat len + unat (pa_fileOffset pa) < W64" using r(7) by simp
  have bs: "pa_blockSize pa \<noteq> 0" using sz by (simp add: file_sizes_ok_def)
  have "seq_gen_ok pa (lw_rwOffsetGen s)" using w by (simp add: seq_worker_def)
  from range_drain [OF this bs lt, of "lw_rand s"] obtain g1 ios g' rs' where g: "gen_reset_to len start (lw_rwOffsetGen s) (lw_rand s) = Inr (g1, lw_rand s)"
    "seq_gen_ok pa g1" "gen_getNumBytesTotal g1 = len" "gen_drain g1 (lw_rand s) = Some (Inr (ios, g', rs'))" "ios_ok pa ios"
    "io_bytes pa ios = {unat start + unat (pa_fileOffset pa) ..< unat start + unat len + unat (pa_fileOffset pa)}"
    by blast
  define nxt where "nxt = cur + (len div pa_blockSize pa + (if len mod pa_blockSize pa \<noteq> 0 then 1 else 0))"
  define u where "u = s\<lparr>lw_fdVec := (lw_fdVec s)[0 := fds ! unat fi],
    lw_journalPtrVec := (if lw_journalPtrVec s = [] then [] else (lw_journalPtrVec s)[0 := unat fi]), lw_rwOffsetGen := g1, lw_rand := lw_rand s\<rparr>"
  have ws: "worker_setup pa ph s" "seq_pathFDs pa s = fds" using w by (simp_all add: seq_worker_def)
  have rd: "seq_file_round k rw pa e cur s = map_option (\<lambda>(res, s). (bindE res (\<lambda>_. Inr nxt), s)) (seq_range_io rw len u)"
    using seq_file_round_plain [OF r(1) _ _ _ g(1)] r(3) args unfolding u_def nxt_def ws(2) verify_args_def by blast
  have nxt: "unat nxt = unat cur + min (unat e - unat cur) (file_nblocks pa - m)" using r(8) by (simp only: nxt_def)
  have "0 < min (unat e - unat cur) (file_nblocks pa - m)" "unat cur + min (unat e - unat cur) (file_nblocks pa - m) \<le> unat e"
    using cur file_sizes_blocks(2) [OF sz] by (simp_all add: m_def word_less_nat_alt)
  then have lt: "cur < nxt" "nxt \<le> e" using nxt unfolding word_less_nat_alt word_le_nat_alt by linarith+
  have "worker_setup pa ph u" using ws(1) by (simp add: worker_setup_def u_def)
  moreover have "seq_pathFDs pa u = fds" unfolding ws(2) [symmetric] by (simp add: seq_pathFDs_def u_def)
  moreover have "lw_fdVec s \<noteq> []" using ws(1) by (auto simp: worker_setup_def)
  then have "hd (lw_fdVec u) = fds ! (unat cur div file_nblocks pa)" using r(2) by (cases "lw_fdVec s") (simp_all add: u_def)
  moreover have x: "lw_x u = lw_x s" "lw_rand u = lw_rand s" "lw_rwOffsetGen u = g1" by (simp_all add: u_def)
  moreover have "unat len < 2 ^ 63" using r(7) off by linarith
  moreover have "io_bytes pa ios = {unat (pa_fileOffset pa) + m * B ..< unat (pa_fileOffset pa) + (m * B + min ((unat e - unat cur) * B) (S - m * B))}"
    using g(6) r(4,5) by (simp add: ac_simps)
  ultimately have "seq_range_ready pa ph fds (unat e) (unat cur) u len (unat nxt) ios"
    using g(2-5) nxt unfolding seq_range_ready_def Let_def m_def B_def S_def by simp
  then show thesis using that rd x(1) lt by blast
qed

text \<open>The bytes of the blocks from \<open>a\<close> up to \<open>b\<close>, in files \<open>fs\<close>, have the contents for verification.\<close>

definition blocks_verified :: "prog_args \<Rightarrow> int list \<Rightarrow> (int \<Rightarrow> u8 list) \<Rightarrow> nat \<Rightarrow> nat \<Rightarrow> bool" where
  "blocks_verified pa fds fs a b \<longleftrightarrow>
     (\<forall>blk. a \<le> blk \<and> blk < b \<longrightarrow>
        (\<forall>i. blk mod file_nblocks pa * unat (pa_blockSize pa) \<le> i \<and> i < (blk mod file_nblocks pa + 1) * unat (pa_blockSize pa) \<and>
             i < unat (pa_fileSize pa) \<longrightarrow>
           verified_byte (pa_integrityCheckSalt pa) (fs (fds ! (blk div file_nblocks pa))) (unat (pa_fileOffset pa) + i)))"

lemma blocks_verifiedD:
  assumes "blocks_verified pa fds fs a b" "a \<le> blk" "blk < b" "blk mod file_nblocks pa * unat (pa_blockSize pa) \<le> i"
    "i < (blk mod file_nblocks pa + 1) * unat (pa_blockSize pa)" "i < unat (pa_fileSize pa)"
  shows "verified_byte (pa_integrityCheckSalt pa) (fs (fds ! (blk div file_nblocks pa))) (unat (pa_fileOffset pa) + i)"
  using assms unfolding blocks_verified_def by blast

lemma blocks_verified_empty [simp]: "blocks_verified pa fds fs a a"
  by (auto simp: blocks_verified_def)

lemma blocks_verified_split: "a \<le> b \<Longrightarrow> b \<le> c \<Longrightarrow> blocks_verified pa fds fs a c \<longleftrightarrow> blocks_verified pa fds fs a b \<and> blocks_verified pa fds fs b c"
  unfolding blocks_verified_def by (meson le_less_trans le_trans less_le_trans not_le)

lemma blocks_verified_mono:
  assumes "blocks_verified pa fds fs a b"
    and "\<And>fd i. verified_byte (pa_integrityCheckSalt pa) (fs fd) i \<Longrightarrow> verified_byte (pa_integrityCheckSalt pa) (fs' fd) i"
  shows "blocks_verified pa fds fs' a b"
  using assms unfolding blocks_verified_def by blast

lemma ball_shift:
  fixes b l r :: nat
  shows "(\<forall>i \<in> {b + l ..< b + r}. P i) \<longleftrightarrow> (\<forall>i. l \<le> i \<and> i < r \<longrightarrow> P (b + i))"
proof (intro iffI allI impI ballI)
  fix i assume "\<forall>i. l \<le> i \<and> i < r \<longrightarrow> P (b + i)" "i \<in> {b + l ..< b + r}"
  then show "P i" by (elim allE [of _ "i - b"]) auto
qed simp

lemma blocks_verified_range:
  fixes c e :: nat
  assumes "file_sizes_ok pa F"
  defines "m \<equiv> c mod file_nblocks pa" and "B \<equiv> unat (pa_blockSize pa)" and "S \<equiv> unat (pa_fileSize pa)"
  shows "blocks_verified pa fds fs c (c + min (e - c) (file_nblocks pa - m)) \<longleftrightarrow>
    (\<forall>i \<in> {unat (pa_fileOffset pa) + m * B ..< unat (pa_fileOffset pa) + (m * B + min ((e - c) * B) (S - m * B))}.
      verified_byte (pa_integrityCheckSalt pa) (fs (fds ! (c div file_nblocks pa))) i)"
proof -
  have B: "0 < unat (pa_blockSize pa)" "0 < file_nblocks pa"
    using assms(1) file_sizes_blocks(2) [OF assms(1)] by (simp_all add: file_sizes_ok_def word_ne_0_pos)
  let ?b = "unat (pa_fileOffset pa)"
  have shift: "(\<forall>i \<in> {?b + l ..< ?b + r}. P i) \<longleftrightarrow> (\<forall>i. l \<le> i \<and> i < r \<longrightarrow> P (?b + i))" for l r P
    by (rule ball_shift)
  show ?thesis
    unfolding shift m_def B_def S_def blocks_verified_def
    by (rule round_bytes [OF B, of c e "\<lambda>f i. verified_byte (pa_integrityCheckSalt pa) (fs (fds ! f)) (unat (pa_fileOffset pa) + i)"])
qed

lemma range_blocks_verified:
  assumes "file_sizes_ok pa F" "seq_range_ready pa ph fds e cur u len nxt ios"
  shows "blocks_verified pa fds fs cur nxt \<longleftrightarrow> (\<forall>i \<in> io_bytes pa ios. verified_byte (pa_integrityCheckSalt pa) (fs (hd (lw_fdVec u))) i)"
proof -
  have "nxt = cur + min (e - cur) (file_nblocks pa - cur mod file_nblocks pa)" using assms(2) by (simp add: seq_range_ready_def Let_def)
  then show ?thesis using assms(2) unfolding seq_range_ready_def Let_def by (simp only: blocks_verified_range [OF assms(1)])
qed

lemma range_bytes_below:
  assumes "seq_range_ready pa ph fds e cur u len nxt ios" "i \<in> io_bytes pa ios"
  shows "i < unat (pa_fileOffset pa) + unat (pa_fileSize pa)"
proof -
  define m S k where "m = cur mod file_nblocks pa * unat (pa_blockSize pa)" and "S = unat (pa_fileSize pa)" and "k = (e - cur) * unat (pa_blockSize pa)"
  have "m \<le> i - unat (pa_fileOffset pa)" "i < unat (pa_fileOffset pa) + (m + min k (S - m))"
    using assms by (auto simp: seq_range_ready_def Let_def m_def S_def k_def)
  then show ?thesis unfolding S_def by linarith
qed

lemma rw_checked_full:
  assumes "rw s = Some (Inr (sint len), t)" "unat len < 2 ^ 63"
  shows "rw_checked rw w (\<lambda>_. len) s = Some (Inr (), t)"
proof -
  have "sint len \<noteq> -1"
  proof
    assume "sint len = -1"
    moreover have "of_int (sint len) = len" by simp
    ultimately have "len = of_int (-1)" by simp
    then show False using assms(2) by (simp add: unsigned_minus_1_eq_mask mask_eq_exp_minus_1)
  qed
  then show ?thesis using assms(1) by (simp add: rw_checked_def)
qed

lemma call_rw_func_sync:
  assumes "verify_args pa" "worker_setup pa ph s" "ph = BenchPhase_CREATEFILES \<or> ph = BenchPhase_READFILES"
  shows "call_rw_func env k aio pa False ph s = rwBlockSized env k pa False ph s"
proof -
  have "funcRWBlockSized (lw_funcs s) = Some RwBlockSized" using verify_funcs(1,8) [OF assms(1)] assms(2,3) by (auto simp: worker_setup_def)
  then show ?thesis by (simp add: call_rw_func_def)
qed

lemma seq_pathFDs_same: "same_worker s t \<Longrightarrow> seq_pathFDs pa t = seq_pathFDs pa s"
  by (simp add: seq_pathFDs_def same_worker_def)

lemma seq_write_round:
  assumes posix: "posix_files k content" and args: "verify_args pa" and w: "seq_worker pa BenchPhase_CREATEFILES fds s"
    and sz: "file_sizes_ok pa (length fds)" and cur: "cur < e" "unat e \<le> file_nblocks pa * length fds"
  shows "\<exists>nxt t. seq_file_round k (call_rw_func env k aio pa False BenchPhase_CREATEFILES) pa e cur s = Some (Inr nxt, t) \<and>
    cur < nxt \<and> nxt \<le> e \<and> seq_worker pa BenchPhase_CREATEFILES fds t \<and>
    (\<forall>fd i. verified_byte (pa_integrityCheckSalt pa) (content (lw_x s) fd) i \<longrightarrow> verified_byte (pa_integrityCheckSalt pa) (content (lw_x t) fd) i) \<and>
    blocks_verified pa fds (content (lw_x t)) (unat cur) (unat nxt)"
proof -
  let ?rw = "call_rw_func env k aio pa False BenchPhase_CREATEFILES"
  obtain u len nxt ios where r: "seq_file_round k ?rw pa e cur s = map_option (\<lambda>(res, s). (bindE res (\<lambda>_. Inr nxt), s)) (seq_range_io ?rw len u)"
      "lw_x u = lw_x s" "cur < nxt" "nxt \<le> e" "seq_range_ready pa BenchPhase_CREATEFILES fds (unat e) (unat cur) u len (unat nxt) ios"
    by (rule seq_round_start [OF args w sz cur, of k ?rw])
  note u = r(5) [unfolded seq_range_ready_def Let_def]
  then obtain g' rs' where dr: "gen_drain (lw_rwOffsetGen u) (lw_rand u) = Some (Inr (ios, g', rs'))" by blast
  have u: "worker_setup pa BenchPhase_CREATEFILES u" "seq_gen_ok pa (lw_rwOffsetGen u)" "seq_pathFDs pa u = fds" "ios_ok pa ios"
    "gen_getNumBytesTotal (lw_rwOffsetGen u) = len" "unat len < 2 ^ 63" "hd (lw_fdVec u) = fds ! (unat cur div file_nblocks pa)"
    using u by blast+
  have bytes: "blocks_verified pa fds fs (unat cur) (unat nxt) \<longleftrightarrow>
      (\<forall>i \<in> io_bytes pa ios. verified_byte (pa_integrityCheckSalt pa) (fs (hd (lw_fdVec u))) i)" for fs
    by (rule range_blocks_verified [OF sz r(5)])
  obtain t where t: "rwBlockSized env k pa False BenchPhase_CREATEFILES u = Some (Inr (sint len), t)" "same_worker u t"
    "gen_like (lw_rwOffsetGen u) (lw_rwOffsetGen t)"
    "\<forall>fd i. verified_byte (pa_integrityCheckSalt pa) (content (lw_x u) fd) i \<or> fd = hd (lw_fdVec u) \<and> i \<in> io_bytes pa ios \<longrightarrow>
      verified_byte (pa_integrityCheckSalt pa) (content (lw_x t) fd) i"
    using write_range [OF posix args u(1) dr u(4), of env] u(5) by blast
  have wt: "worker_setup pa BenchPhase_CREATEFILES t" using worker_setup_same [OF u(1) t(2)] .
  have "?rw u = Some (Inr (sint len), t)" using t(1) call_rw_func_sync [OF args u(1)] by simp
  then have "rw_checked ?rw True (\<lambda>_. len) u = Some (Inr (), t)" using u(6) by (rule rw_checked_full)
  then have "seq_range_io ?rw len u = Some (Inr (), t)"
    using u(1) wt by (simp add: seq_range_io_def worker_setup_def)
  then have rd: "seq_file_round k ?rw pa e cur s = Some (Inr nxt, t)" unfolding r(1) by simp
  have "seq_worker pa BenchPhase_CREATEFILES fds t"
    using wt seq_gen_ok_like [OF u(2) t(3)] seq_pathFDs_same [OF t(2)] u(3) by (simp add: seq_worker_def)
  moreover have "blocks_verified pa fds (content (lw_x t)) (unat cur) (unat nxt)"
    unfolding bytes using t(4) by blast
  moreover have "\<forall>fd i. verified_byte (pa_integrityCheckSalt pa) (content (lw_x s) fd) i \<longrightarrow> verified_byte (pa_integrityCheckSalt pa) (content (lw_x t) fd) i"
    using t(4) unfolding r(2) by blast
  ultimately show ?thesis using r(3,4) rd by (intro exI [of _ nxt] exI [of _ t] conjI)
qed

lemma seq_read_round:
  assumes posix: "posix_files k content" and args: "verify_args pa" and w: "seq_worker pa BenchPhase_READFILES fds s"
    and sz: "file_sizes_ok pa (length fds)" and cur: "cur < e" "unat e \<le> file_nblocks pa * length fds"
    and len: "\<forall>fd \<in> set fds. unat (pa_fileOffset pa) + unat (pa_fileSize pa) \<le> length (content (lw_x s) fd)"
  shows "\<exists>nxt t. seq_file_round k (call_rw_func env k aio pa False BenchPhase_READFILES) pa e cur s =
      Some (if blocks_verified pa fds (content (lw_x s)) (unat cur) (unat nxt) then Inr nxt else Inl (WorkerException ''Data verification failed. ''), t) \<and>
    cur < nxt \<and> nxt \<le> e \<and> content (lw_x t) = content (lw_x s) \<and>
    (blocks_verified pa fds (content (lw_x s)) (unat cur) (unat nxt) \<longrightarrow> seq_worker pa BenchPhase_READFILES fds t)"
proof -
  let ?rw = "call_rw_func env k aio pa False BenchPhase_READFILES"
  obtain u len nxt ios where r: "seq_file_round k ?rw pa e cur s = map_option (\<lambda>(res, s). (bindE res (\<lambda>_. Inr nxt), s)) (seq_range_io ?rw len u)"
      "lw_x u = lw_x s" "cur < nxt" "nxt \<le> e" "seq_range_ready pa BenchPhase_READFILES fds (unat e) (unat cur) u len (unat nxt) ios"
    by (rule seq_round_start [OF args w sz cur, of k ?rw])
  note u = r(5) [unfolded seq_range_ready_def Let_def]
  then obtain g' rs' where dr: "gen_drain (lw_rwOffsetGen u) (lw_rand u) = Some (Inr (ios, g', rs'))" by blast
  have u: "worker_setup pa BenchPhase_READFILES u" "seq_gen_ok pa (lw_rwOffsetGen u)" "seq_pathFDs pa u = fds" "ios_ok pa ios"
    "gen_getNumBytesTotal (lw_rwOffsetGen u) = len" "unat len < 2 ^ 63" "hd (lw_fdVec u) = fds ! (unat cur div file_nblocks pa)"
    using u by blast+
  have bytes: "blocks_verified pa fds fs (unat cur) (unat nxt) \<longleftrightarrow>
      (\<forall>i \<in> io_bytes pa ios. verified_byte (pa_integrityCheckSalt pa) (fs (hd (lw_fdVec u))) i)" for fs
    by (rule range_blocks_verified [OF sz r(5)])
  let ?ok = "blocks_verified pa fds (content (lw_x s)) (unat cur) (unat nxt)"
  have "unat cur < length fds * file_nblocks pa" using cur by (simp add: word_less_nat_alt mult.commute)
  then have "unat cur div file_nblocks pa < length fds" by (rule less_mult_imp_div_less)
  then have "hd (lw_fdVec u) \<in> set fds" using u(7) by simp
  then have "unat (pa_fileOffset pa) + unat (pa_fileSize pa) \<le> length (content (lw_x u) (hd (lw_fdVec u)))" using len r(2) by simp
  then have l: "\<forall>i \<in> io_bytes pa ios. i < length (content (lw_x u) (hd (lw_fdVec u)))" 
    by (intro ballI order_less_le_trans [OF range_bytes_below [OF r(5)]])
  have ok: "(\<forall>i \<in> io_bytes pa ios. verified_byte (pa_integrityCheckSalt pa) (content (lw_x u) (hd (lw_fdVec u))) i) \<longleftrightarrow> ?ok"
    unfolding r(2) by (rule bytes [symmetric])
  obtain t where t: "rwBlockSized env k pa False BenchPhase_READFILES u =
      Some (if ?ok then Inr (sint len) else Inl (WorkerException ''Data verification failed. ''), t)" "same_worker u t"
    "content (lw_x t) = content (lw_x u)" "?ok \<longrightarrow> gen_like (lw_rwOffsetGen u) (lw_rwOffsetGen t)"
    using read_range [OF posix args u(1) dr u(4) l, of env] u(5) unfolding ok by blast
  have wt: "worker_setup pa BenchPhase_READFILES t" using worker_setup_same [OF u(1) t(2)] .
  have rw: "?rw u = Some (if ?ok then Inr (sint len) else Inl (WorkerException ''Data verification failed. ''), t)"
    using t(1) call_rw_func_sync [OF args u(1)] by simp
  have "rw_checked ?rw False (\<lambda>_. len) u = Some (if ?ok then Inr () else Inl (WorkerException ''Data verification failed. ''), t)"
    using rw rw_checked_full [of ?rw u len t False, OF _ u(6)] by (cases ?ok) (simp_all add: rw_checked_def)
  then have "seq_range_io ?rw len u = Some (if ?ok then Inr () else Inl (WorkerException ''Data verification failed. ''), t)"
    using u(1) by (simp add: seq_range_io_def worker_setup_def)
  then have rd: "seq_file_round k ?rw pa e cur s = Some (if ?ok then Inr nxt else Inl (WorkerException ''Data verification failed. ''), t)"
    unfolding r(1) by simp
  have "?ok \<longrightarrow> seq_worker pa BenchPhase_READFILES fds t"
    using wt seq_gen_ok_like [OF u(2)] t(4) seq_pathFDs_same [OF t(2)] u(3) by (simp add: seq_worker_def)
  moreover have "content (lw_x t) = content (lw_x s)" using t(3) r(2) by simp
  ultimately show ?thesis using r(3,4) rd by (intro exI [of _ nxt] exI [of _ t] conjI)
qed

lemma seq_write_share:
  assumes posix: "posix_files k content" and args: "verify_args pa" and w: "seq_worker pa BenchPhase_CREATEFILES fds s"
    and sz: "file_sizes_ok pa (length fds)" and e: "st \<le> e" "unat e \<le> file_nblocks pa * length fds"
  shows "\<exists>t. seq_files_loop k (call_rw_func env k aio pa False BenchPhase_CREATEFILES) pa e st s = Some (Inr (), t) \<and>
    (\<forall>fd i. verified_byte (pa_integrityCheckSalt pa) (content (lw_x s) fd) i \<longrightarrow> verified_byte (pa_integrityCheckSalt pa) (content (lw_x t) fd) i) \<and>
    blocks_verified pa fds (content (lw_x t)) (unat st) (unat e)"
proof -
  let ?V = "\<lambda>u fd i. verified_byte (pa_integrityCheckSalt pa) (content (lw_x u) fd) i"
  define P where "P c u \<longleftrightarrow> unat st \<le> c \<and> seq_worker pa BenchPhase_CREATEFILES fds u \<and> (\<forall>fd i. ?V s fd i \<longrightarrow> ?V u fd i) \<and>
    blocks_verified pa fds (content (lw_x u)) (unat st) c" for c u
  have "\<exists>res t. seq_files_loop k (call_rw_func env k aio pa False BenchPhase_CREATEFILES) pa e st s = Some (res, t) \<and>
      (case res of Inl ex \<Rightarrow> False | Inr _ \<Rightarrow> P (unat e) t)"
  proof (rule seq_files_loop_inv)
    show "P (unat st) s" using w by (simp add: P_def)
  next
    fix cur u assume p: "P (unat cur) u" and cur: "cur < e"
    obtain nxt t where t: "seq_file_round k (call_rw_func env k aio pa False BenchPhase_CREATEFILES) pa e cur u = Some (Inr nxt, t)"
      "cur < nxt" "nxt \<le> e" "seq_worker pa BenchPhase_CREATEFILES fds t" "\<forall>fd i. ?V u fd i \<longrightarrow> ?V t fd i"
      "blocks_verified pa fds (content (lw_x t)) (unat cur) (unat nxt)"
      using seq_write_round [OF posix args _ sz cur e(2), of u env aio] p unfolding P_def by blast
    have "blocks_verified pa fds (content (lw_x t)) (unat st) (unat cur)"
      using p t(5) blocks_verified_mono [of pa fds "content (lw_x u)" _ _ "content (lw_x t)"] unfolding P_def by blast
    moreover have "unat st \<le> unat cur" "unat cur \<le> unat nxt" using p t(2) by (simp_all add: P_def word_less_nat_alt)
    ultimately have "P (unat nxt) t" using p t(4-6) blocks_verified_split [of "unat st" "unat cur" "unat nxt"] unfolding P_def by auto
    then show "\<exists>res t. seq_file_round k (call_rw_func env k aio pa False BenchPhase_CREATEFILES) pa e cur u = Some (res, t) \<and>
        (case res of Inl ex \<Rightarrow> False | Inr nxt \<Rightarrow> cur < nxt \<and> nxt \<le> e \<and> P (unat nxt) t)"
      using t(1-3) by (intro exI [of _ "Inr nxt"] exI [of _ t]) simp
  qed (rule e(1))
  then obtain res t where "seq_files_loop k (call_rw_func env k aio pa False BenchPhase_CREATEFILES) pa e st s = Some (res, t)"
    "case res of Inl ex \<Rightarrow> False | Inr _ \<Rightarrow> P (unat e) t" by blast
  then show ?thesis by (intro exI [of _ t]) (cases res; auto simp: P_def)
qed

lemma seq_read_share:
  assumes posix: "posix_files k content" and args: "verify_args pa" and w: "seq_worker pa BenchPhase_READFILES fds s"
    and sz: "file_sizes_ok pa (length fds)" and e: "st \<le> e" "unat e \<le> file_nblocks pa * length fds"
    and len: "\<forall>fd \<in> set fds. unat (pa_fileOffset pa) + unat (pa_fileSize pa) \<le> length (content (lw_x s) fd)"
  shows "\<exists>t. seq_files_loop k (call_rw_func env k aio pa False BenchPhase_READFILES) pa e st s =
      Some (if blocks_verified pa fds (content (lw_x s)) (unat st) (unat e) then Inr () else Inl (WorkerException ''Data verification failed. ''), t) \<and>
    content (lw_x t) = content (lw_x s)"
proof -
  let ?bv = "blocks_verified pa fds (content (lw_x s))" and ?ex = "WorkerException ''Data verification failed. ''"
  define P where "P c u \<longleftrightarrow> unat st \<le> c \<and> seq_worker pa BenchPhase_READFILES fds u \<and> content (lw_x u) = content (lw_x s) \<and> ?bv (unat st) c" for c u
  have "\<exists>res t. seq_files_loop k (call_rw_func env k aio pa False BenchPhase_READFILES) pa e st s = Some (res, t) \<and>
      (case res of Inl ex \<Rightarrow> ex = ?ex \<and> \<not> ?bv (unat st) (unat e) \<and> content (lw_x t) = content (lw_x s) | Inr _ \<Rightarrow> P (unat e) t)"
  proof (rule seq_files_loop_inv)
    show "P (unat st) s" using w by (simp add: P_def)
  next
    fix cur u assume p: "P (unat cur) u" and cur: "cur < e"
    then have c: "content (lw_x u) = content (lw_x s)" "seq_worker pa BenchPhase_READFILES fds u" "unat st \<le> unat cur" "?bv (unat st) (unat cur)"
      by (simp_all add: P_def)
    obtain nxt t where t: "seq_file_round k (call_rw_func env k aio pa False BenchPhase_READFILES) pa e cur u =
        Some (if ?bv (unat cur) (unat nxt) then Inr nxt else Inl ?ex, t)"
      "cur < nxt" "nxt \<le> e" "content (lw_x t) = content (lw_x s)" "?bv (unat cur) (unat nxt) \<longrightarrow> seq_worker pa BenchPhase_READFILES fds t"
      using seq_read_round [OF posix args c(2) sz cur e(2), of env aio] len unfolding c(1) by blast
    have le: "unat cur \<le> unat nxt" "unat nxt \<le> unat e" using t(2,3) by (simp_all add: word_less_nat_alt word_le_nat_alt)
    show "\<exists>res t. seq_file_round k (call_rw_func env k aio pa False BenchPhase_READFILES) pa e cur u = Some (res, t) \<and>
        (case res of Inl ex \<Rightarrow> ex = ?ex \<and> \<not> ?bv (unat st) (unat e) \<and> content (lw_x t) = content (lw_x s)
         | Inr nxt \<Rightarrow> cur < nxt \<and> nxt \<le> e \<and> P (unat nxt) t)"
    proof (cases "?bv (unat cur) (unat nxt)")
      case True
      then have "P (unat nxt) t" using t(4,5) c le(1) blocks_verified_split [of "unat st" "unat cur" "unat nxt"] by (simp add: P_def)
      then show ?thesis using t(1-3) True by (intro exI [of _ "Inr nxt"] exI [of _ t]) simp
    next
      case False
      then have "\<not> ?bv (unat st) (unat e)"
        using c(3) le blocks_verified_split [of "unat st" "unat cur" "unat e"] blocks_verified_split [of "unat cur" "unat nxt" "unat e"] by auto
      then show ?thesis using t(1,4) False by (intro exI [of _ "Inl ?ex"] exI [of _ t]) simp
    qed
  qed (rule e(1))
  then obtain res t where r: "seq_files_loop k (call_rw_func env k aio pa False BenchPhase_READFILES) pa e st s = Some (res, t)"
    "case res of Inl ex \<Rightarrow> ex = ?ex \<and> \<not> ?bv (unat st) (unat e) \<and> content (lw_x t) = content (lw_x s) | Inr _ \<Rightarrow> P (unat e) t" by blast
  then show ?thesis by (intro exI [of _ t]) (cases res; auto simp: P_def)
qed

subsection \<open>A phase\<close>

text \<open>
  Arguments of a sequential phase with verification over files with the given descriptors, and a worker with shared descriptors and
  a buffer of one block.
\<close>

definition phase_args :: "prog_args \<Rightarrow> int list \<Rightarrow> bool" where
  "phase_args pa fds \<longleftrightarrow>
     verify_args pa \<and> file_sizes_ok pa (length fds) \<and> pa_numDataSetThreads pa \<noteq> 0 \<and> pa_benchPathType pa \<noteq> BenchPathType_DIR \<and>
     \<not> pa_useRandomOffsets pa \<and> \<not> pa_useStridedAccess pa \<and> pa_benchPathFDsVec pa = fds \<and>
     mix_ok (pa_blockSizeMix pa) \<and> maxSize (pa_blockSizeMix pa) \<le> pa_blockSize pa \<and>
     pa_blockVarianceAlgo pa \<in> set [''strong'', ''balanced_single'', ''balanced'', ''fast''] \<and>
     pa_randOffsetAlgo pa \<in> set [[], ''strong'', ''balanced_single'', ''balanced'', ''fast'']"

definition phase_worker :: "prog_args \<Rightarrow> 'x lw_state \<Rightarrow> bool" where
  "phase_worker pa w \<longleftrightarrow> lw_threadFDVec w = [] \<and> length (lw_ioBuf w) = unat (pa_blockSize pa) \<and> unat (lw_workerRank w) < unat (pa_numDataSetThreads pa)"

lemma stringToAlgo_named: "a \<in> set [''strong'', ''balanced_single'', ''balanced'', ''fast''] \<Longrightarrow> \<exists>ra. rand_stringToAlgo a rd = Inr ra"
  by (auto simp: rand_stringToAlgo_def)

lemma initPhaseRWOffsetGen_seq:
  assumes "phase_args pa fds"
  shows "\<exists>s'. initPhaseRWOffsetGen pa ph rd1 rd2 rd3 s = (Inr (), s') \<and> seq_gen_ok pa (lw_rwOffsetGen s') \<and>
    lw_workerRank s' = lw_workerRank s \<and> lw_x s' = lw_x s \<and> lw_threadFDVec s' = lw_threadFDVec s \<and> lw_fdVec s' = lw_fdVec s \<and>
    lw_ioBuf s' = lw_ioBuf s \<and> lw_benchPhase s' = lw_benchPhase s"
proof -
  let ?oa = "if pa_randOffsetAlgo pa = [] then ''balanced_single'' else pa_randOffsetAlgo pa"
  have oa: "?oa \<in> set [''strong'', ''balanced_single'', ''balanced'', ''fast'']" using assms by (auto simp: phase_args_def)
  obtain ra rb where a: "rand_stringToAlgo (pa_blockVarianceAlgo pa) rd1 = Inr ra" "rand_stringToAlgo ?oa rd3 = Inr rb"
    using assms stringToAlgo_named [OF oa, of rd3] stringToAlgo_named [of "pa_blockVarianceAlgo pa" rd1] unfolding phase_args_def by blast
  have "pa_blockSize pa \<noteq> 0" using assms by (simp add: phase_args_def file_sizes_ok_def)
  then obtain g where g: "rev_new (pa_fileSize pa) 0 (pa_blockSize pa) = Inr g" "rv_blockSize g = pa_blockSize pa" using rev_new_Inr by blast
  have m: "pa_benchPathType pa \<noteq> BenchPathType_DIR" "pa_numDataSetThreads pa \<noteq> 0" "\<not> pa_useRandomOffsets pa" "\<not> pa_useStridedAccess pa"
    "mix_ok (pa_blockSizeMix pa)" "maxSize (pa_blockSizeMix pa) \<le> pa_blockSize pa" using assms by (simp_all add: phase_args_def)
  show ?thesis
  proof (cases "pa_doReverseSeqOffsets pa")
    case True
    then show ?thesis unfolding initPhaseRWOffsetGen_def Let_def using a g m by simp
  next
    case False
    then show ?thesis unfolding initPhaseRWOffsetGen_def Let_def getS3ModeDoReverseSeqFallback_def using a m by (simp add: seq_new_def)
  qed
qed

lemma run_file_phase_seq:
  assumes pa: "phase_args pa fds" and w: "phase_worker pa w" and ph: "ph = BenchPhase_CREATEFILES \<or> ph = BenchPhase_READFILES"
  obtains s where "run_file_phase env k aio pa False rd ph w = fileModeIterateFilesSeq env k aio pa False ph s"
    "seq_worker pa ph fds s" "lw_workerRank s = lw_workerRank w" "lw_x s = lw_x w"
proof -
  let ?w = "initPhaseFileHandleVecs pa False (initThreadPhaseVars pa ph w)"
  have args: "verify_args pa" "pa_benchPathType pa \<noteq> BenchPathType_DIR" "\<not> pa_useRandomOffsets pa" "\<not> pa_useStridedAccess pa" "pa_benchPathFDsVec pa = fds"
    using pa by (simp_all add: phase_args_def)
  obtain s where s: "initPhaseRWOffsetGen pa ph (fst rd) (fst (snd rd)) (snd (snd rd)) ?w = (Inr (), s)" "seq_gen_ok pa (lw_rwOffsetGen s)"
    "lw_workerRank s = lw_workerRank ?w" "lw_x s = lw_x ?w" "lw_threadFDVec s = lw_threadFDVec ?w" "lw_fdVec s = lw_fdVec ?w"
    "lw_ioBuf s = lw_ioBuf ?w" "lw_benchPhase s = lw_benchPhase ?w"
    using initPhaseRWOffsetGen_seq [OF pa, of ph "fst rd" "fst (snd rd)" "snd (snd rd)" ?w] by blast
  have f: "lw_workerRank ?w = lw_workerRank w" "lw_x ?w = lw_x w" "lw_threadFDVec ?w = []" "lw_fdVec ?w = [-1]" "lw_benchPhase ?w = ph"
    "length (lw_ioBuf ?w) = unat (pa_blockSize pa)"
    using args w by (simp_all add: initPhaseFileHandleVecs_def initThreadPhaseVars_def Let_def phase_worker_def verify_args_def)
  have lim: "snd (initPhaseFunctionPointers pa False ph ph) = None"
    using args(1) ph by (auto simp: verify_args_def initPhaseFunctionPointers_def init_write_funcs_def init_read_funcs_def Let_def)
  define s' where "s' = s\<lparr>lw_funcs := fst (initPhaseFunctionPointers pa False ph ph)\<rparr>"
  have "run_file_phase env k aio pa False rd ph w = fileModeIterateFilesSeq env k aio pa False ph s'"
    unfolding run_file_phase_def Let_def s(1) using args(3,4) lim s(8) f(5) by (simp add: s'_def split_beta)
  moreover have "seq_worker pa ph fds s'"
    using s f args(1,5) by (simp add: s'_def seq_worker_def worker_setup_def seq_pathFDs_def verify_args_def)
  moreover have "lw_workerRank s' = lw_workerRank w" "lw_x s' = lw_x w" using s(3,4) f(1,2) by (simp_all add: s'_def)
  ultimately show thesis using that by blast
qed

text \<open>The share of a worker as numbers of blocks.\<close>

definition share_start :: "prog_args \<Rightarrow> int list \<Rightarrow> 'x lw_state \<Rightarrow> nat" where
  "share_start pa fds w = unat (fst (seq_worker_blocks (lw_workerRank w) (pa_numDataSetThreads pa) (seq_numBlocksPerFile pa * of_nat (length fds))))"

definition share_end :: "prog_args \<Rightarrow> int list \<Rightarrow> 'x lw_state \<Rightarrow> nat" where
  "share_end pa fds w = unat (snd (seq_worker_blocks (lw_workerRank w) (pa_numDataSetThreads pa) (seq_numBlocksPerFile pa * of_nat (length fds))))"

lemma blocks_total:
  assumes "file_sizes_ok pa F"
  shows "unat (seq_numBlocksPerFile pa * of_nat F) = file_nblocks pa * F"
proof -
  note nb = file_sizes_blocks [OF assms]
  have "1 * F \<le> file_nblocks pa * F" using nb(2) by (intro mult_le_mono1) simp
  from le_less_trans [OF this nb(4)] have "F < W64" by simp
  then have "unat (of_nat F :: u64) = F" by (rule unat_of_nat_no)
  then show ?thesis using nb(1,4) by (subst unat_mult_no) simp_all
qed

lemma rank_share:
  assumes "unat r < unat T"
  shows "unat (fst (seq_worker_blocks r T N)) \<le> unat N" "unat (snd (seq_worker_blocks r T N)) \<le> unat N"
proof -
  let ?q = "unat N div unat T"
  have r: "of_nat (unat r) = r" by simp
  have "(unat r + 1) * ?q \<le> unat T * ?q" using assms by (intro mult_le_mono1) simp
  also have "\<dots> \<le> unat N" by simp
  finally have le: "(unat r + 1) * ?q \<le> unat N" .
  then show "unat (fst (seq_worker_blocks r T N)) \<le> unat N" "unat (snd (seq_worker_blocks r T N)) \<le> unat N"
    using worker_blocks_unat [OF assms, of N] unfolding r by (simp_all add: algebra_simps)
qed

lemma iterate_share:
  assumes "phase_args pa fds" "seq_pathFDs pa s = fds"
  defines "st \<equiv> fst (seq_worker_blocks (lw_workerRank s) (pa_numDataSetThreads pa) (seq_numBlocksPerFile pa * of_nat (length fds)))"
    and "e \<equiv> snd (seq_worker_blocks (lw_workerRank s) (pa_numDataSetThreads pa) (seq_numBlocksPerFile pa * of_nat (length fds)))"
  shows "fileModeIterateFilesSeq env k aio pa j ph s =
    (if e \<le> st then Some (Inr (), s\<lparr>lw_workerGotPhaseWork := False\<rparr>) else seq_files_loop k (call_rw_func env k aio pa j ph) pa e st s)"
  using assms(1,2) unfolding st_def e_def by (simp add: fileModeIterateFilesSeq_def phase_args_def file_sizes_ok_def Let_def split_beta)

lemma blocks_verified_none: "b \<le> a \<Longrightarrow> blocks_verified pa fds fs a b"
  by (auto simp: blocks_verified_def)

lemma write_worker:
  assumes posix: "posix_files k content" and pa: "phase_args pa fds" and w: "phase_worker pa w"
  shows "\<exists>t. run_file_phase env k aio pa False rd BenchPhase_CREATEFILES w = Some (Inr (), t) \<and>
    (\<forall>fd i. verified_byte (pa_integrityCheckSalt pa) (content (lw_x w) fd) i \<longrightarrow> verified_byte (pa_integrityCheckSalt pa) (content (lw_x t) fd) i) \<and>
    blocks_verified pa fds (content (lw_x t)) (share_start pa fds w) (share_end pa fds w)"
proof -
  obtain s where s: "run_file_phase env k aio pa False rd BenchPhase_CREATEFILES w = fileModeIterateFilesSeq env k aio pa False BenchPhase_CREATEFILES s"
    "seq_worker pa BenchPhase_CREATEFILES fds s" "lw_workerRank s = lw_workerRank w" "lw_x s = lw_x w"
    using run_file_phase_seq [OF pa w, of BenchPhase_CREATEFILES env k aio rd] by blast
  have p: "verify_args pa" "file_sizes_ok pa (length fds)" "seq_pathFDs pa s = fds" using pa s(2) by (simp_all add: phase_args_def seq_worker_def)
  let ?sh = "seq_worker_blocks (lw_workerRank w) (pa_numDataSetThreads pa) (seq_numBlocksPerFile pa * of_nat (length fds))"
  have e: "unat (snd ?sh) \<le> file_nblocks pa * length fds"
    using rank_share(2) w unfolding phase_worker_def blocks_total [OF p(2), symmetric] by blast
  show ?thesis
  proof (cases "snd ?sh \<le> fst ?sh")
    case True
    then have "share_end pa fds w \<le> share_start pa fds w" by (simp add: share_end_def share_start_def word_le_nat_alt)
    moreover have "run_file_phase env k aio pa False rd BenchPhase_CREATEFILES w = Some (Inr (), s\<lparr>lw_workerGotPhaseWork := False\<rparr>)"
      unfolding s(1) iterate_share [OF pa p(3)] using True s(3) by simp
    ultimately show ?thesis using s(4) by (simp add: blocks_verified_none)
  next
    case False
    then have "fst ?sh \<le> snd ?sh" by simp
    from seq_write_share [OF posix p(1) s(2) p(2) this e, of env aio] show ?thesis
      unfolding s(1) iterate_share [OF pa p(3)] share_start_def share_end_def using False s(3,4) by simp
  qed
qed

lemma read_worker:
  assumes posix: "posix_files k content" and pa: "phase_args pa fds" and w: "phase_worker pa w"
    and len: "\<forall>fd \<in> set fds. unat (pa_fileOffset pa) + unat (pa_fileSize pa) \<le> length (content (lw_x w) fd)"
  shows "\<exists>t. run_file_phase env k aio pa False rd BenchPhase_READFILES w =
      Some (if blocks_verified pa fds (content (lw_x w)) (share_start pa fds w) (share_end pa fds w) then Inr ()
            else Inl (WorkerException ''Data verification failed. ''), t) \<and>
    content (lw_x t) = content (lw_x w)"
proof -
  obtain s where s: "run_file_phase env k aio pa False rd BenchPhase_READFILES w = fileModeIterateFilesSeq env k aio pa False BenchPhase_READFILES s"
    "seq_worker pa BenchPhase_READFILES fds s" "lw_workerRank s = lw_workerRank w" "lw_x s = lw_x w"
    using run_file_phase_seq [OF pa w, of BenchPhase_READFILES env k aio rd] by blast
  have p: "verify_args pa" "file_sizes_ok pa (length fds)" "seq_pathFDs pa s = fds" using pa s(2) by (simp_all add: phase_args_def seq_worker_def)
  let ?sh = "seq_worker_blocks (lw_workerRank w) (pa_numDataSetThreads pa) (seq_numBlocksPerFile pa * of_nat (length fds))"
  have e: "unat (snd ?sh) \<le> file_nblocks pa * length fds"
    using rank_share(2) w unfolding phase_worker_def blocks_total [OF p(2), symmetric] by blast
  show ?thesis
  proof (cases "snd ?sh \<le> fst ?sh")
    case True
    then have "share_end pa fds w \<le> share_start pa fds w" by (simp add: share_end_def share_start_def word_le_nat_alt)
    moreover have "run_file_phase env k aio pa False rd BenchPhase_READFILES w = Some (Inr (), s\<lparr>lw_workerGotPhaseWork := False\<rparr>)"
      unfolding s(1) iterate_share [OF pa p(3)] using True s(3) by simp
    ultimately show ?thesis using s(4) by (simp add: blocks_verified_none)
  next
    case False
    then have "fst ?sh \<le> snd ?sh" by simp
    from seq_read_share [OF posix p(1) s(2) p(2) this e, of env aio] len show ?thesis
      unfolding s(1) iterate_share [OF pa p(3)] share_start_def share_end_def using False s(3,4) by simp
  qed
qed

subsection \<open>All workers of a phase\<close>

text \<open>Every byte of the range of every file has the contents for verification.\<close>

definition files_verified :: "prog_args \<Rightarrow> int list \<Rightarrow> (int \<Rightarrow> u8 list) \<Rightarrow> bool" where
  "files_verified pa fds fs \<longleftrightarrow>
     (\<forall>fd \<in> set fds. \<forall>i < unat (pa_fileSize pa). verified_byte (pa_integrityCheckSalt pa) (fs fd) (unat (pa_fileOffset pa) + i))"

text \<open>Workers of which each rank of the data set has at least one.\<close>

definition full_team :: "prog_args \<Rightarrow> 'x lw_state list \<Rightarrow> bool" where
  "full_team pa ws \<longleftrightarrow> (\<forall>w \<in> set ws. phase_worker pa w) \<and> (\<lambda>w. unat (lw_workerRank w)) ` set ws = {..<unat (pa_numDataSetThreads pa)}"

lemma blocks_all_verified:
  assumes "file_sizes_ok pa (length fds)"
  shows "blocks_verified pa fds fs 0 (file_nblocks pa * length fds) \<longleftrightarrow> files_verified pa fds fs"
proof -
  let ?nb = "file_nblocks pa" and ?B = "unat (pa_blockSize pa)"
  have B: "0 < ?B" "0 < ?nb" using assms file_sizes_blocks(2) [OF assms] by (simp_all add: file_sizes_ok_def word_ne_0_pos)
  show ?thesis
  proof
    assume l: "blocks_verified pa fds fs 0 (?nb * length fds)"
    show "files_verified pa fds fs"
      unfolding files_verified_def
    proof (intro ballI allI impI)
      fix fd i assume "fd \<in> set fds" and i: "i < unat (pa_fileSize pa)"
      then obtain f where f: "f < length fds" "fd = fds ! f" by (auto simp: in_set_conv_nth)
      have "i div ?B * ?B < unat (pa_fileSize pa)" using i by (meson div_times_less_eq_dividend le_less_trans)
      then have j: "i div ?B < ?nb" using B(1) by (simp add: blocks_of_less)
      define b where "b = f * ?nb + i div ?B"
      have b: "b div ?nb = f" "b mod ?nb = i div ?B" using j by (simp_all add: b_def)
      have "(f + 1) * ?nb \<le> length fds * ?nb" using f(1) by (intro mult_le_mono1) simp
      then have "f * ?nb + ?nb \<le> ?nb * length fds" by (simp add: mult.commute)
      then have lt: "b < ?nb * length fds" using j unfolding b_def by linarith
      have "i div ?B * ?B \<le> i" "i < (i div ?B + 1) * ?B" using B(1) by (simp_all add: dividend_less_div_times add.commute)
      then show "verified_byte (pa_integrityCheckSalt pa) (fs fd) (unat (pa_fileOffset pa) + i)"
        using blocks_verifiedD [OF l le0 lt, of i] i unfolding b f(2) by blast
    qed
  next
    assume r: "files_verified pa fds fs"
    have "fds ! (b div ?nb) \<in> set fds" if "b < ?nb * length fds" for b
      using that by (simp add: less_mult_imp_div_less mult.commute)
    then show "blocks_verified pa fds fs 0 (?nb * length fds)" using r unfolding blocks_verified_def files_verified_def by blast
  qed
qed

lemma blocks_verified_part: "e \<le> n \<Longrightarrow> blocks_verified pa fds fs 0 n \<Longrightarrow> blocks_verified pa fds fs st e"
  by (simp add: blocks_verified_def)

lemma blocks_verified_cover:
  assumes "\<And>b. b < n \<Longrightarrow> \<exists>w \<in> W. f w \<le> b \<and> b < g w" "\<forall>w \<in> W. blocks_verified pa fds fs (f w) (g w)"
  shows "blocks_verified pa fds fs 0 n"
  unfolding blocks_verified_def
proof (intro allI impI)
  fix b i
  assume b: "0 \<le> b \<and> b < n" and i: "b mod file_nblocks pa * unat (pa_blockSize pa) \<le> i \<and>
    i < (b mod file_nblocks pa + 1) * unat (pa_blockSize pa) \<and> i < unat (pa_fileSize pa)"
  obtain w where "w \<in> W" "f w \<le> b \<and> b < g w" using assms(1) b by blast
  then show "verified_byte (pa_integrityCheckSalt pa) (fs (fds ! (b div file_nblocks pa))) (unat (pa_fileOffset pa) + i)"
    using assms(2) i unfolding blocks_verified_def by blast
qed

lemma shares_cover_blocks:
  assumes pa: "phase_args pa fds" and team: "full_team pa ws"
  shows "(\<forall>w \<in> set ws. blocks_verified pa fds fs (share_start pa fds w) (share_end pa fds w)) \<longleftrightarrow> files_verified pa fds fs"
proof -
  let ?T = "pa_numDataSetThreads pa" and ?N = "seq_numBlocksPerFile pa * of_nat (length fds)"
  have sz: "file_sizes_ok pa (length fds)" and T: "?T \<noteq> 0" using pa by (simp_all add: phase_args_def)
  note N = blocks_total [OF sz]
  have "blocks_verified pa fds fs 0 (unat ?N)"
    if all: "\<forall>w \<in> set ws. blocks_verified pa fds fs (share_start pa fds w) (share_end pa fds w)"
  proof -
    have "\<exists>w \<in> set ws. share_start pa fds w \<le> b \<and> b < share_end pa fds w" if lt: "b < unat ?N" for b
    proof -
      obtain r where r: "r < unat ?T" "unat (fst (seq_worker_blocks (of_nat r) ?T ?N)) \<le> b" "b < unat (snd (seq_worker_blocks (of_nat r) ?T ?N))"
        using seq_shares_partition [OF T lt] by blast
      then obtain w where w: "w \<in> set ws" "r = unat (lw_workerRank w)" using team unfolding full_team_def by blast
      then show ?thesis using r by (intro bexI [of _ w]) (simp_all add: share_start_def share_end_def)
    qed
    then show ?thesis using all by (rule blocks_verified_cover)
  qed
  moreover have "blocks_verified pa fds fs (share_start pa fds w) (share_end pa fds w)"
    if all: "blocks_verified pa fds fs 0 (unat ?N)" and w: "w \<in> set ws" for w
  proof -
    have "share_end pa fds w \<le> unat ?N"
      using rank_share(2) w team unfolding full_team_def phase_worker_def share_end_def by blast
    then show ?thesis using all by (rule blocks_verified_part)
  qed
  ultimately show ?thesis unfolding blocks_all_verified [OF sz, symmetric] N [symmetric] by blast
qed

lemma files_verified_length:
  assumes "files_verified pa fds fs" "file_sizes_ok pa F"
  shows "\<forall>fd \<in> set fds. unat (pa_fileOffset pa) + unat (pa_fileSize pa) \<le> length (fs fd)"
proof
  fix fd assume fd: "fd \<in> set fds"
  have "0 < unat (pa_fileSize pa)" using assms(2) by (simp add: file_sizes_ok_def word_ne_0_pos)
  moreover have "verified_byte (pa_integrityCheckSalt pa) (fs fd) (unat (pa_fileOffset pa) + (unat (pa_fileSize pa) - 1))"
    using assms(1) fd calculation unfolding files_verified_def by (metis diff_less zero_less_one)
  ultimately show "unat (pa_fileOffset pa) + unat (pa_fileSize pa) \<le> length (fs fd)" unfolding verified_byte_def by linarith
qed

lemma phase_worker_x [simp]: "phase_worker pa (w\<lparr>lw_x := x\<rparr>) = phase_worker pa w"
  "share_start pa fds (w\<lparr>lw_x := x\<rparr>) = share_start pa fds w" "share_end pa fds (w\<lparr>lw_x := x\<rparr>) = share_end pa fds w"
  by (simp_all add: phase_worker_def share_start_def share_end_def)

lemma write_workers:
  assumes posix: "posix_files k content" and pa: "phase_args pa fds" and ws: "\<forall>w \<in> set ws. phase_worker pa w"
  shows "\<exists>y. run_workers (run_file_phase env k aio pa False rd BenchPhase_CREATEFILES) ws x = Some (map (\<lambda>_. Inr ()) ws, y) \<and>
    (\<forall>fd i. verified_byte (pa_integrityCheckSalt pa) (content x fd) i \<longrightarrow> verified_byte (pa_integrityCheckSalt pa) (content y fd) i) \<and>
    (\<forall>w \<in> set ws. blocks_verified pa fds (content y) (share_start pa fds w) (share_end pa fds w))"
  using ws
proof (induction ws arbitrary: x)
  case Nil
  then show ?case by simp
next
  case (Cons w ws)
  obtain t where t: "run_file_phase env k aio pa False rd BenchPhase_CREATEFILES (w\<lparr>lw_x := x\<rparr>) = Some (Inr (), t)"
    "\<forall>fd i. verified_byte (pa_integrityCheckSalt pa) (content x fd) i \<longrightarrow> verified_byte (pa_integrityCheckSalt pa) (content (lw_x t) fd) i"
    "blocks_verified pa fds (content (lw_x t)) (share_start pa fds w) (share_end pa fds w)"
    using write_worker [OF posix pa, of "w\<lparr>lw_x := x\<rparr>" env aio rd] Cons.prems by auto
  obtain y where y: "run_workers (run_file_phase env k aio pa False rd BenchPhase_CREATEFILES) ws (lw_x t) = Some (map (\<lambda>_. Inr ()) ws, y)"
    "\<forall>fd i. verified_byte (pa_integrityCheckSalt pa) (content (lw_x t) fd) i \<longrightarrow> verified_byte (pa_integrityCheckSalt pa) (content y fd) i"
    "\<forall>w \<in> set ws. blocks_verified pa fds (content y) (share_start pa fds w) (share_end pa fds w)"
    using Cons.IH [of "lw_x t"] Cons.prems by auto
  have "blocks_verified pa fds (content y) (share_start pa fds w) (share_end pa fds w)"
    using blocks_verified_mono [OF t(3)] y(2) by blast
  then show ?case using t(1,2) y by (intro exI [of _ y]) simp
qed

lemma read_workers:
  assumes posix: "posix_files k content" and pa: "phase_args pa fds" and ws: "\<forall>w \<in> set ws. phase_worker pa w"
    and len: "\<forall>fd \<in> set fds. unat (pa_fileOffset pa) + unat (pa_fileSize pa) \<le> length (content x fd)"
  shows "\<exists>y. run_workers (run_file_phase env k aio pa False rd BenchPhase_READFILES) ws x =
      Some (map (\<lambda>w. if blocks_verified pa fds (content x) (share_start pa fds w) (share_end pa fds w) then Inr ()
                     else Inl (WorkerException ''Data verification failed. '')) ws, y) \<and> content y = content x"
  using ws len
proof (induction ws arbitrary: x)
  case Nil
  then show ?case by simp
next
  case (Cons w ws)
  obtain t where t: "run_file_phase env k aio pa False rd BenchPhase_READFILES (w\<lparr>lw_x := x\<rparr>) =
      Some (if blocks_verified pa fds (content x) (share_start pa fds w) (share_end pa fds w) then Inr ()
            else Inl (WorkerException ''Data verification failed. ''), t)" "content (lw_x t) = content x"
    using read_worker [OF posix pa, of "w\<lparr>lw_x := x\<rparr>" env aio rd] Cons.prems by auto
  show ?case using Cons.IH [of "lw_x t"] Cons.prems t by auto
qed

subsection \<open>Properties\<close>

text \<open>
  C1: Files written with verification verify when they are read back, on a kernel whose reads and writes are complete. After the workers of the data set have written
  the files, one after the other in any order, every worker of a read phase over the same files succeeds, whatever
  the number of threads and the block sizes of either phase are and whether they go forward or backward.
\<close>

theorem written_files_verify:
  assumes "posix_files k content" "phase_args pa fds" "full_team pa ws"
    and "phase_args pa' fds" "\<forall>w \<in> set ws'. phase_worker pa' w"
    and "pa_integrityCheckSalt pa' = pa_integrityCheckSalt pa" "pa_fileSize pa' = pa_fileSize pa" "pa_fileOffset pa' = pa_fileOffset pa"
  shows "\<exists>y z. run_workers (run_file_phase env k aio pa False rd BenchPhase_CREATEFILES) ws x = Some (map (\<lambda>_. Inr ()) ws, y) \<and>
    run_workers (run_file_phase env k aio pa' False rd' BenchPhase_READFILES) ws' y = Some (map (\<lambda>_. Inr ()) ws', z)"
proof -
  have ws: "\<forall>w \<in> set ws. phase_worker pa w" using assms(3) by (simp add: full_team_def)
  obtain y where y: "run_workers (run_file_phase env k aio pa False rd BenchPhase_CREATEFILES) ws x = Some (map (\<lambda>_. Inr ()) ws, y)"
    "\<forall>w \<in> set ws. blocks_verified pa fds (content y) (share_start pa fds w) (share_end pa fds w)"
    using write_workers [OF assms(1,2) ws, of env aio rd x] by blast
  have "files_verified pa fds (content y)" using y(2) shares_cover_blocks [OF assms(2,3)] by blast
  then have v: "files_verified pa' fds (content y)" using assms(6-8) by (simp add: files_verified_def)
  have sz: "file_sizes_ok pa' (length fds)" using assms(4) by (simp add: phase_args_def)
  have all: "blocks_verified pa' fds (content y) (share_start pa' fds w) (share_end pa' fds w)" if "w \<in> set ws'" for w
    using blocks_verified_part [OF _ v [folded blocks_all_verified [OF sz]]] rank_share(2) assms(5) that
    unfolding share_end_def phase_worker_def blocks_total [OF sz, symmetric] by blast
  have "\<forall>fd \<in> set fds. unat (pa_fileOffset pa') + unat (pa_fileSize pa') \<le> length (content y fd)"
    by (rule files_verified_length [OF v sz])
  from read_workers [OF assms(1,4,5) this, of env aio rd'] obtain z
    where "run_workers (run_file_phase env k aio pa' False rd' BenchPhase_READFILES) ws' y = Some (map (\<lambda>_. Inr ()) ws', z)"
    using all by (auto cong: map_cong)
  then show ?thesis using y(1) by blast
qed

text \<open>
  C11: For files that are long enough for the range that is read, on a kernel whose reads are not cut short before the end of
  a file and with workers that are not interrupted: a read phase with verification succeeds in all workers exactly when every byte has the
  contents that its offset and the salt determine; otherwise some worker reports the failed verification, and no worker fails for another
  reason. The files are not changed. (A file that is too short, and a read that is cut short, make a worker fail or
  verify the rest of the block against what an earlier I/O left in the buffer; they are outside of this claim.)
\<close>

theorem read_phase_verifies_exactly:
  assumes "posix_files k content" "phase_args pa fds" "full_team pa ws"
    and "\<forall>fd \<in> set fds. unat (pa_fileOffset pa) + unat (pa_fileSize pa) \<le> length (content x fd)"
  shows "\<exists>rs y. run_workers (run_file_phase env k aio pa False rd BenchPhase_READFILES) ws x = Some (rs, y) \<and> content y = content x \<and>
    ((\<forall>r \<in> set rs. r = Inr ()) \<longleftrightarrow> files_verified pa fds (content x)) \<and>
    (\<forall>r \<in> set rs. r = Inr () \<or> r = Inl (WorkerException ''Data verification failed. ''))"
proof -
  let ?ok = "\<lambda>w. blocks_verified pa fds (content x) (share_start pa fds w) (share_end pa fds w)"
  let ?rs = "map (\<lambda>w. if ?ok w then Inr () else Inl (WorkerException ''Data verification failed. '')) ws"
  have ws: "\<forall>w \<in> set ws. phase_worker pa w" using assms(3) by (simp add: full_team_def)
  obtain y where y: "run_workers (run_file_phase env k aio pa False rd BenchPhase_READFILES) ws x = Some (?rs, y)" "content y = content x"
    using read_workers [OF assms(1,2) ws assms(4), of env aio rd] by blast
  have "(\<forall>r \<in> set ?rs. r = Inr ()) \<longleftrightarrow> (\<forall>w \<in> set ws. ?ok w)" by auto
  then have "(\<forall>r \<in> set ?rs. r = Inr ()) \<longleftrightarrow> files_verified pa fds (content x)" using shares_cover_blocks [OF assms(2,3)] by simp
  moreover have "\<forall>r \<in> set ?rs. r = Inr () \<or> r = Inl (WorkerException ''Data verification failed. '')" by auto
  ultimately show ?thesis using y by blast
qed

text \<open>
  C35: In sequential mode the shares of the workers partition the blocks of all files, whatever the number of files, the block size
  and the number of workers are: every block is in the share of exactly one worker, and the last worker takes the
  remainder.
\<close>

theorem seq_shares_each_block_once:
  assumes "file_sizes_ok pa numFiles" "pa_numDataSetThreads pa \<noteq> 0"
    and "block < file_nblocks pa * numFiles"
  shows "\<exists>!r. r < unat (pa_numDataSetThreads pa) \<and>
    (case seq_worker_blocks (of_nat r) (pa_numDataSetThreads pa) (seq_numBlocksPerFile pa * of_nat numFiles) of
       (startBlock, endBlock) \<Rightarrow> unat startBlock \<le> block \<and> block < unat endBlock)"
  using seq_shares_partition [OF assms(2), of block "seq_numBlocksPerFile pa * of_nat numFiles"] assms(3)
  unfolding blocks_total [OF assms(1)] split_beta by blast

subsection \<open>An example\<close>

text \<open>A kernel whose state is the contents of the files, and two files of 40 bytes.\<close>

definition example_kernel :: "(int \<Rightarrow> u8 list) kernel" where
  "example_kernel =
     \<lparr>k_pread = (\<lambda>fd n off fs. let bs = take (unat n) (drop (unat off) (fs fd)) in ((int (length bs), bs), fs)),
      k_pwrite = (\<lambda>fd bs off fs. (int (length bs), fs(fd := write_at (unat off) bs (fs fd)))),
      k_fadvise = (\<lambda>_ _ fs. (0, fs)), k_mmap = (\<lambda>_ _ fs. (True, fs)), k_madvise = (\<lambda>_ _ fs. (0, fs)), k_munmap = (\<lambda>_ _ fs. fs),
      k_load = (\<lambda>_ _ _ fs. (None, fs)), k_store = (\<lambda>_ _ _ fs. (False, fs)), k_setlkw = (\<lambda>_ _ _ _ fs. (True, fs)),
      k_mkdirat = (\<lambda>_ _ fs. (None, fs)), k_now = (\<lambda>fs. (0, fs)), k_sleep_until = (\<lambda>_ fs. fs),
      k_balance = (\<lambda>_ _ fs. (Inr False, fs)), k_interrupted = (\<lambda>fs. (False, fs))\<rparr>"

lemma example_kernel_posix: "posix_files example_kernel id"
  by (simp add: posix_files_def example_kernel_def Let_def)

definition example_args :: "u64 \<Rightarrow> u64 \<Rightarrow> prog_args" where
  "example_args blockSize threads = blank_args
     \<lparr>pa_integrityCheckSalt := 7, pa_benchMode := BenchMode_POSIX, pa_benchPathType := BenchPathType_FILE, pa_ioDepth := 1,
      pa_blockSize := blockSize, pa_blockSizeMix := mix_build [(blockSize, 1)], pa_fileSize := 40, pa_numDataSetThreads := threads,
      pa_benchPathFDsVec := [3, 4], pa_blockVarianceAlgo := ''fast''\<rparr>"

definition example_worker :: "u64 \<Rightarrow> u64 \<Rightarrow> (int \<Rightarrow> u8 list) lw_state" where
  "example_worker blockSize rank =
     \<lparr>lw_workerRank = rank, lw_benchPhase = BenchPhase_IDLE, lw_numIOPSSubmitted = 0, lw_workerGotPhaseWork = True,
      lw_funcs = nullifyPhaseFunctionPointers, lw_rwOffsetGen = OffsetGenSequential (seq_new 0 0 (mix_build [])), lw_rand = example_rs,
      lw_randBlockVarAlgo = rs_algo example_rs, lw_randBlockVarReseed = rs_algo example_rs,
      lw_ioBuf = replicate (unat blockSize) 0, lw_fdVec = [], lw_threadFDVec = [], lw_mmapVec = [], lw_errorFDVecIdx = -1,
      lw_rateLimiter = rl_initStart 0 0, lw_iopsLatHisto = histo_new, lw_iopsLatHistoReadMix = histo_new, lw_liveBytes = 0, lw_liveIOPS = 0,
      lw_liveBytesReadMix = 0, lw_liveIOPSReadMix = 0, lw_journalPtrVec = [],
      lw_journalWorker = \<lparr>journalIOSlots = [], journalNumGuardsHeld = 0, activeJournalIO = 0\<rparr>,
      lw_journals = (\<lambda>_. example_fresh), lw_stripeLocks = (\<lambda>_. Shared 0), lw_x = (\<lambda>_. [])\<rparr>"

lemma example_mix: "b \<noteq> 0 \<Longrightarrow> mix_ok (mix_build [(b, 1)]) \<and> maxSize (mix_build [(b, 1)]) = b"
  by (simp add: mix_ok_def mix_inv_def mix_build_def)

lemma example_phase_args:
  assumes "b \<noteq> 0" "unat b < 2 ^ 20" "threads \<noteq> 0"
  shows "phase_args (example_args b threads) [3, 4]"
  using assms example_mix [OF assms(1)]
  by (simp add: phase_args_def example_args_def verify_args_def file_sizes_ok_def blank_args_def ARG_FLOCK_NONE_def)

lemma example_phase_worker: "unat rank < unat threads \<Longrightarrow> phase_worker (example_args b threads) (example_worker b rank)"
  by (simp add: phase_worker_def example_args_def example_worker_def)

theorem written_files_verify_witness:
  "\<exists>y z. run_workers (run_file_phase example_env example_kernel (\<lambda>_. None) (example_args 16 2) False (\<lambda>_. 0, \<lambda>_. 0, \<lambda>_. 0) BenchPhase_CREATEFILES)
      [example_worker 16 1, example_worker 16 0] (\<lambda>_. []) = Some ([Inr (), Inr ()], y) \<and>
    run_workers (run_file_phase example_env example_kernel (\<lambda>_. None) (example_args 8 3) False (\<lambda>_. 0, \<lambda>_. 0, \<lambda>_. 0) BenchPhase_READFILES)
      [example_worker 8 2] y = Some ([Inr ()], z)"
proof -
  have team: "full_team (example_args 16 2) [example_worker 16 1, example_worker 16 0]"
    using example_phase_worker [of 0 2 16] example_phase_worker [of 1 2 16]
    by (auto simp: full_team_def example_worker_def example_args_def)
  have "\<forall>w \<in> set [example_worker 8 2]. phase_worker (example_args 8 3) w" using example_phase_worker [of 2 3 8] by simp
  from written_files_verify [OF example_kernel_posix example_phase_args team example_phase_args this, of example_env "\<lambda>_. None"
    "(\<lambda>_. 0, \<lambda>_. 0, \<lambda>_. 0)" "\<lambda>_. []" "(\<lambda>_. 0, \<lambda>_. 0, \<lambda>_. 0)"]
  show ?thesis by (simp add: example_args_def)
qed

theorem read_phase_verifies_exactly_witness:
  "\<exists>rs y. run_workers (run_file_phase example_env example_kernel (\<lambda>_. None) (example_args 16 2) False (\<lambda>_. 0, \<lambda>_. 0, \<lambda>_. 0) BenchPhase_READFILES)
      [example_worker 16 1, example_worker 16 0] (\<lambda>_. replicate 40 0) = Some (rs, y) \<and>
    \<not> (\<forall>r \<in> set rs. r = Inr ())"
proof -
  have team: "full_team (example_args 16 2) [example_worker 16 1, example_worker 16 0]"
    using example_phase_worker [of 0 2 16] example_phase_worker [of 1 2 16]
    by (auto simp: full_team_def example_worker_def example_args_def)
  have v: "\<not> verified_byte 7 (replicate 40 0) 0" by (simp add: verified_byte_def check_byte_def le_bytes_def)
  have "\<not> files_verified (example_args 16 2) [3, 4] (id (\<lambda>_. replicate 40 0))"
  proof
    assume "files_verified (example_args 16 2) [3, 4] (id (\<lambda>_. replicate 40 0))"
    then have "\<forall>fd \<in> set [3, 4 :: int]. \<forall>i < 40. verified_byte 7 (id (\<lambda>_. replicate 40 0) fd) (0 + i)"
      by (simp only: files_verified_def) (simp add: example_args_def blank_args_def)
    from bspec [OF this, of 3] show False using v by simp
  qed
  moreover have "\<forall>fd \<in> set [3, 4 :: int]. unat (pa_fileOffset (example_args 16 2)) + unat (pa_fileSize (example_args 16 2)) \<le>
      length (id (\<lambda>_. replicate 40 (0 :: u8)) fd)" by (simp add: example_args_def blank_args_def)
  moreover have "phase_args (example_args 16 2) [3, 4]" by (rule example_phase_args) simp_all
  ultimately show ?thesis
    using read_phase_verifies_exactly [OF example_kernel_posix _ team, where fds = "[3, 4]" and x = "\<lambda>_. replicate 40 0" and env = example_env
      and aio = "\<lambda>_. None" and rd = "(\<lambda>_. 0, \<lambda>_. 0, \<lambda>_. 0)"] by (auto simp only: id_apply)
qed

theorem seq_shares_each_block_once_witness:
  "\<exists>!r. r < unat (pa_numDataSetThreads (example_args 16 4)) \<and>
    (case seq_worker_blocks (of_nat r) (pa_numDataSetThreads (example_args 16 4)) (seq_numBlocksPerFile (example_args 16 4) * of_nat 2) of
       (startBlock, endBlock) \<Rightarrow> unat startBlock \<le> 5 \<and> 5 < unat endBlock)"
proof -
  have "file_sizes_ok (example_args 16 4) 2" "pa_numDataSetThreads (example_args 16 4) \<noteq> 0" "5 < file_nblocks (example_args 16 4) * 2"
    by (simp_all add: file_sizes_ok_def example_args_def blank_args_def blocks_of_def)
  from seq_shares_each_block_once [OF this] show ?thesis .
qed

end
