(* ===== verification/UploadStore.thy ===== *)
theory UploadStore
  imports Config "HOL-Library.Multiset"
begin

text \<open>
  Multipart uploads that several workers share (\<open>S3UploadStore.h\<close>, \<open>S3UploadStore.cpp\<close>), and the way in which
  \<open>s3ModeUploadObjectMultiPartShared\<close> and \<open>s3ModeAbortUnfinishedSharedUploads\<close> of \<open>workers/LocalWorker.cpp\<close> use
  them. Every operation holds the mutex of the store, so the operations of the workers are a sequence of
  events. What the S3 server answers is an argument of an event.
\<close>

subsection \<open>Keys\<close>

datatype upload_key = S3UploadKey (uk_bucketName: string) (uk_objectName: string)

text \<open>\<open>operator<\<close> of the keys, which compares the lengths of the object names first.\<close>

fun upload_key_less :: "upload_key \<Rightarrow> upload_key \<Rightarrow> bool" where
  "upload_key_less (S3UploadKey bucketName objectName) (S3UploadKey otherBucketName otherObjectName) =
     (if length objectName < length otherObjectName then True
      else if length otherObjectName < length objectName then False
      else if objectName < otherObjectName then True
      else if otherObjectName < objectName then False
      else bucketName < otherBucketName)"

text \<open>It is a strict linear order, as \<open>std::map\<close> requires.\<close>

instantiation upload_key :: linorder
begin

definition less_upload_key :: "upload_key \<Rightarrow> upload_key \<Rightarrow> bool" where
  "less_upload_key a b = upload_key_less a b"

definition less_eq_upload_key :: "upload_key \<Rightarrow> upload_key \<Rightarrow> bool" where
  "less_eq_upload_key a b = (a = b \<or> upload_key_less a b)"

instance
proof
  fix x y z :: upload_key
  show "x < y \<longleftrightarrow> x \<le> y \<and> \<not> y \<le> x"
    by (cases x; cases y) (auto simp: less_upload_key_def less_eq_upload_key_def split: if_splits)
  show "x \<le> x" by (simp add: less_eq_upload_key_def)
  show "x \<le> y \<Longrightarrow> y \<le> z \<Longrightarrow> x \<le> z"
    by (cases x; cases y; cases z) (auto simp: less_eq_upload_key_def split: if_splits)
  show "x \<le> y \<Longrightarrow> y \<le> x \<Longrightarrow> x = y"
    by (cases x; cases y) (auto simp: less_eq_upload_key_def split: if_splits)
  show "x \<le> y \<or> y \<le> x"
    by (cases x; cases y) (auto simp: less_eq_upload_key_def)
qed

end

subsection \<open>The store\<close>

datatype completed_part = CompletedPart (partNumber: nat) (eTag: string)

record upload_elem =
  ue_numBytesDone :: u64
  ue_uploadID :: string
  ue_completedParts :: "completed_part list"

text \<open>\<open>std::map\<close>: the elements in the order of their keys.\<close>

type_synonym upload_map = "(upload_key \<times> upload_elem) list"

fun um_insert :: "upload_key \<Rightarrow> upload_elem \<Rightarrow> upload_map \<Rightarrow> upload_map" where
  "um_insert key elem [] = [(key, elem)]"
| "um_insert key elem ((k, e) # m) =
     (if key < k then (key, elem) # (k, e) # m else if key = k then (key, elem) # m else (k, e) # um_insert key elem m)"

fun um_erase :: "upload_key \<Rightarrow> upload_map \<Rightarrow> upload_map" where
  "um_erase key [] = []"
| "um_erase key ((k, e) # m) = (if key = k then m else (k, e) # um_erase key m)"

definition um_inv :: "upload_map \<Rightarrow> bool" where
  "um_inv m \<longleftrightarrow> sorted_wrt (<) (map fst m)"

definition us_getMultipartUploadID :: "upload_key \<Rightarrow> string result \<Rightarrow> upload_map \<Rightarrow> string result \<times> upload_map" where
  "us_getMultipartUploadID key createOutcome m =
     (case map_of m key of
        Some elem \<Rightarrow> (Inr (ue_uploadID elem), m)
      | None \<Rightarrow>
          (case createOutcome of
             Inl ex \<Rightarrow> (Inl ex, m)
           | Inr uploadID \<Rightarrow> (Inr uploadID, um_insert key \<lparr>ue_numBytesDone = 0, ue_uploadID = uploadID, ue_completedParts = []\<rparr> m)))"

definition us_addCompletedPart ::
    "bool \<Rightarrow> upload_key \<Rightarrow> u64 \<Rightarrow> u64 \<Rightarrow> completed_part \<Rightarrow> upload_map \<Rightarrow> completed_part list option \<times> upload_map" where
  "us_addCompletedPart s3NoMpuCompletion key numProgressBytes objectTotalSize completedPart m =
     (case map_of m key of
        None \<Rightarrow> (None, m)
      | Some elem \<Rightarrow>
          (let elem = elem\<lparr>ue_completedParts := ue_completedParts elem @ [completedPart],
                           ue_numBytesDone := ue_numBytesDone elem + numProgressBytes\<rparr>
           in if ue_numBytesDone elem < objectTotalSize \<or> s3NoMpuCompletion then (None, um_insert key elem m)
              else (Some (ue_completedParts elem), um_erase key m)))"

fun us_getNextUnfinishedUpload :: "upload_map \<Rightarrow> (upload_key \<times> string) option \<times> upload_map" where
  "us_getNextUnfinishedUpload [] = (None, [])"
| "us_getNextUnfinishedUpload ((key, elem) # m) = (Some (key, ue_uploadID elem), m)"

text \<open>
  The lines of the file with the upload IDs that a master shares with its services, one for each object; \<open>None\<close> when the file
  cannot be opened.
\<close>

fun us_load_lines :: "string \<Rightarrow> string \<Rightarrow> path_elem list \<Rightarrow> string list \<Rightarrow> upload_map \<Rightarrow> unit result \<times> upload_map" where
  "us_load_lines bucketName objectPrefix paths [] m =
     (if paths \<noteq> [] then (Inl (WorkerException ''Treefile list longer than shared MPU IDs list''), m) else (Inr (), m))"
| "us_load_lines bucketName objectPrefix paths (line # lines) m =
     (if line = [] then us_load_lines bucketName objectPrefix paths lines m
      else
        case paths of
          [] \<Rightarrow> (Inl (WorkerException ''Shared MPU IDs list is longer than treefile list''), m)
        | p # paths \<Rightarrow>
            (let key = S3UploadKey bucketName (objectPrefix @ pe_path p);
                 elem = (case map_of m key of None \<Rightarrow> \<lparr>ue_numBytesDone = 0, ue_uploadID = [], ue_completedParts = []\<rparr> | Some elem \<Rightarrow> elem)
             in us_load_lines bucketName objectPrefix paths lines (um_insert key (elem\<lparr>ue_uploadID := line, ue_completedParts := []\<rparr>) m)))"

definition us_loadSvcMPUSharingFile :: "prog_args \<Rightarrow> string list option \<Rightarrow> upload_map \<Rightarrow> unit result \<times> upload_map" where
  "us_loadSvcMPUSharingFile pa fileLines m =
     (let pathList = ps_paths (ct_filesShared (pa_customTree pa)) in
      case pa_benchPathsVec pa of
        [] \<Rightarrow> (Inl (Fault ''access outside of the vector of paths''), m)
      | bucketName # _ \<Rightarrow>
          if pathList = [] then (Inl (WorkerException ''Found empty shared paths list in MPU sharing mode.''), m)
          else
            case fileLines of
              None \<Rightarrow> (Inl (WorkerException ''Opening MPU IDs file failed: ''), m)
            | Some ls \<Rightarrow> us_load_lines bucketName (pa_s3ObjectPrefix pa) pathList ls m)"

definition us_setProgArgs :: "prog_args \<Rightarrow> u64 \<Rightarrow> string list option \<Rightarrow> upload_map \<Rightarrow> unit result \<times> upload_map" where
  "us_setProgArgs pa workerRank fileLines m =
     (if pa_useS3MPUSharing pa \<and> workerRank - pa_rankOffset pa = 0 then us_loadSvcMPUSharingFile pa fileLines m else (Inr (), m))"

definition us_reset :: "upload_map \<Rightarrow> upload_map" where
  "us_reset m = []"

subsection \<open>Workers\<close>

text \<open>
  The calls of the workers in the order in which they get the mutex: the ID of an upload with the answer
  that the server would give to a request to create it, and the end of the upload of a part.
\<close>

datatype upload_event =
    GetUploadID upload_key "string result"
  | PartDone upload_key u64 u64 completed_part

datatype upload_output = UploadID "string result" | Completion "completed_part list option"

fun event_key :: "upload_event \<Rightarrow> upload_key" where
  "event_key (GetUploadID key _) = key"
| "event_key (PartDone key _ _ _) = key"

fun upload_step :: "upload_event \<Rightarrow> upload_map \<Rightarrow> upload_output \<times> upload_map" where
  "upload_step (GetUploadID key createOutcome) m = map_prod UploadID id (us_getMultipartUploadID key createOutcome m)"
| "upload_step (PartDone key numBytes objectTotalSize part) m =
     map_prod Completion id (us_addCompletedPart False key numBytes objectTotalSize part m)"

fun upload_run :: "upload_event list \<Rightarrow> upload_map \<Rightarrow> (upload_key \<times> upload_output) list \<times> upload_map" where
  "upload_run [] m = ([], m)"
| "upload_run (ev # evs) m =
     (let (out, m) = upload_step ev m; (outs, m) = upload_run evs m in ((event_key ev, out) # outs, m))"

text \<open>The part number of the block at an offset, and the list of parts in the request that completes an upload.\<close>

definition part_number :: "u64 \<Rightarrow> u64 \<Rightarrow> u64" where
  "part_number currentOffset blockSize = 1 + currentOffset div blockSize"

definition completion_parts :: "completed_part list \<Rightarrow> completed_part list" where
  "completion_parts allCompletedParts = sort_key partNumber allCompletedParts"

text \<open>
  \<open>s3ModeAbortUnfinishedSharedUploads\<close> as the list of the uploads that it aborts; \<open>s3Client\<close> tells whether the client was
  initialized.
\<close>

function abort_uploads :: "bool \<Rightarrow> upload_map \<Rightarrow> (upload_key \<times> string) list \<times> upload_map" where
  "abort_uploads s3Client m =
     (case us_getNextUnfinishedUpload m of
        (None, m') \<Rightarrow> ([], m')
      | (Some (key, uploadID), m') \<Rightarrow>
          if uploadID = [] \<or> \<not> s3Client then ([], m')
          else let (aborted, m'') = abort_uploads s3Client m' in ((key, uploadID) # aborted, m''))"
  by pat_completeness auto

termination
proof (relation "measure (\<lambda>(_, m). length m)", goal_cases)
  case (2 s3Client m a b c key uploadID)
  then show ?case by (cases m) auto
qed simp

subsection \<open>The map\<close>

lemma map_of_um_insert [simp]: "map_of (um_insert key elem m) = (map_of m)(key \<mapsto> elem)"
  by (induction m rule: um_insert.induct) auto

lemma fst_um_insert: "fst ` set (um_insert key elem m) = insert key (fst ` set m)"
  by (induction key elem m rule: um_insert.induct) auto

lemma um_insert_inv: "um_inv m \<Longrightarrow> um_inv (um_insert key elem m)"
proof (induction key elem m rule: um_insert.induct)
  case (2 key elem k e m)
  then have "\<forall>x \<in> fst ` set (um_insert key elem m). k < x" if "\<not> key < k" "key \<noteq> k"
    using that unfolding fst_um_insert by (auto simp: um_inv_def)
  with 2 show ?case by (auto simp: um_inv_def)
qed (simp add: um_inv_def)

lemma um_erase_sub: "set (um_erase key m) \<subseteq> set m"
  by (induction key m rule: um_erase.induct) auto

lemma um_erase_inv: "um_inv m \<Longrightarrow> um_inv (um_erase key m)"
proof (induction key m rule: um_erase.induct)
  case (2 key k e m)
  then show ?case using um_erase_sub [of key m] by (auto simp: um_inv_def)
qed simp

lemma map_of_um_erase: "um_inv m \<Longrightarrow> map_of (um_erase key m) = (map_of m)(key := None)"
proof (induction key m rule: um_erase.induct)
  case (2 key k e m)
  have "map_of m k = None" using 2(2) by (fastforce simp: um_inv_def map_of_eq_None_iff)
  with 2 show ?case by (auto simp: um_inv_def fun_eq_iff)
qed simp

subsection \<open>One object\<close>

text \<open>
  What the store promises for one object, without the others: its element, if any, and an operation on it.
\<close>

fun key_step :: "upload_event \<Rightarrow> upload_elem option \<Rightarrow> upload_output \<times> upload_elem option" where
  "key_step (GetUploadID key createOutcome) None =
     (UploadID createOutcome,
      case createOutcome of Inl _ \<Rightarrow> None | Inr uploadID \<Rightarrow> Some \<lparr>ue_numBytesDone = 0, ue_uploadID = uploadID, ue_completedParts = []\<rparr>)"
| "key_step (GetUploadID key createOutcome) (Some elem) = (UploadID (Inr (ue_uploadID elem)), Some elem)"
| "key_step (PartDone key numBytes objectTotalSize part) None = (Completion None, None)"
| "key_step (PartDone key numBytes objectTotalSize part) (Some elem) =
     (if ue_numBytesDone elem + numBytes < objectTotalSize
      then (Completion None, Some (elem\<lparr>ue_completedParts := ue_completedParts elem @ [part], ue_numBytesDone := ue_numBytesDone elem + numBytes\<rparr>))
      else (Completion (Some (ue_completedParts elem @ [part])), None))"

fun key_run :: "upload_event list \<Rightarrow> upload_elem option \<Rightarrow> upload_output list \<times> upload_elem option" where
  "key_run [] st = ([], st)"
| "key_run (ev # evs) st = (let (out, st) = key_step ev st; (outs, st) = key_run evs st in (out # outs, st))"

lemma upload_step_key:
  assumes "um_inv m" "upload_step ev m = (out, m')"
  shows "um_inv m'" "key_step ev (map_of m (event_key ev)) = (out, map_of m' (event_key ev))"
    "key \<noteq> event_key ev \<Longrightarrow> map_of m' key = map_of m key"
proof (atomize (full), cases ev)
  case (GetUploadID k c)
  then show "um_inv m' \<and> key_step ev (map_of m (event_key ev)) = (out, map_of m' (event_key ev)) \<and>
      (key \<noteq> event_key ev \<longrightarrow> map_of m' key = map_of m key)"
    using assms by (auto simp: us_getMultipartUploadID_def um_insert_inv split: option.splits sum.splits)
next
  case (PartDone k n t p)
  then show "um_inv m' \<and> key_step ev (map_of m (event_key ev)) = (out, map_of m' (event_key ev)) \<and>
      (key \<noteq> event_key ev \<longrightarrow> map_of m' key = map_of m key)"
    using assms by (auto simp: us_addCompletedPart_def Let_def um_insert_inv um_erase_inv map_of_um_erase split: option.splits if_splits)
qed

text \<open>The runs of the store are, for each object, runs of that object's own events.\<close>

lemma upload_run_key:
  assumes "um_inv m" "upload_run evs m = (outs, m')"
  shows "um_inv m' \<and> key_run (filter (\<lambda>ev. event_key ev = key) evs) (map_of m key) =
    (map snd (filter (\<lambda>out. fst out = key) outs), map_of m' key)"
  using assms
proof (induction evs arbitrary: m outs)
  case (Cons ev evs)
  obtain out m1 outs1 where st: "upload_step ev m = (out, m1)" "upload_run evs m1 = (outs1, m')" "outs = (event_key ev, out) # outs1"
    using Cons.prems(2) by (auto split: prod.splits)
  note k = upload_step_key [OF Cons.prems(1) st(1)]
  show ?case using Cons.IH [OF k(1) st(2)] k(2) k(3) [of key] st(3) by (cases "event_key ev = key") auto
qed auto

text \<open>The parts of the events and their sizes.\<close>

fun event_parts :: "upload_event \<Rightarrow> completed_part list" where
  "event_parts (PartDone _ _ _ part) = [part]"
| "event_parts (GetUploadID _ _) = []"

fun event_bytes :: "upload_event \<Rightarrow> nat" where
  "event_bytes (PartDone _ numBytes _ _) = unat numBytes"
| "event_bytes (GetUploadID _ _) = 0"

fun event_of_size :: "u64 \<Rightarrow> upload_event \<Rightarrow> bool" where
  "event_of_size totalSize (PartDone _ numBytes objectTotalSize _) \<longleftrightarrow> 0 < numBytes \<and> objectTotalSize = totalSize"
| "event_of_size totalSize (GetUploadID _ _) \<longleftrightarrow> True"

lemma key_run_append: "key_run (xs @ ys) st = (case key_run xs st of (outs, st') \<Rightarrow> case key_run ys st' of (outs', st'') \<Rightarrow> (outs @ outs', st''))"
  by (induction xs arbitrary: st) (auto split: prod.splits)

lemma key_run_unfinished:
  assumes "\<forall>ev \<in> set evs. event_of_size totalSize ev" "unat bytes + sum_list (map event_bytes evs) < unat totalSize"
  shows "\<exists>outs. key_run evs (Some \<lparr>ue_numBytesDone = bytes, ue_uploadID = uid, ue_completedParts = ps\<rparr>) =
      (outs, Some \<lparr>ue_numBytesDone = of_nat (unat bytes + sum_list (map event_bytes evs)), ue_uploadID = uid,
                   ue_completedParts = ps @ concat (map event_parts evs)\<rparr>) \<and>
    set outs \<subseteq> {UploadID (Inr uid), Completion None}"
  using assms
proof (induction evs arbitrary: bytes ps)
  case Nil
  then show ?case by simp
next
  case (Cons ev evs)
  show ?case
  proof (cases ev)
    case (GetUploadID k c)
    then show ?thesis using Cons.IH [of bytes ps] Cons.prems by auto
  next
    case (PartDone k n t p)
    have lt: "unat bytes + unat n + sum_list (map event_bytes evs) < unat totalSize" using Cons.prems(2) PartDone by simp
    then have u: "unat (bytes + n) = unat bytes + unat n" using unat_less_W64 [of totalSize] by (intro unat_add_no) linarith
    have "bytes + n < totalSize" using lt u by (simp add: word_less_nat_alt)
    then show ?thesis using Cons.IH [of "bytes + n" "ps @ [p]"] Cons.prems lt u PartDone by (auto simp: add.assoc)
  qed
qed

lemma key_run_completes:
  assumes "\<forall>ev \<in> set mid. event_of_size totalSize ev" "0 < n" "sum_list (map event_bytes mid) + unat n = unat totalSize"
  shows "\<exists>outs. key_run (GetUploadID key (Inr uid) # mid @ [PartDone key n totalSize part]) None =
      (UploadID (Inr uid) # outs @ [Completion (Some (concat (map event_parts mid) @ [part]))], None) \<and>
    set outs \<subseteq> {UploadID (Inr uid), Completion None}"
proof -
  have lt: "unat (0 :: u64) + sum_list (map event_bytes mid) < unat totalSize" using assms(2,3) by (simp add: word_less_nat_alt)
  obtain outs where o: "key_run mid (Some \<lparr>ue_numBytesDone = 0, ue_uploadID = uid, ue_completedParts = []\<rparr>) =
      (outs, Some \<lparr>ue_numBytesDone = of_nat (unat (0 :: u64) + sum_list (map event_bytes mid)), ue_uploadID = uid,
                   ue_completedParts = [] @ concat (map event_parts mid)\<rparr>)"
    "set outs \<subseteq> {UploadID (Inr uid), Completion None}"
    using key_run_unfinished [OF assms(1) lt] by blast
  have s: "sum_list (map event_bytes mid) < W64" using lt unat_less_W64 [of totalSize] by simp
  have "of_nat (sum_list (map event_bytes mid)) + n = totalSize"
    using assms(3) s unat_less_W64 [of totalSize] by (intro iffD2 [OF unat_eq_iff_u64]) (simp add: unat_add_no unat_of_nat_no)
  then show ?thesis using o by (simp add: key_run_append)
qed

subsection \<open>Aborted uploads\<close>

lemma abort_uploads_all:
  assumes "\<forall>(key, elem) \<in> set m. ue_uploadID elem \<noteq> []"
  shows "abort_uploads True m = (map (\<lambda>(key, elem). (key, ue_uploadID elem)) m, [])"
  using assms
proof (induction m)
  case Nil
  then show ?case by (simp add: abort_uploads.simps [of True "[]"])
next
  case (Cons ke m)
  obtain key elem where ke: "ke = (key, elem)" by (cases ke)
  have "abort_uploads True (ke # m) = (let (aborted, m') = abort_uploads True m in ((key, ue_uploadID elem) # aborted, m'))"
    using Cons.prems ke by (subst abort_uploads.simps) simp
  then show ?case using Cons ke by simp
qed

text \<open>Each unfinished upload is aborted once, and a part that another worker finishes later is not added to any upload.\<close>

lemma aborted_once:
  assumes "um_inv m" "\<forall>(key, elem) \<in> set m. ue_uploadID elem \<noteq> []" "abort_uploads True m = (aborted, m')"
  shows "distinct (map fst aborted) \<and> (\<forall>key uid. (key, uid) \<in> set aborted \<longleftrightarrow> map_option ue_uploadID (map_of m key) = Some uid) \<and>
    us_addCompletedPart s3NoMpuCompletion key n totalSize part m' = (None, [])"
proof -
  have d: "distinct (map fst m)" using assms(1) by (simp add: um_inv_def strict_sorted_iff)
  have a: "aborted = map (\<lambda>(key, elem). (key, ue_uploadID elem)) m" "m' = []" using assms(3) abort_uploads_all [OF assms(2)] by simp_all
  have "map fst aborted = map fst m" unfolding a by (simp add: comp_def split_beta)
  moreover have "(k, uid) \<in> set aborted \<longleftrightarrow> map_option ue_uploadID (map_of m k) = Some uid" for k uid
    unfolding a using d by (force simp: map_of_eq_Some_iff image_iff)
  ultimately show ?thesis using d a(2) by (simp add: us_addCompletedPart_def)
qed

subsection \<open>Properties\<close>

text \<open>
  C10: However the calls of the workers for this and for other objects interleave, a shared upload is created once, every worker gets
  the same upload ID, and exactly the call that adds the last missing bytes gets the parts for completion: all
  parts of the object, once each, which the request then lists in the order of their numbers. Afterwards the
  store has forgotten the upload.
\<close>

theorem shared_upload_completed_once:
  assumes "um_inv m" "map_of m key = None"
    and "filter (\<lambda>ev. event_key ev = key) evs = GetUploadID key (Inr uid) # mid @ [PartDone key n totalSize part]"
    and "\<forall>ev \<in> set mid. event_of_size totalSize ev" "0 < n" "sum_list (map event_bytes mid) + unat n = unat totalSize"
    and "mset (map partNumber (concat (map event_parts mid) @ [part])) = mset [1..<numParts + 1]"
  shows "\<exists>outs m' mids ps. upload_run evs m = (outs, m') \<and>
    map snd (filter (\<lambda>out. fst out = key) outs) = UploadID (Inr uid) # mids @ [Completion (Some ps)] \<and>
    set mids \<subseteq> {UploadID (Inr uid), Completion None} \<and>
    mset ps = mset (concat (map event_parts mid) @ [part]) \<and> map partNumber (completion_parts ps) = [1..<numParts + 1] \<and>
    map_of m' key = None"
proof -
  let ?ps = "concat (map event_parts mid) @ [part]"
  obtain outs m' where run: "upload_run evs m = (outs, m')" by fastforce
  obtain mids where mids: "key_run (GetUploadID key (Inr uid) # mid @ [PartDone key n totalSize part]) None =
      (UploadID (Inr uid) # mids @ [Completion (Some ?ps)], None)" "set mids \<subseteq> {UploadID (Inr uid), Completion None}"
    using key_run_completes [OF assms(4-6)] by blast
  have "map snd (filter (\<lambda>out. fst out = key) outs) = UploadID (Inr uid) # mids @ [Completion (Some ?ps)]" "map_of m' key = None"
    using upload_run_key [OF assms(1) run, of key] mids(1) unfolding assms(2,3) by simp_all
  moreover have "map partNumber (completion_parts ?ps) = sort (map partNumber ?ps)"
    unfolding completion_parts_def by (rule properties_for_sort [symmetric]) simp_all
  moreover have "sort (map partNumber ?ps) = [1..<numParts + 1]"
    using assms(7) by (intro properties_for_sort) (simp_all only: sorted_upt)
  ultimately show ?thesis using run mids(2) by (intro exI [of _ outs] exI [of _ m'] exI [of _ mids] exI [of _ ?ps]) simp
qed

theorem shared_upload_completed_once_witness:
  "\<exists>outs m' mids ps. upload_run
      [GetUploadID (S3UploadKey ''b'' ''o'') (Inr ''id1''), GetUploadID (S3UploadKey ''b'' ''other'') (Inr ''id2''),
       PartDone (S3UploadKey ''b'' ''o'') 5 8 (CompletedPart 2 ''e2''), GetUploadID (S3UploadKey ''b'' ''o'') (Inr ''id3''),
       PartDone (S3UploadKey ''b'' ''o'') 3 8 (CompletedPart 1 ''e1'')] [] = (outs, m') \<and>
    map snd (filter (\<lambda>out. fst out = S3UploadKey ''b'' ''o'') outs) = UploadID (Inr ''id1'') # mids @ [Completion (Some ps)] \<and>
    map partNumber (completion_parts ps) = [1, 2]"
proof -
  let ?k = "S3UploadKey ''b'' ''o''"
  let ?evs = "[GetUploadID ?k (Inr ''id1''), GetUploadID (S3UploadKey ''b'' ''other'') (Inr ''id2''),
       PartDone ?k 5 8 (CompletedPart 2 ''e2''), GetUploadID ?k (Inr ''id3''), PartDone ?k 3 8 (CompletedPart 1 ''e1'')]"
  have "\<exists>outs m' mids ps. upload_run ?evs [] = (outs, m') \<and>
    map snd (filter (\<lambda>out. fst out = ?k) outs) = UploadID (Inr ''id1'') # mids @ [Completion (Some ps)] \<and>
    set mids \<subseteq> {UploadID (Inr ''id1''), Completion None} \<and>
    mset ps = mset (concat (map event_parts [PartDone ?k 5 8 (CompletedPart 2 ''e2''), GetUploadID ?k (Inr ''id3'')]) @ [CompletedPart 1 ''e1'']) \<and>
    map partNumber (completion_parts ps) = [1..<2 + 1] \<and> map_of m' ?k = None"
    by (rule shared_upload_completed_once [where totalSize = 8 and n = 3]) (simp_all add: um_inv_def upt_rec)
  moreover have "[1..<2 + 1] = [1, 2 :: nat]" by (simp add: upt_rec)
  ultimately show ?thesis by metis
qed

end
