(* ===== verification/LiveStats.thy ===== *)
theory LiveStats
  imports LatencyHistogram
begin

text \<open>
  Counters of a worker (\<open>LiveOps.h\<close>, \<open>LiveLatency.h\<close>) and the statistics that a worker keeps in a phase
  (\<open>workers/Worker.h\<close>).
\<close>

subsection \<open>Operations done\<close>

record live_ops =
  numEntriesDone :: u64
  numBytesDone :: u64
  numIOPSDone :: u64

definition live_zero :: live_ops where
  "live_zero = \<lparr>numEntriesDone = 0, numBytesDone = 0, numIOPSDone = 0\<rparr>"

text \<open>\<open>getAndAddOps\<close>: the sum with the counters added.\<close>

definition live_getAndAddOps :: "live_ops \<Rightarrow> live_ops \<Rightarrow> live_ops" where
  "live_getAndAddOps ops outSumOps =
     \<lparr>numEntriesDone = numEntriesDone outSumOps + numEntriesDone ops,
      numBytesDone = numBytesDone outSumOps + numBytesDone ops,
      numIOPSDone = numIOPSDone outSumOps + numIOPSDone ops\<rparr>"

definition live_minus :: "live_ops \<Rightarrow> live_ops \<Rightarrow> live_ops" where
  "live_minus ops other =
     \<lparr>numEntriesDone = numEntriesDone ops - numEntriesDone other,
      numBytesDone = numBytesDone ops - numBytesDone other,
      numIOPSDone = numIOPSDone ops - numIOPSDone other\<rparr>"

definition live_div :: "live_ops \<Rightarrow> u64 \<Rightarrow> live_ops result" where
  "live_div ops rhs =
     (if rhs = 0 then Inl (Fault ''division by zero'')
      else Inr \<lparr>numEntriesDone = numEntriesDone ops div rhs, numBytesDone = numBytesDone ops div rhs,
                numIOPSDone = numIOPSDone ops div rhs\<rparr>)"

definition live_mult :: "live_ops \<Rightarrow> u64 \<Rightarrow> live_ops" where
  "live_mult ops rhs =
     \<lparr>numEntriesDone = numEntriesDone ops * rhs, numBytesDone = numBytesDone ops * rhs, numIOPSDone = numIOPSDone ops * rhs\<rparr>"

definition live_le :: "live_ops \<Rightarrow> live_ops \<Rightarrow> bool" where
  "live_le a b \<longleftrightarrow> numEntriesDone a \<le> numEntriesDone b \<and> numBytesDone a \<le> numBytesDone b \<and> numIOPSDone a \<le> numIOPSDone b"

lemma live_le_refl [simp]: "live_le a a"
  by (simp add: live_le_def)

lemma live_le_trans: "live_le a b \<Longrightarrow> live_le b c \<Longrightarrow> live_le a c"
  by (auto simp: live_le_def)

lemma live_zero_le [simp]: "live_le live_zero a"
  by (simp add: live_le_def live_zero_def)

subsection \<open>Latencies\<close>

record live_latency =
  numAvgIOLatValues :: u64
  avgIOLatMicroSecsSum :: u64
  numAvgIOLatReadMixValues :: u64
  avgIOLatReadMixMicroSecsSum :: u64
  numAvgEntriesLatValues :: u64
  avgEntriesLatMicroSecsSum :: u64
  numAvgEntriesLatReadMixValues :: u64
  avgEntriesLatReadMixMicrosSecsSum :: u64

definition lat_zero :: live_latency where
  "lat_zero =
     \<lparr>numAvgIOLatValues = 0, avgIOLatMicroSecsSum = 0, numAvgIOLatReadMixValues = 0, avgIOLatReadMixMicroSecsSum = 0,
      numAvgEntriesLatValues = 0, avgEntriesLatMicroSecsSum = 0, numAvgEntriesLatReadMixValues = 0,
      avgEntriesLatReadMixMicrosSecsSum = 0\<rparr>"

definition lat_getAndAddOps :: "live_latency \<Rightarrow> live_latency \<Rightarrow> live_latency" where
  "lat_getAndAddOps l out =
     \<lparr>numAvgIOLatValues = numAvgIOLatValues out + numAvgIOLatValues l,
      avgIOLatMicroSecsSum = avgIOLatMicroSecsSum out + avgIOLatMicroSecsSum l,
      numAvgIOLatReadMixValues = numAvgIOLatReadMixValues out + numAvgIOLatReadMixValues l,
      avgIOLatReadMixMicroSecsSum = avgIOLatReadMixMicroSecsSum out + avgIOLatReadMixMicroSecsSum l,
      numAvgEntriesLatValues = numAvgEntriesLatValues out + numAvgEntriesLatValues l,
      avgEntriesLatMicroSecsSum = avgEntriesLatMicroSecsSum out + avgEntriesLatMicroSecsSum l,
      numAvgEntriesLatReadMixValues = numAvgEntriesLatReadMixValues out + numAvgEntriesLatReadMixValues l,
      avgEntriesLatReadMixMicrosSecsSum = avgEntriesLatReadMixMicrosSecsSum out + avgEntriesLatReadMixMicrosSecsSum l\<rparr>"

definition lat_avg :: "u64 \<Rightarrow> u64 \<Rightarrow> u64 \<times> u64" where
  "lat_avg numValues usecs = (if numValues \<noteq> 0 then (1, usecs div numValues) else (numValues, usecs))"

definition lat_divAllByNumValues :: "live_latency \<Rightarrow> live_latency" where
  "lat_divAllByNumValues l =
     (let (n1, s1) = lat_avg (numAvgIOLatValues l) (avgIOLatMicroSecsSum l);
          (n2, s2) = lat_avg (numAvgIOLatReadMixValues l) (avgIOLatReadMixMicroSecsSum l);
          (n3, s3) = lat_avg (numAvgEntriesLatValues l) (avgEntriesLatMicroSecsSum l);
          (n4, s4) = lat_avg (numAvgEntriesLatReadMixValues l) (avgEntriesLatReadMixMicrosSecsSum l)
      in \<lparr>numAvgIOLatValues = n1, avgIOLatMicroSecsSum = s1, numAvgIOLatReadMixValues = n2, avgIOLatReadMixMicroSecsSum = s2,
          numAvgEntriesLatValues = n3, avgEntriesLatMicroSecsSum = s3, numAvgEntriesLatReadMixValues = n4,
          avgEntriesLatReadMixMicrosSecsSum = s4\<rparr>)"

subsection \<open>The statistics of a worker\<close>

record worker =
  w_workerRank :: u64
  w_phaseFinished :: bool
  w_elapsedUSecVec :: "u64 list"
  w_isInterruptionRequested :: bool
  w_liveOps :: live_ops
  w_liveOpsReadMix :: live_ops
  w_oldLiveOps :: live_ops
  w_oldLiveOpsReadMix :: live_ops
  w_stoneWallTriggered :: bool
  w_workerGotPhaseWork :: bool
  w_stoneWallOps :: live_ops
  w_stoneWallOpsReadMix :: live_ops
  w_iopsLatHisto :: histogram
  w_iopsLatHistoReadMix :: histogram
  w_entriesLatHisto :: histogram
  w_entriesLatHistoReadMix :: histogram

definition w_resetStats :: "worker \<Rightarrow> worker" where
  "w_resetStats w =
     w\<lparr>w_phaseFinished := False, w_workerGotPhaseWork := True, w_elapsedUSecVec := [], w_liveOps := live_zero,
       w_liveOpsReadMix := live_zero, w_oldLiveOps := live_zero, w_oldLiveOpsReadMix := live_zero, w_stoneWallTriggered := False,
       w_stoneWallOps := live_zero, w_stoneWallOpsReadMix := live_zero, w_iopsLatHisto := histo_reset (w_iopsLatHisto w),
       w_iopsLatHistoReadMix := histo_reset (w_iopsLatHistoReadMix w), w_entriesLatHisto := histo_reset (w_entriesLatHisto w),
       w_entriesLatHistoReadMix := histo_reset (w_entriesLatHistoReadMix w)\<rparr>"

definition w_new :: "u64 \<Rightarrow> worker" where
  "w_new rank = w_resetStats
     \<lparr>w_workerRank = rank, w_phaseFinished = False, w_elapsedUSecVec = [], w_isInterruptionRequested = False, w_liveOps = live_zero,
      w_liveOpsReadMix = live_zero, w_oldLiveOps = live_zero, w_oldLiveOpsReadMix = live_zero, w_stoneWallTriggered = False,
      w_workerGotPhaseWork = True, w_stoneWallOps = live_zero, w_stoneWallOpsReadMix = live_zero, w_iopsLatHisto = histo_new,
      w_iopsLatHistoReadMix = histo_new, w_entriesLatHisto = histo_new, w_entriesLatHistoReadMix = histo_new\<rparr>"

definition w_getLiveOpsCombined :: "worker \<Rightarrow> live_ops" where
  "w_getLiveOpsCombined w = live_getAndAddOps (w_liveOpsReadMix w) (w_liveOps w)"

definition w_getAndAddLiveOps :: "worker \<Rightarrow> live_ops \<Rightarrow> live_ops \<Rightarrow> live_ops \<times> live_ops" where
  "w_getAndAddLiveOps w outSum outSumReadMix = (live_getAndAddOps (w_liveOps w) outSum, live_getAndAddOps (w_liveOpsReadMix w) outSumReadMix)"

definition w_getAndAddStoneWallOps :: "worker \<Rightarrow> live_ops \<Rightarrow> live_ops \<Rightarrow> live_ops \<times> live_ops" where
  "w_getAndAddStoneWallOps w outSum outSumReadMix =
     (live_getAndAddOps (w_stoneWallOps w) outSum, live_getAndAddOps (w_stoneWallOpsReadMix w) outSumReadMix)"

definition w_getAndAddLiveLatency :: "live_latency \<Rightarrow> worker \<Rightarrow> live_latency \<times> worker" where
  "w_getAndAddLiveLatency out w =
     (let (n1, s1, h1) = histo_addAndResetAverageLive (numAvgIOLatValues out) (avgIOLatMicroSecsSum out) (w_iopsLatHisto w);
          (n2, s2, h2) = histo_addAndResetAverageLive (numAvgIOLatReadMixValues out) (avgIOLatReadMixMicroSecsSum out) (w_iopsLatHistoReadMix w);
          (n3, s3, h3) = histo_addAndResetAverageLive (numAvgEntriesLatValues out) (avgEntriesLatMicroSecsSum out) (w_entriesLatHisto w);
          (n4, s4, h4) = histo_addAndResetAverageLive (numAvgEntriesLatReadMixValues out) (avgEntriesLatReadMixMicrosSecsSum out)
            (w_entriesLatHistoReadMix w)
      in (\<lparr>numAvgIOLatValues = n1, avgIOLatMicroSecsSum = s1, numAvgIOLatReadMixValues = n2, avgIOLatReadMixMicroSecsSum = s2,
           numAvgEntriesLatValues = n3, avgEntriesLatMicroSecsSum = s3, numAvgEntriesLatReadMixValues = n4,
           avgEntriesLatReadMixMicrosSecsSum = s4\<rparr>,
          w\<lparr>w_iopsLatHisto := h1, w_iopsLatHistoReadMix := h2, w_entriesLatHisto := h3, w_entriesLatHistoReadMix := h4\<rparr>))"

definition w_getAndResetDiffStats :: "worker \<Rightarrow> (live_ops \<times> live_ops) \<times> worker" where
  "w_getAndResetDiffStats w =
     ((live_minus (w_liveOps w) (w_oldLiveOps w), live_minus (w_liveOpsReadMix w) (w_oldLiveOpsReadMix w)),
      w\<lparr>w_oldLiveOps := w_liveOps w, w_oldLiveOpsReadMix := w_liveOpsReadMix w\<rparr>)"

definition w_getAndResetDiffStatsCombined :: "worker \<Rightarrow> live_ops \<times> worker" where
  "w_getAndResetDiffStatsCombined w =
     (case w_getAndResetDiffStats w of ((d, dReadMix), w) \<Rightarrow> (live_getAndAddOps dReadMix d, w))"

definition w_createStoneWallStats :: "worker \<Rightarrow> worker" where
  "w_createStoneWallStats w =
     w\<lparr>w_stoneWallTriggered := True, w_stoneWallOps := w_liveOps w, w_stoneWallOpsReadMix := w_liveOpsReadMix w\<rparr>"

definition w_interruptExecution :: "worker \<Rightarrow> worker" where
  "w_interruptExecution w = w\<lparr>w_isInterruptionRequested := True\<rparr>"

subsection \<open>Differences add up\<close>

text \<open>The differences that the live output takes at any moments add up to what was done since the start of the phase.\<close>

fun diff_run :: "(live_ops \<times> live_ops) list \<Rightarrow> live_ops \<Rightarrow> worker \<Rightarrow> live_ops \<times> worker" where
  "diff_run [] acc w = (acc, w)"
| "diff_run ((ops, opsReadMix) # rest) acc w =
     (case w_getAndResetDiffStatsCombined (w\<lparr>w_liveOps := ops, w_liveOpsReadMix := opsReadMix\<rparr>) of
        (d, w) \<Rightarrow> diff_run rest (live_getAndAddOps d acc) w)"

lemma diff_run_sum:
  assumes "diff_run obs (live_getAndAddOps (w_oldLiveOpsReadMix w) (w_oldLiveOps w)) w = (acc, w')"
  shows "acc = live_getAndAddOps (w_oldLiveOpsReadMix w') (w_oldLiveOps w')"
  using assms
proof (induction obs arbitrary: w)
  case (Cons ob obs)
  obtain ops opsR where ob: "ob = (ops, opsR)" by (cases ob)
  show ?case
    by (rule Cons.IH [of "w\<lparr>w_liveOps := ops, w_liveOpsReadMix := opsR, w_oldLiveOps := ops, w_oldLiveOpsReadMix := opsR\<rparr>"])
      (use Cons.prems ob in \<open>simp add: w_getAndResetDiffStatsCombined_def w_getAndResetDiffStats_def live_getAndAddOps_def live_minus_def algebra_simps\<close>)
qed simp

end
