(* ===== verification/Phases.thy ===== *)
theory Phases
  imports LiveStats Config
begin

text \<open>
  How the main thread takes the workers through the phases of a benchmark: the data they share
  (\<open>workers/WorkersSharedData.h\<close>, \<open>workers/WorkersSharedData.cpp\<close>), the worker's side (\<open>workers/Worker.cpp\<close>, \<open>LocalWorker::run\<close>
  and \<open>LocalWorker::finishPhase\<close>), the manager (\<open>workers/WorkerManager.cpp\<close>) and the order of the phases (\<open>Coordinator.cpp\<close>).
  Everything between the locking and the release of the shared mutex is one step; the flag \<open>phaseFinished\<close>, which a worker
  sets without the mutex, is a step of its own. A thread that waits for the condition sleeps until another
  one notifies it.
\<close>

subsection \<open>Shared data\<close>

text \<open>A phase has an ID; 0 is the nil ID of the preparation.\<close>

record shared_data =
  currentBenchPhase :: bench_phase
  currentBenchID :: nat
  numWorkersDone :: u64
  numWorkersDoneWithError :: u64
  workerVec :: "worker list"
  gotUserInterruptSignalT :: u32
  isPhaseTimeExpired :: bool

definition resetNumWorkersDoneUnlocked :: "shared_data \<Rightarrow> shared_data" where
  "resetNumWorkersDoneUnlocked sd = sd\<lparr>numWorkersDone := 0, numWorkersDoneWithError := 0\<rparr>"

definition incNumWorkersDoneUnlocked :: "shared_data \<Rightarrow> shared_data" where
  "incNumWorkersDoneUnlocked sd = sd\<lparr>numWorkersDone := numWorkersDone sd + 1\<rparr>"

definition incNumWorkersDoneWithError :: "shared_data \<Rightarrow> shared_data" where
  "incNumWorkersDoneWithError sd = sd\<lparr>numWorkersDoneWithError := numWorkersDoneWithError sd + 1\<rparr>"

text \<open>\<open>Worker::incNumWorkersDone\<close> of the worker at a position of the vector.\<close>

definition incNumWorkersDone :: "bool \<Rightarrow> nat \<Rightarrow> shared_data \<Rightarrow> shared_data" where
  "incNumWorkersDone runAsService i sd =
     (let w = workerVec sd ! i;
          numWorkersTotal = of_nat (length (workerVec sd));
          lastFinisherTrigger = (if runAsService then False else numWorkersDone sd + 1 = numWorkersTotal);
          triggerStoneWall = (\<not> w_stoneWallTriggered w \<and> (w_workerGotPhaseWork w \<or> lastFinisherTrigger));
          sd = incNumWorkersDoneUnlocked sd
      in if triggerStoneWall then sd\<lparr>workerVec := map w_createStoneWallStats (workerVec sd)\<rparr> else sd)"

subsection \<open>Manager\<close>

definition interruptWorkers :: "shared_data \<Rightarrow> shared_data" where
  "interruptWorkers sd = sd\<lparr>workerVec := map w_interruptExecution (workerVec sd)\<rparr>"

text \<open>The result tells whether all workers are done; the flag, whether the workers were interrupted and notified.\<close>

definition checkWorkersDoneUnlocked :: "shared_data \<Rightarrow> bool result \<times> bool \<times> shared_data" where
  "checkWorkersDoneUnlocked sd =
     (let numDone = numWorkersDone sd + numWorkersDoneWithError sd in
      if numWorkersDoneWithError sd \<noteq> 0 then (Inl (WorkerException ''Worker encountered error''), True, interruptWorkers sd)
      else
        (Inr (numDone = of_nat (length (workerVec sd))), gotUserInterruptSignalT sd \<noteq> 0,
         if gotUserInterruptSignalT sd \<noteq> 0 then interruptWorkers sd else sd))"

text \<open>\<open>elapsedSecs\<close> is the time since the start of the phase.\<close>

definition checkPhaseTimeLimitUnlocked :: "u64 \<Rightarrow> u64 \<Rightarrow> shared_data \<Rightarrow> bool \<times> shared_data" where
  "checkPhaseTimeLimitUnlocked timeLimitSecs elapsedSecs sd =
     (if timeLimitSecs = 0 then (False, sd)
      else if timeLimitSecs \<le> elapsedSecs then (True, interruptWorkers (sd\<lparr>isPhaseTimeExpired := True\<rparr>))
      else (False, sd))"

definition startNextPhase :: "bench_phase \<Rightarrow> nat \<Rightarrow> shared_data \<Rightarrow> shared_data" where
  "startNextPhase newBenchPhase newBenchID sd =
     (let sd = resetNumWorkersDoneUnlocked sd;
          sd = sd\<lparr>workerVec := map w_resetStats (workerVec sd)\<rparr>
      in sd\<lparr>currentBenchID := newBenchID, currentBenchPhase := newBenchPhase\<rparr>)"

text \<open>The local workers of a run, which \<open>prepareThreads\<close> makes.\<close>

definition prepareThreads :: "prog_args \<Rightarrow> shared_data" where
  "prepareThreads pa =
     \<lparr>currentBenchPhase = BenchPhase_IDLE, currentBenchID = 0, numWorkersDone = 0, numWorkersDoneWithError = 0,
      workerVec = map (\<lambda>i. w_new (pa_rankOffset pa + of_nat i)) [0..<unat (pa_numThreads pa)],
      gotUserInterruptSignalT = 0, isPhaseTimeExpired = False\<rparr>"

text \<open>\<open>getPhaseNumEntriesAndBytes\<close>: the numbers of entries and bytes that a worker has to do in a phase, for the live statistics.\<close>

definition checked_div :: "u64 \<Rightarrow> u64 \<Rightarrow> u64 result" where
  "checked_div a b = (if b = 0 then Inl (Fault ''division by zero'') else Inr (a div b))"

definition dir_mode_entries_bytes :: "prog_args \<Rightarrow> bench_phase \<Rightarrow> (u64 \<times> u64) result" where
  "dir_mode_entries_bytes pa benchPhase =
     (let numDirs = (if pa_numDirs pa \<noteq> 0 then pa_numDirs pa else 1) in
      if benchPhase \<in> {BenchPhase_CREATEDIRS, BenchPhase_DELETEDIRS, BenchPhase_PUTBUCKETACL, BenchPhase_GETBUCKETACL}
      then Inr (pa_numDirs pa, 0)
      else if benchPhase \<in> {BenchPhase_CREATEFILES, BenchPhase_READFILES}
      then
        (if benchPhase = BenchPhase_READFILES \<and> pa_benchMode pa = BenchMode_S3 \<and> pa_useS3RandObjSelect pa
         then bindE (checked_div (pa_randomAmount pa) (pa_numDataSetThreads pa)) (\<lambda>bytes. Inr (0, bytes))
         else Inr (numDirs * pa_numFiles pa, numDirs * pa_numFiles pa * pa_fileSize pa))
      else if benchPhase \<in> {BenchPhase_DELETEFILES, BenchPhase_STATFILES, BenchPhase_PUTOBJACL, BenchPhase_GETOBJACL, BenchPhase_LISTOBJPARALLEL}
      then Inr (numDirs * pa_numFiles pa, 0)
      else Inr (0, 0))"

definition tree_entries_bytes :: "prog_args \<Rightarrow> bench_phase \<Rightarrow> (u64 \<times> u64) result" where
  "tree_entries_bytes pa benchPhase =
     (let ct = pa_customTree pa;
          numFiles = numPaths (ct_filesNonShared ct) + numPaths (ct_filesShared ct);
          numBytesTotal = ps_numBytesTotal (ct_filesNonShared ct) + ps_numBytesTotal (ct_filesShared ct);
          numDataSetThreads = pa_numDataSetThreads pa in
      if benchPhase \<in> {BenchPhase_CREATEDIRS, BenchPhase_DELETEDIRS}
      then bindE (checked_div (numPaths (ct_dirs ct)) numDataSetThreads) (\<lambda>entries. Inr (entries, 0))
      else if benchPhase \<in> {BenchPhase_CREATEFILES, BenchPhase_READFILES}
      then bindE (checked_div numFiles numDataSetThreads) (\<lambda>entries. bindE (checked_div numBytesTotal numDataSetThreads) (\<lambda>bytes. Inr (entries, bytes)))
      else if benchPhase \<in> {BenchPhase_DELETEFILES, BenchPhase_STATFILES, BenchPhase_PUTOBJACL, BenchPhase_GETOBJACL, BenchPhase_S3MPUCOMPLETE}
      then bindE (checked_div numFiles numDataSetThreads) (\<lambda>entries. Inr (entries, 0))
      else Inr (0, 0))"

definition file_mode_entries_bytes :: "prog_args \<Rightarrow> bench_phase \<Rightarrow> (u64 \<times> u64) result" where
  "file_mode_entries_bytes pa benchPhase =
     (let entries = of_nat (length (pa_benchPathsVec pa)) in
      if benchPhase \<in> {BenchPhase_CREATEFILES, BenchPhase_READFILES}
      then bindE (checked_div (if pa_useRandomOffsets pa then pa_randomAmount pa else entries * pa_fileSize pa) (pa_numDataSetThreads pa))
             (\<lambda>bytes. Inr (entries, bytes))
      else Inr (entries, 0))"

definition netbench_entries_bytes :: "prog_args \<Rightarrow> (u64 \<times> u64) result" where
  "netbench_entries_bytes pa =
     (let reqRespSizeSum = pa_blockSize pa + pa_netBenchRespSize pa;
          numBlocks = (if pa_blockSize pa \<noteq> 0 then pa_fileSize pa div pa_blockSize pa else 0)
      in Inr (0, pa_numThreads pa * numBlocks * reqRespSizeSum))"

definition getPhaseNumEntriesAndBytes :: "prog_args \<Rightarrow> bench_phase \<Rightarrow> bench_path_type \<Rightarrow> (u64 \<times> u64) result" where
  "getPhaseNumEntriesAndBytes pa benchPhase benchPathType =
     (if benchPathType = BenchPathType_DIR \<and> pa_benchMode pa = BenchMode_NETBENCH then netbench_entries_bytes pa
      else
        bindE (if benchPathType = BenchPathType_DIR
               then if pa_treeFilePath pa = [] then dir_mode_entries_bytes pa benchPhase else tree_entries_bytes pa benchPhase
               else file_mode_entries_bytes pa benchPhase)
          (\<lambda>(entries, bytes).
             if pa_hostsVec pa \<noteq> [] then Inr (entries * pa_numThreads pa, bytes * pa_numThreads pa) else Inr (entries, bytes)))"

subsection \<open>Coordinator\<close>

datatype interruption = ProgInterruptedException string | ProgTimeLimitException string

definition checkInterruptionBetweenPhases :: "shared_data \<Rightarrow> interruption + unit" where
  "checkInterruptionBetweenPhases sd =
     (if gotUserInterruptSignalT sd \<noteq> 0 then Inl (ProgInterruptedException ''Terminating due to interrupt signal.'')
      else if isPhaseTimeExpired sd then Inl (ProgTimeLimitException ''Terminating due to phase time limit.'')
      else Inr ())"

definition getS3BucketMetadataRequested :: "prog_args \<Rightarrow> bool" where
  "getS3BucketMetadataRequested pa \<longleftrightarrow> pa_doS3BucketTag pa \<or> pa_doS3ObjectLockCfg pa \<or> pa_doS3BucketVersioning pa"

definition getS3ObjectMetadataRequested :: "prog_args \<Rightarrow> bool" where
  "getS3ObjectMetadataRequested pa \<longleftrightarrow> pa_doS3ObjectTag pa"

definition allBenchPhasesArray :: "prog_args \<Rightarrow> (bench_phase \<times> bool) list" where
  "allBenchPhasesArray pa =
     [(BenchPhase_CREATEDIRS, pa_runCreateDirsPhase pa),
      (BenchPhase_PUTBUCKETACL, pa_runS3BucketAclPut pa),
      (BenchPhase_PUT_S3_BUCKET_MD, getS3BucketMetadataRequested pa \<and> pa_runCreateDirsPhase pa),
      (BenchPhase_STATDIRS, pa_runS3StatDirs pa),
      (BenchPhase_GET_S3_BUCKET_MD, getS3BucketMetadataRequested pa),
      (BenchPhase_CREATEFILES, pa_runCreateFilesPhase pa),
      (BenchPhase_S3MPUCOMPLETE, pa_runS3MPUSharingCompletionPhase pa),
      (BenchPhase_PUTOBJACL, pa_runS3AclPut pa),
      (BenchPhase_PUT_S3_OBJECT_MD, getS3ObjectMetadataRequested pa \<and> pa_runCreateFilesPhase pa),
      (BenchPhase_STATFILES, pa_runStatFilesPhase pa),
      (BenchPhase_GET_S3_OBJECT_MD, getS3ObjectMetadataRequested pa),
      (BenchPhase_GETOBJACL, pa_runS3AclGet pa),
      (BenchPhase_LISTOBJECTS, 0 < pa_runS3ListObjNum pa),
      (BenchPhase_LISTOBJPARALLEL, pa_runS3ListObjParallel pa),
      (BenchPhase_READFILES, pa_runReadPhase pa),
      (BenchPhase_DEL_S3_OBJECT_MD, getS3ObjectMetadataRequested pa \<and> pa_runDeleteFilesPhase pa),
      (BenchPhase_MULTIDELOBJ, 0 < pa_runS3MultiDelObjNum pa),
      (BenchPhase_DELETEFILES, pa_runDeleteFilesPhase pa),
      (BenchPhase_DEL_S3_BUCKET_MD, getS3BucketMetadataRequested pa \<and> pa_runDeleteDirsPhase pa),
      (BenchPhase_GETBUCKETACL, pa_runS3BucketAclGet pa),
      (BenchPhase_DELETEDIRS, pa_runDeleteDirsPhase pa)]"

definition enabledBenchPhasesVec :: "prog_args \<Rightarrow> bench_phase list" where
  "enabledBenchPhasesVec pa = map fst (filter snd (allBenchPhasesArray pa))"

text \<open>The phases that \<open>runSyncAndDropCaches\<close> and \<open>runBenchmarks\<close> run, in order, each with its time limit.\<close>

definition runSyncAndDropCaches :: "prog_args \<Rightarrow> (bench_phase \<times> u64) list" where
  "runSyncAndDropCaches pa =
     (if pa_runSyncPhase pa then [(BenchPhase_SYNC, 0)] else []) @
     (if pa_runDropCachesPhase pa then [(BenchPhase_DROPCACHES, 0)] else [])"

definition runBenchmarks :: "prog_args \<Rightarrow> (bench_phase \<times> u64) list" where
  "runBenchmarks pa =
     concat (replicate (unat (pa_iterations pa))
       (runSyncAndDropCaches pa @
        concat (map (\<lambda>phase. (phase, pa_timeLimitSecs pa) # runSyncAndDropCaches pa) (enabledBenchPhasesVec pa))))"

definition hasUserRequestedDryRun :: "prog_args \<Rightarrow> bool" where
  "hasUserRequestedDryRun pa \<longleftrightarrow> pa_argsVariablesMap pa ''dryrun'' \<noteq> None"

text \<open>The handler of signals. The result tells whether the next signal ends the process.\<close>

definition SIGINT_GRACEFUL_SHUTDOWN_TIME_SECS :: u32 where
  "SIGINT_GRACEFUL_SHUTDOWN_TIME_SECS = 5"

definition handleInterruptSignal :: "u32 \<Rightarrow> shared_data \<Rightarrow> bool \<times> shared_data" where
  "handleInterruptSignal now sd =
     (if gotUserInterruptSignalT sd = 0 then (False, sd\<lparr>gotUserInterruptSignalT := now\<rparr>)
      else (SIGINT_GRACEFUL_SHUTDOWN_TIME_SECS < now - gotUserInterruptSignalT sd, sd))"

subsection \<open>The work of a phase\<close>

text \<open>The routine that \<open>LocalWorker::run\<close> calls in a phase.\<close>

datatype phase_routine =
    Terminate
  | HdfsDirModeIterateDirs
  | S3ModeIterateBuckets
  | DirModeIterateDirs
  | DirModeIterateCustomDirs
  | NetbenchDoTransfer
  | HdfsDirModeIterateFiles
  | S3ModeIterateObjects
  | S3ModeIterateCustomObjects
  | DirModeIterateFiles
  | DirModeIterateCustomFiles
  | FileModeIterateFilesRand
  | FileModeIterateFilesSeq
  | S3ModeIterateAndCompleteMpuIDs
  | S3ModeListObjects
  | S3ModeListObjParallel
  | S3ModeListAndMultiDeleteObjects
  | FileModeDeleteFiles
  | AnyModeSync
  | AnyModeDropCaches

definition run_dirs :: "prog_args \<Rightarrow> phase_routine result" where
  "run_dirs pa =
     (if pa_benchPathType pa \<noteq> BenchPathType_DIR
      then Inl (WorkerException ''Directory creation and deletion are not available in file and block device mode.'')
      else if pa_benchMode pa = BenchMode_HDFS then Inr HdfsDirModeIterateDirs
      else if pa_benchMode pa = BenchMode_S3 then Inr S3ModeIterateBuckets
      else Inr (if pa_treeFilePath pa = [] then DirModeIterateDirs else DirModeIterateCustomDirs))"

definition run_objects :: "prog_args \<Rightarrow> phase_routine" where
  "run_objects pa = (if pa_treeFilePath pa = [] then S3ModeIterateObjects else S3ModeIterateCustomObjects)"

definition run_dir_files :: "prog_args \<Rightarrow> phase_routine" where
  "run_dir_files pa =
     (if pa_benchMode pa = BenchMode_HDFS then HdfsDirModeIterateFiles
      else if pa_benchMode pa = BenchMode_S3 then run_objects pa
      else if pa_treeFilePath pa = [] then DirModeIterateFiles else DirModeIterateCustomFiles)"

definition run_files :: "prog_args \<Rightarrow> phase_routine" where
  "run_files pa =
     (if pa_benchPathType pa = BenchPathType_DIR
      then if pa_benchMode pa = BenchMode_NETBENCH then NetbenchDoTransfer else run_dir_files pa
      else if pa_useRandomOffsets pa \<or> pa_useStridedAccess pa then FileModeIterateFilesRand else FileModeIterateFilesSeq)"

definition unknown_phase_msg :: string where
  "unknown_phase_msg = ''Unknown/invalid next phase type: 0''"

definition run_phase :: "prog_args \<Rightarrow> bench_phase \<Rightarrow> phase_routine result" where
  "run_phase pa phase =
     (case phase of
        BenchPhase_TERMINATE \<Rightarrow> Inr Terminate
      | BenchPhase_CREATEDIRS \<Rightarrow> run_dirs pa
      | BenchPhase_DELETEDIRS \<Rightarrow> run_dirs pa
      | BenchPhase_STATDIRS \<Rightarrow> run_dirs pa
      | BenchPhase_GET_S3_BUCKET_MD \<Rightarrow> Inr S3ModeIterateBuckets
      | BenchPhase_PUT_S3_BUCKET_MD \<Rightarrow> Inr S3ModeIterateBuckets
      | BenchPhase_DEL_S3_BUCKET_MD \<Rightarrow> Inr S3ModeIterateBuckets
      | BenchPhase_CREATEFILES \<Rightarrow> Inr (run_files pa)
      | BenchPhase_READFILES \<Rightarrow> Inr (run_files pa)
      | BenchPhase_S3MPUCOMPLETE \<Rightarrow> Inr S3ModeIterateAndCompleteMpuIDs
      | BenchPhase_GET_S3_OBJECT_MD \<Rightarrow> Inr (run_objects pa)
      | BenchPhase_PUT_S3_OBJECT_MD \<Rightarrow> Inr (run_objects pa)
      | BenchPhase_DEL_S3_OBJECT_MD \<Rightarrow> Inr (run_objects pa)
      | BenchPhase_STATFILES \<Rightarrow>
          (if pa_benchPathType pa \<noteq> BenchPathType_DIR
           then Inl (WorkerException ''File stat operation not available in file and block device mode.'')
           else Inr (run_dir_files pa))
      | BenchPhase_PUTBUCKETACL \<Rightarrow> Inr S3ModeIterateBuckets
      | BenchPhase_GETBUCKETACL \<Rightarrow> Inr S3ModeIterateBuckets
      | BenchPhase_PUTOBJACL \<Rightarrow> Inr (run_objects pa)
      | BenchPhase_GETOBJACL \<Rightarrow> Inr (run_objects pa)
      | BenchPhase_LISTOBJECTS \<Rightarrow> Inr S3ModeListObjects
      | BenchPhase_LISTOBJPARALLEL \<Rightarrow>
          (if pa_treeFilePath pa \<noteq> [] then Inl (WorkerException ''Parallel object listing is not available in custom tree mode.'')
           else Inr S3ModeListObjParallel)
      | BenchPhase_MULTIDELOBJ \<Rightarrow> Inr S3ModeListAndMultiDeleteObjects
      | BenchPhase_DELETEFILES \<Rightarrow> Inr (if pa_benchPathType pa = BenchPathType_DIR then run_dir_files pa else FileModeDeleteFiles)
      | BenchPhase_SYNC \<Rightarrow> Inr AnyModeSync
      | BenchPhase_DROPCACHES \<Rightarrow> Inr AnyModeDropCaches
      | BenchPhase_IDLE \<Rightarrow> Inl (WorkerException unknown_phase_msg))"

text \<open>Every phase that the coordinator starts has a routine, or is refused with a message of its own.\<close>

lemma run_phase_unknown: "run_phase pa phase = Inl (WorkerException unknown_phase_msg) \<Longrightarrow> phase = BenchPhase_IDLE"
  by (cases phase) (simp_all add: run_phase_def run_dirs_def unknown_phase_msg_def split: if_splits)

lemma enabled_subset: "set (enabledBenchPhasesVec pa) \<subseteq> set (map fst (allBenchPhasesArray pa))"
  by (auto simp: enabledBenchPhasesVec_def)

lemma enabled_not_idle:
  assumes "phase \<in> set (enabledBenchPhasesVec pa)"
  shows "phase \<noteq> BenchPhase_IDLE \<and> phase \<noteq> BenchPhase_TERMINATE"
proof -
  have "BenchPhase_IDLE \<notin> set (map fst (allBenchPhasesArray pa))" "BenchPhase_TERMINATE \<notin> set (map fst (allBenchPhasesArray pa))"
    by (simp_all add: allBenchPhasesArray_def)
  then show ?thesis
    using assms enabled_subset [of pa] by blast
qed

lemma scheduled_not_idle: "(phase, limit) \<in> set (runBenchmarks pa) \<Longrightarrow> phase \<noteq> BenchPhase_IDLE \<and> phase \<noteq> BenchPhase_TERMINATE"
  using enabled_not_idle [of phase pa] by (auto simp: runBenchmarks_def runSyncAndDropCaches_def split: if_splits)

lemma scheduled_phase_known:
  assumes "(phase, limit) \<in> set (runBenchmarks pa)"
  shows "run_phase pa phase \<noteq> Inl (WorkerException unknown_phase_msg)"
  using scheduled_not_idle [OF assms] run_phase_unknown by blast

subsection \<open>Threads\<close>

text \<open>
  Where a worker is: it prepares; it has finished a phase or the preparation (before and after it sets its flag); it
  checks whether a new phase was started after the one with the given ID, or sleeps until it is notified; it was told of a
  phase; it works; it failed; its thread has ended. A finished worker goes on to wait for the phase behind the one with the given
  ID, or ends.
\<close>

datatype worker_pc =
    WPrepare
  | WFinish "nat option"
  | WCount "nat option"
  | WCheck nat
  | WSleep nat
  | WStart
  | WRun nat
  | WFail
  | WExit

text \<open>Where the main thread is: it waits for the preparation, or for the end of a phase with a time limit; a phase has ended; it is between phases;
  it waits for the threads to end.\<close>

datatype manager_pc =
    MPrepare
  | MWait u64
  | MOver
  | MIdle
  | MJoin

text \<open>
  \<open>ps_dryRun\<close> tells whether only a dry run was requested, \<open>ps_todo\<close> are the phases that are left to run, and \<open>ps_retVal\<close> is the local variable of
  \<open>Coordinator::main\<close>.
\<close>

record phase_sys =
  ps_shared :: shared_data
  ps_pcs :: "worker_pc list"
  ps_mpc :: manager_pc
  ps_dryRun :: bool
  ps_todo :: "(bench_phase \<times> u64) list"
  ps_retVal :: int

definition notify :: "worker_pc \<Rightarrow> worker_pc" where
  "notify pc = (case pc of WSleep b \<Rightarrow> WCheck b | _ \<Rightarrow> pc)"

definition notify_all :: "phase_sys \<Rightarrow> phase_sys" where
  "notify_all s = s\<lparr>ps_pcs := map notify (ps_pcs s)\<rparr>"

definition set_pc :: "nat \<Rightarrow> worker_pc \<Rightarrow> phase_sys \<Rightarrow> phase_sys" where
  "set_pc i pc s = s\<lparr>ps_pcs := (ps_pcs s)[i := pc]\<rparr>"

definition upd_shared :: "(shared_data \<Rightarrow> shared_data) \<Rightarrow> phase_sys \<Rightarrow> phase_sys" where
  "upd_shared f s = s\<lparr>ps_shared := f (ps_shared s)\<rparr>"

definition worker_at :: "phase_sys \<Rightarrow> nat \<Rightarrow> worker" where
  "worker_at s i = workerVec (ps_shared s) ! i"

definition upd_worker :: "nat \<Rightarrow> (worker \<Rightarrow> worker) \<Rightarrow> phase_sys \<Rightarrow> phase_sys" where
  "upd_worker i f s = upd_shared (\<lambda>sd. sd\<lparr>workerVec := (workerVec sd)[i := f (workerVec sd ! i)]\<rparr>) s"

text \<open>The handler of an interruption in \<open>LocalWorker::run\<close>, which does not count a worker a second time.\<close>

definition interrupted_pc :: "worker \<Rightarrow> worker_pc" where
  "interrupted_pc w = (if w_phaseFinished w then WExit else WFinish None)"

text \<open>\<open>finishPhase\<close> up to its call of \<open>incNumWorkersDone\<close>.\<close>

definition finish_stats :: "u64 \<Rightarrow> worker \<Rightarrow> worker" where
  "finish_stats elapsedUSec w =
     w\<lparr>w_elapsedUSecVec := (if w_workerGotPhaseWork w then [elapsedUSec] else []), w_phaseFinished := True\<rparr>"

definition set_phaseFinished :: "worker \<Rightarrow> worker" where
  "set_phaseFinished w = w\<lparr>w_phaseFinished := True\<rparr>"

definition do_work :: "live_ops \<Rightarrow> live_ops \<Rightarrow> bool \<Rightarrow> worker \<Rightarrow> worker" where
  "do_work ops opsReadMix gotWork w = w\<lparr>w_liveOps := ops, w_liveOpsReadMix := opsReadMix, w_workerGotPhaseWork := gotWork\<rparr>"

text \<open>
  The steps of the worker at a position. The preparation and the work may fail. A sleeping thread has no step.
\<close>

inductive worker_step :: "nat \<Rightarrow> phase_sys \<Rightarrow> phase_sys \<Rightarrow> bool" for i :: nat where
  prepared: "ps_pcs s ! i = WPrepare \<Longrightarrow> worker_step i s (set_pc i (WCount (Some 0)) (upd_worker i set_phaseFinished s))"
| finish: "ps_pcs s ! i = WFinish a \<Longrightarrow> worker_step i s (set_pc i (WCount a) (upd_worker i (finish_stats elapsed) s))"
| count: "ps_pcs s ! i = WCount a \<Longrightarrow>
    worker_step i s (set_pc i (case a of None \<Rightarrow> WExit | Some b \<Rightarrow> WCheck b) (notify_all (upd_shared (incNumWorkersDone False i) s)))"
| check: "ps_pcs s ! i = WCheck b \<Longrightarrow> \<not> w_isInterruptionRequested (worker_at s i) \<Longrightarrow>
    worker_step i s (set_pc i (if b = currentBenchID (ps_shared s) then WSleep b else WStart) s)"
| start_terminate: "ps_pcs s ! i = WStart \<Longrightarrow> currentBenchPhase (ps_shared s) = BenchPhase_TERMINATE \<Longrightarrow>
    worker_step i s (set_pc i (WCount None) s)"
| start_work: "ps_pcs s ! i = WStart \<Longrightarrow> currentBenchPhase (ps_shared s) \<noteq> BenchPhase_TERMINATE \<Longrightarrow>
    worker_step i s (set_pc i (WRun (currentBenchID (ps_shared s))) s)"
| work_done: "ps_pcs s ! i = WRun b \<Longrightarrow> \<not> w_isInterruptionRequested (worker_at s i) \<Longrightarrow>
    worker_step i s (set_pc i (WFinish (Some b)) s)"
| interrupted: "ps_pcs s ! i = WPrepare \<or> ps_pcs s ! i = WCheck b \<or> ps_pcs s ! i = WRun b \<Longrightarrow>
    w_isInterruptionRequested (worker_at s i) \<Longrightarrow> worker_step i s (set_pc i (interrupted_pc (worker_at s i)) s)"
| throws: "ps_pcs s ! i = WPrepare \<or> ps_pcs s ! i = WStart \<or> ps_pcs s ! i = WRun b \<Longrightarrow> worker_step i s (set_pc i WFail s)"
| fail: "ps_pcs s ! i = WFail \<Longrightarrow> worker_step i s (set_pc i WExit (notify_all (upd_shared incNumWorkersDoneWithError s)))"

text \<open>
  One check of the main thread for the end of a phase, and for its time limit: the body of the loop of \<open>waitForWorkersDone\<close>; without a
  time limit, also the check of the live statistics.
\<close>

definition notify_if :: "bool \<times> shared_data \<Rightarrow> phase_sys \<Rightarrow> phase_sys" where
  "notify_if r s = (if fst r then notify_all (s\<lparr>ps_shared := snd r\<rparr>) else s\<lparr>ps_shared := snd r\<rparr>)"

definition check_limit :: "u64 \<Rightarrow> u64 \<Rightarrow> phase_sys \<Rightarrow> phase_sys" where
  "check_limit timeLimitSecs elapsedSecs s = notify_if (checkPhaseTimeLimitUnlocked timeLimitSecs elapsedSecs (ps_shared s)) s"

definition check_workers :: "u64 \<Rightarrow> u64 \<Rightarrow> manager_pc \<Rightarrow> phase_sys \<Rightarrow> phase_sys" where
  "check_workers timeLimitSecs elapsedSecs over s =
     (case checkWorkersDoneUnlocked (ps_shared s) of
        (Inl ex, r) \<Rightarrow> (notify_if r s)\<lparr>ps_mpc := MJoin\<rparr>
      | (Inr isDone, r) \<Rightarrow>
          (let s = check_limit timeLimitSecs elapsedSecs (notify_if r s) in if isDone then s\<lparr>ps_mpc := over\<rparr> else s))"

definition interrupt_all :: "phase_sys \<Rightarrow> phase_sys" where
  "interrupt_all s = notify_all (upd_shared interruptWorkers s)"

text \<open>
  The steps of the main thread. Its waits are timed, so it checks at any moment. A new phase gets an ID that differs from the last one. After the last phase
  it tells the workers to end; after an interruption, or if the start time has passed, it interrupts them.
\<close>

inductive manager_step :: "phase_sys \<Rightarrow> phase_sys \<Rightarrow> bool" where
  prepared: "ps_mpc s = MPrepare \<Longrightarrow> manager_step s (check_workers 0 elapsed MIdle s)"
| wait: "ps_mpc s = MWait limit \<Longrightarrow> manager_step s (check_workers limit elapsed MOver s)"
| live_check: "ps_mpc s = MWait limit \<Longrightarrow> manager_step s (check_workers 0 elapsed (MWait limit) s)"
| live_limit: "ps_mpc s = MWait limit \<Longrightarrow> manager_step s (check_limit limit elapsed s)"
| over: "ps_mpc s = MOver \<Longrightarrow> checkInterruptionBetweenPhases (ps_shared s) = Inr () \<Longrightarrow> manager_step s (s\<lparr>ps_mpc := MIdle\<rparr>)"
| next_phase: "ps_mpc s = MIdle \<Longrightarrow> ps_todo s = (phase, limit) # todo \<Longrightarrow> checkInterruptionBetweenPhases (ps_shared s) = Inr () \<Longrightarrow>
    newID \<noteq> currentBenchID (ps_shared s) \<Longrightarrow>
    manager_step s (notify_all (upd_shared (startNextPhase phase newID) (s\<lparr>ps_mpc := MWait limit, ps_todo := todo\<rparr>)))"
| terminate: "ps_mpc s = MIdle \<Longrightarrow> ps_todo s = [] \<Longrightarrow> newID \<noteq> currentBenchID (ps_shared s) \<Longrightarrow>
    manager_step s (notify_all (upd_shared (startNextPhase BenchPhase_TERMINATE newID) (s\<lparr>ps_mpc := MJoin\<rparr>)))"
| abort: "ps_mpc s = MOver \<or> ps_mpc s = MIdle \<and> ps_todo s \<noteq> [] \<Longrightarrow> checkInterruptionBetweenPhases (ps_shared s) = Inl ex \<Longrightarrow>
    manager_step s (interrupt_all (s\<lparr>ps_mpc := MJoin,
      ps_retVal := (case ex of ProgInterruptedException _ \<Rightarrow> 1 | ProgTimeLimitException _ \<Rightarrow> ps_retVal s)\<rparr>))"
| start_passed: "ps_mpc s = MIdle \<Longrightarrow> \<not> ps_dryRun s \<Longrightarrow> currentBenchID (ps_shared s) = 0 \<Longrightarrow>
    manager_step s (interrupt_all (s\<lparr>ps_mpc := MJoin, ps_retVal := 1\<rparr>))"

text \<open>
  The steps by which the threads go on: those of the workers and of the main thread, and a signal, which can arrive as soon as its
  handler has been registered.
\<close>

inductive thread_step :: "phase_sys \<Rightarrow> phase_sys \<Rightarrow> bool" where
  worker: "i < length (ps_pcs s) \<Longrightarrow> worker_step i s t \<Longrightarrow> thread_step s t"
| manager: "manager_step s t \<Longrightarrow> thread_step s t"
| signal: "ps_mpc s \<noteq> MPrepare \<Longrightarrow> thread_step s (upd_shared (\<lambda>sd. snd (handleInterruptSignal now sd)) s)"

text \<open>
  All steps: also the work of a worker in its phase, which is any growth of its counters (it may find out that it got no work), and a
  sleeping thread that wakes up although nobody notified it.
\<close>

inductive phase_step :: "phase_sys \<Rightarrow> phase_sys \<Rightarrow> bool" where
  thread: "thread_step s t \<Longrightarrow> phase_step s t"
| work: "i < length (ps_pcs s) \<Longrightarrow> ps_pcs s ! i = WRun b \<Longrightarrow> live_le (w_liveOps (worker_at s i)) ops \<Longrightarrow>
    live_le (w_liveOpsReadMix (worker_at s i)) opsReadMix \<Longrightarrow> phase_step s (upd_worker i (do_work ops opsReadMix gotWork) s)"
| spurious: "i < length (ps_pcs s) \<Longrightarrow> ps_pcs s ! i = WSleep b \<Longrightarrow> phase_step s (set_pc i (WCheck b) s)"

definition phase_start :: "prog_args \<Rightarrow> phase_sys" where
  "phase_start pa =
     \<lparr>ps_shared = prepareThreads pa, ps_pcs = replicate (unat (pa_numThreads pa)) WPrepare, ps_mpc = MPrepare,
      ps_dryRun = hasUserRequestedDryRun pa, ps_todo = (if hasUserRequestedDryRun pa then [] else runBenchmarks pa), ps_retVal = 0\<rparr>"

text \<open>All threads have ended; the exit status that \<open>Coordinator::main\<close> returns then.\<close>

definition joined :: "phase_sys \<Rightarrow> bool" where
  "joined s \<longleftrightarrow> ps_mpc s = MJoin \<and> (\<forall>pc\<in>set (ps_pcs s). pc = WExit)"

definition exit_status :: "phase_sys \<Rightarrow> int" where
  "exit_status s = (if ps_retVal s \<noteq> 0 \<or> numWorkersDoneWithError (ps_shared s) \<noteq> 0 then 1 else ps_retVal s)"

end
