(* ===== verification/PhaseSafety.thy ===== *)
theory PhaseSafety
  imports Phases
begin

text \<open>
  The invariant of the threads that go through the phases: where a worker may be, how many workers have been counted, what the main thread
  relies on at each of its positions, and when the first-done results are there. Every step keeps it.
\<close>

subsection \<open>Which workers have been counted\<close>

definition counted :: "nat \<Rightarrow> worker_pc \<Rightarrow> bool" where
  "counted cur pc = (case pc of WCheck b \<Rightarrow> b = cur | WSleep b \<Rightarrow> b = cur | WExit \<Rightarrow> True | _ \<Rightarrow> False)"

definition num_counted :: "nat \<Rightarrow> worker_pc list \<Rightarrow> nat" where
  "num_counted cur pcs = length (filter (counted cur) pcs)"

lemma counted_notify [simp]: "counted cur (notify pc) = counted cur pc"
  by (simp add: counted_def notify_def split: worker_pc.split)

lemma num_counted_notify [simp]: "num_counted cur (map notify pcs) = num_counted cur pcs"
  by (simp add: num_counted_def filter_map comp_def)

lemma num_counted_update:
  assumes "i < length pcs"
  shows "num_counted cur (pcs[i := pc]) + of_bool (counted cur (pcs ! i)) = num_counted cur pcs + of_bool (counted cur pc)"
proof -
  have "pcs = take i pcs @ pcs ! i # drop (Suc i) pcs"
    using assms by (simp add: id_take_nth_drop)
  then have "num_counted cur pcs = num_counted cur (take i pcs @ pcs ! i # drop (Suc i) pcs)"
    by simp
  then show ?thesis
    using assms by (simp add: upd_conv_take_nth_drop num_counted_def)
qed

lemma num_counted_le: "num_counted cur pcs \<le> length pcs"
  by (simp add: num_counted_def)

lemma num_counted_all: "num_counted cur pcs = length pcs \<longleftrightarrow> (\<forall>pc\<in>set pcs. counted cur pc)"
  unfolding num_counted_def by (metis filter_id_conv length_filter_less linorder_neq_iff)

lemma num_counted_none: "(\<forall>pc\<in>set pcs. \<not> counted cur pc) \<Longrightarrow> num_counted cur pcs = 0"
  by (simp add: num_counted_def)

subsection \<open>Invariant\<close>

text \<open>
  Where a worker may be, and whether its phase is finished then. \<open>ending\<close> says that the workers were told to end, \<open>q\<close> that they were interrupted,
  \<open>err\<close> that one has failed.
\<close>

definition pc_ok :: "nat \<Rightarrow> bool \<Rightarrow> bool \<Rightarrow> bool \<Rightarrow> bool \<Rightarrow> worker_pc \<Rightarrow> bool" where
  "pc_ok cur ending q err fin pc =
     (case pc of
        WPrepare \<Rightarrow> \<not> fin \<and> cur = 0 \<and> \<not> ending
      | WFinish a \<Rightarrow> \<not> fin \<and> (case a of None \<Rightarrow> q | Some b \<Rightarrow> b = cur \<and> \<not> ending)
      | WCount a \<Rightarrow> (case a of None \<Rightarrow> q \<or> ending | Some b \<Rightarrow> fin \<and> b = cur \<and> \<not> ending)
      | WCheck b \<Rightarrow> if b = cur then fin \<and> \<not> ending else \<not> fin
      | WSleep b \<Rightarrow> b = cur \<and> fin \<and> \<not> q \<and> \<not> ending
      | WStart \<Rightarrow> \<not> fin
      | WRun b \<Rightarrow> \<not> fin \<and> b = cur \<and> \<not> ending
      | WFail \<Rightarrow> True
      | WExit \<Rightarrow> q \<or> ending \<or> err)"

abbreviation is_ending :: "shared_data \<Rightarrow> bool" where
  "is_ending sd \<equiv> currentBenchPhase sd = BenchPhase_TERMINATE"

abbreviation has_err :: "shared_data \<Rightarrow> bool" where
  "has_err sd \<equiv> numWorkersDoneWithError sd \<noteq> 0"

definition core_inv :: "bool \<Rightarrow> phase_sys \<Rightarrow> bool" where
  "core_inv q s \<longleftrightarrow>
     length (workerVec (ps_shared s)) = length (ps_pcs s) \<and> length (ps_pcs s) < 2 ^ 64 \<and>
     (\<forall>w\<in>set (workerVec (ps_shared s)). w_isInterruptionRequested w = q) \<and>
     (\<forall>i<length (ps_pcs s). pc_ok (currentBenchID (ps_shared s)) (is_ending (ps_shared s)) q (has_err (ps_shared s))
        (w_phaseFinished (worker_at s i)) (ps_pcs s ! i)) \<and>
     unat (numWorkersDone (ps_shared s)) + unat (numWorkersDoneWithError (ps_shared s)) =
       num_counted (currentBenchID (ps_shared s)) (ps_pcs s) \<and>
     (\<forall>(phase, limit)\<in>set (ps_todo s). phase \<noteq> BenchPhase_TERMINATE)"

abbreviation all_done :: "phase_sys \<Rightarrow> bool" where
  "all_done s \<equiv> \<not> has_err (ps_shared s) \<and> unat (numWorkersDone (ps_shared s)) = length (ps_pcs s)"

abbreviation stop_asked :: "shared_data \<Rightarrow> bool" where
  "stop_asked sd \<equiv> gotUserInterruptSignalT sd \<noteq> 0 \<or> isPhaseTimeExpired sd"

definition main_ok :: "bool \<Rightarrow> phase_sys \<Rightarrow> bool" where
  "main_ok q s =
     (case ps_mpc s of
        MPrepare \<Rightarrow> \<not> is_ending (ps_shared s) \<and> \<not> q \<and> \<not> stop_asked (ps_shared s)
      | MWait limit \<Rightarrow> \<not> is_ending (ps_shared s) \<and> (q \<longrightarrow> stop_asked (ps_shared s))
      | MOver \<Rightarrow> \<not> is_ending (ps_shared s) \<and> (q \<longrightarrow> stop_asked (ps_shared s)) \<and> all_done s
      | MIdle \<Rightarrow> \<not> is_ending (ps_shared s) \<and> \<not> q \<and> all_done s
      | MJoin \<Rightarrow> (q \<or> is_ending (ps_shared s)) \<and>
          (ps_retVal s = 0 \<longrightarrow> ps_todo s = [] \<or> isPhaseTimeExpired (ps_shared s) \<or> has_err (ps_shared s)))"

text \<open>The first-done results: all workers have them or none, they are no more than what was done at last, and they are there when all are done.\<close>

definition stone_inv :: "bool \<Rightarrow> phase_sys \<Rightarrow> bool" where
  "stone_inv t s \<longleftrightarrow>
     (\<forall>w\<in>set (workerVec (ps_shared s)). w_stoneWallTriggered w = t \<and>
        live_le (w_stoneWallOps w) (w_liveOps w) \<and> live_le (w_stoneWallOpsReadMix w) (w_liveOpsReadMix w)) \<and>
     (unat (numWorkersDone (ps_shared s)) = length (ps_pcs s) \<and> ps_pcs s \<noteq> [] \<longrightarrow> t)"

definition phase_inv :: "phase_sys \<Rightarrow> bool" where
  "phase_inv s \<longleftrightarrow> (\<exists>q t. core_inv q s \<and> main_ok q s \<and> stone_inv t s)"

subsection \<open>Updates\<close>

lemmas upd_simps = set_pc_def upd_shared_def upd_worker_def worker_at_def notify_all_def

lemma core_invD:
  assumes "core_inv q s"
  shows "length (workerVec (ps_shared s)) = length (ps_pcs s)" "length (ps_pcs s) < 2 ^ 64"
    "unat (numWorkersDone (ps_shared s)) + unat (numWorkersDoneWithError (ps_shared s)) = num_counted (currentBenchID (ps_shared s)) (ps_pcs s)"
    "\<And>i. i < length (ps_pcs s) \<Longrightarrow> w_isInterruptionRequested (worker_at s i) = q"
    "\<And>i. i < length (ps_pcs s) \<Longrightarrow> pc_ok (currentBenchID (ps_shared s)) (is_ending (ps_shared s)) q (has_err (ps_shared s))
        (w_phaseFinished (worker_at s i)) (ps_pcs s ! i)"
  using assms by (auto simp: core_inv_def worker_at_def)

lemma core_upd:
  assumes "core_inv q s" and "i < length (ps_pcs s)"
    and "w_isInterruptionRequested (f (worker_at s i)) = w_isInterruptionRequested (worker_at s i)"
    and "pc_ok (currentBenchID (ps_shared s)) (is_ending (ps_shared s)) q (has_err (ps_shared s)) (w_phaseFinished (f (worker_at s i))) pc"
    and "counted (currentBenchID (ps_shared s)) pc = counted (currentBenchID (ps_shared s)) (ps_pcs s ! i)"
  shows "core_inv q (set_pc i pc (upd_worker i f s))"
proof -
  have "num_counted (currentBenchID (ps_shared s)) ((ps_pcs s)[i := pc]) = num_counted (currentBenchID (ps_shared s)) (ps_pcs s)"
    using num_counted_update [OF assms(2), of "currentBenchID (ps_shared s)" pc] assms(5) by simp
  moreover have "\<forall>w\<in>set ((workerVec (ps_shared s))[i := f (worker_at s i)]). w_isInterruptionRequested w = q"
    using assms(1-3) by (auto simp: core_inv_def worker_at_def dest!: set_update_subset_insert [THEN subsetD])
  ultimately show ?thesis
    using assms(1,2,4) unfolding core_inv_def by (auto simp: upd_simps nth_list_update)
qed

lemma upd_worker_id [simp]: "upd_worker i (\<lambda>w. w) s = s"
  by (simp add: upd_worker_def upd_shared_def)

lemma set_pc_same [simp]: "set_pc i (ps_pcs s ! i) s = s"
  by (simp add: set_pc_def)

lemmas core_set_pc = core_upd [where f = "\<lambda>w. w", simplified]

lemma pc_ok_notify: "pc_ok cur e q err fin pc \<Longrightarrow> pc_ok cur e q err fin (notify pc)"
  by (auto simp: pc_ok_def notify_def split: worker_pc.splits)

lemma core_notify_all:
  assumes "core_inv q s"
  shows "core_inv q (notify_all s)"
  using assms unfolding core_inv_def by (auto simp: notify_all_def worker_at_def intro: pc_ok_notify)

lemma pc_ok_interrupt: "pc_ok cur e q err fin pc \<Longrightarrow> pc_ok cur e True err fin (notify pc)"
  by (auto simp: pc_ok_def notify_def split: worker_pc.splits option.splits)

lemma core_interrupt_all:
  assumes "core_inv q s"
  shows "core_inv True (interrupt_all s)"
  using assms unfolding core_inv_def interrupt_all_def
  by (auto simp: notify_all_def upd_shared_def interruptWorkers_def worker_at_def w_interruptExecution_def intro: pc_ok_interrupt)

subsection \<open>Counting\<close>

lemma incNumWorkersDone_fields [simp]:
  "currentBenchID (incNumWorkersDone svc i sd) = currentBenchID sd"
  "currentBenchPhase (incNumWorkersDone svc i sd) = currentBenchPhase sd"
  "numWorkersDoneWithError (incNumWorkersDone svc i sd) = numWorkersDoneWithError sd"
  "numWorkersDone (incNumWorkersDone svc i sd) = numWorkersDone sd + 1"
  "gotUserInterruptSignalT (incNumWorkersDone svc i sd) = gotUserInterruptSignalT sd"
  "isPhaseTimeExpired (incNumWorkersDone svc i sd) = isPhaseTimeExpired sd"
  "length (workerVec (incNumWorkersDone svc i sd)) = length (workerVec sd)"
  by (simp_all add: incNumWorkersDone_def incNumWorkersDoneUnlocked_def Let_def)

lemma incNumWorkersDone_worker:
  "j < length (workerVec sd) \<Longrightarrow> w_phaseFinished (workerVec (incNumWorkersDone svc i sd) ! j) = w_phaseFinished (workerVec sd ! j)"
  "(\<forall>w\<in>set (workerVec (incNumWorkersDone svc i sd)). w_isInterruptionRequested w = q) \<longleftrightarrow>
     (\<forall>w\<in>set (workerVec sd). w_isInterruptionRequested w = q)"
  by (simp_all add: incNumWorkersDone_def incNumWorkersDoneUnlocked_def w_createStoneWallStats_def Let_def)

lemma uncounted_room:
  assumes "core_inv q s" and "i < length (ps_pcs s)" and "\<not> counted (currentBenchID (ps_shared s)) (ps_pcs s ! i)"
  shows "unat (numWorkersDone (ps_shared s)) + unat (numWorkersDoneWithError (ps_shared s)) < length (ps_pcs s)"
proof -
  have "num_counted (currentBenchID (ps_shared s)) (ps_pcs s) \<noteq> length (ps_pcs s)"
    using assms(2,3) by (auto simp: num_counted_all)
  then show ?thesis
    using core_invD(3) [OF assms(1)] num_counted_le [of "currentBenchID (ps_shared s)" "ps_pcs s"] by simp
qed

lemma num_counted_inc:
  assumes "i < length pcs" and "\<not> counted cur (pcs ! i)" and "counted cur pc"
  shows "num_counted cur (pcs[i := pc]) = Suc (num_counted cur pcs)"
  using num_counted_update [OF assms(1), of cur pc] assms(2,3) by simp

lemma unat_inc_u64: "unat (n :: u64) < m \<Longrightarrow> m < 2 ^ 64 \<Longrightarrow> unat (n + 1) = Suc (unat n)"
  by (subst unat_add_no) auto

lemma core_count:
  assumes inv: "core_inv q s" and i: "i < length (ps_pcs s)" and pc: "ps_pcs s ! i = WCount a"
  shows "core_inv q (set_pc i (case a of None \<Rightarrow> WExit | Some b \<Rightarrow> WCheck b) (upd_shared (incNumWorkersDone False i) s))"
proof -
  let ?sd = "ps_shared s" and ?pc = "case a of None \<Rightarrow> WExit | Some b \<Rightarrow> WCheck b"
  have ok: "pc_ok (currentBenchID ?sd) (is_ending ?sd) q (has_err ?sd) (w_phaseFinished (worker_at s i)) ?pc"
    using core_invD(5) [OF inv i] by (auto simp: pc pc_ok_def split: option.splits)
  have cnt: "\<not> counted (currentBenchID ?sd) (ps_pcs s ! i)" "counted (currentBenchID ?sd) ?pc"
    using core_invD(5) [OF inv i] by (auto simp: pc pc_ok_def counted_def split: option.splits)
  have "unat (numWorkersDone ?sd + 1) = Suc (unat (numWorkersDone ?sd))"
    by (rule unat_inc_u64 [OF le_less_trans [OF le_add1 uncounted_room [OF inv i cnt(1)]] core_invD(2) [OF inv]])
  then have n: "unat (numWorkersDone ?sd + 1) + unat (numWorkersDoneWithError ?sd) =
      num_counted (currentBenchID ?sd) ((ps_pcs s)[i := ?pc])"
    using core_invD(3) [OF inv] num_counted_inc [OF i cnt] by simp
  show ?thesis
    using inv i ok n unfolding core_inv_def
    by (simp add: set_pc_def upd_shared_def worker_at_def nth_list_update incNumWorkersDone_worker)
qed

lemma core_fail:
  assumes inv: "core_inv q s" and i: "i < length (ps_pcs s)" and pc: "ps_pcs s ! i = WFail"
  shows "core_inv q (set_pc i WExit (upd_shared incNumWorkersDoneWithError s))"
    "numWorkersDoneWithError (ps_shared s) + 1 \<noteq> 0"
proof -
  let ?sd = "ps_shared s"
  have cnt: "\<not> counted (currentBenchID ?sd) (ps_pcs s ! i)" "counted (currentBenchID ?sd) WExit"
    by (simp_all add: pc counted_def)
  have u: "unat (numWorkersDoneWithError ?sd + 1) = Suc (unat (numWorkersDoneWithError ?sd))"
    by (rule unat_inc_u64 [OF le_less_trans [OF le_add2 uncounted_room [OF inv i cnt(1)]] core_invD(2) [OF inv]])
  then show nz: "numWorkersDoneWithError ?sd + 1 \<noteq> 0" by auto
  have n: "unat (numWorkersDone ?sd) + unat (numWorkersDoneWithError ?sd + 1) =
      num_counted (currentBenchID ?sd) ((ps_pcs s)[i := WExit])"
    using core_invD(3) [OF inv] num_counted_inc [OF i cnt] u by simp
  have mono: "pc_ok cur e q err fin pc \<Longrightarrow> pc_ok cur e q True fin pc" for cur e err fin pc
    by (auto simp: pc_ok_def split: worker_pc.splits)
  show "core_inv q (set_pc i WExit (upd_shared incNumWorkersDoneWithError s))"
    using inv i n nz unfolding core_inv_def
    by (auto simp: set_pc_def upd_shared_def worker_at_def nth_list_update incNumWorkersDoneWithError_def pc_ok_def [of _ _ _ _ _ WExit] intro: mono)
qed

subsection \<open>Steps of a worker\<close>

lemma main_ok_cong:
  assumes "ps_mpc t = ps_mpc s" and "ps_todo t = ps_todo s" and "ps_retVal t = ps_retVal s" and "length (ps_pcs t) = length (ps_pcs s)"
    and "currentBenchPhase (ps_shared t) = currentBenchPhase (ps_shared s)"
    and "numWorkersDone (ps_shared t) = numWorkersDone (ps_shared s)"
    and "numWorkersDoneWithError (ps_shared t) = numWorkersDoneWithError (ps_shared s)"
    and "gotUserInterruptSignalT (ps_shared t) = gotUserInterruptSignalT (ps_shared s)"
    and "isPhaseTimeExpired (ps_shared t) = isPhaseTimeExpired (ps_shared s)"
  shows "main_ok q t = main_ok q s"
  using assms by (simp add: main_ok_def split: manager_pc.split)

lemma main_ok_upd [simp]:
  "main_ok q (set_pc i pc s) = main_ok q s" "main_ok q (notify_all s) = main_ok q s" "main_ok q (upd_worker i f s) = main_ok q s"
  by (rule main_ok_cong; simp add: upd_simps)+

lemma stone_inv_upd [simp]:
  "stone_inv t (set_pc i pc s) = stone_inv t s" "stone_inv t (notify_all s) = stone_inv t s"
  by (simp_all add: stone_inv_def upd_simps)

lemma main_ok_count:
  assumes "core_inv q s" and "i < length (ps_pcs s)" and "ps_pcs s ! i = WCount a" and "main_ok q s"
  shows "main_ok q (upd_shared (incNumWorkersDone False i) s)"
  using uncounted_room [OF assms(1,2)] assms(3,4) by (auto simp: main_ok_def upd_shared_def counted_def split: manager_pc.splits)

lemma main_ok_fail:
  assumes "core_inv q s" and "i < length (ps_pcs s)" and "ps_pcs s ! i = WFail" and "main_ok q s"
  shows "main_ok q (upd_shared incNumWorkersDoneWithError s)"
  using uncounted_room [OF assms(1,2)] core_fail(2) [OF assms(1-3)] assms(3,4)
  by (auto simp: main_ok_def upd_shared_def counted_def incNumWorkersDoneWithError_def split: manager_pc.splits)

lemma stone_upd_worker:
  assumes "stone_inv t s" and "i < length (workerVec (ps_shared s))"
    and "w_stoneWallTriggered (f (worker_at s i)) = w_stoneWallTriggered (worker_at s i)"
    and "w_stoneWallOps (f (worker_at s i)) = w_stoneWallOps (worker_at s i)"
    and "w_stoneWallOpsReadMix (f (worker_at s i)) = w_stoneWallOpsReadMix (worker_at s i)"
    and "live_le (w_liveOps (worker_at s i)) (w_liveOps (f (worker_at s i)))"
    and "live_le (w_liveOpsReadMix (worker_at s i)) (w_liveOpsReadMix (f (worker_at s i)))"
  shows "stone_inv t (upd_worker i f s)"
proof -
  let ?ok = "\<lambda>w. w_stoneWallTriggered w = t \<and> live_le (w_stoneWallOps w) (w_liveOps w) \<and> live_le (w_stoneWallOpsReadMix w) (w_liveOpsReadMix w)"
  have "?ok (worker_at s i)"
    using assms(1,2) by (auto simp: stone_inv_def worker_at_def)
  then have "?ok (f (worker_at s i))"
    using assms(3-7) by (auto elim: live_le_trans)
  then have "\<forall>w\<in>set ((workerVec (ps_shared s))[i := f (worker_at s i)]). ?ok w"
    using assms(1) by (auto simp: stone_inv_def dest!: set_update_subset_insert [THEN subsetD])
  then show ?thesis
    using assms(1) by (simp add: stone_inv_def upd_simps)
qed

lemma stone_count:
  assumes core: "core_inv q s" and "stone_inv t s" and i: "i < length (ps_pcs s)" and "ps_pcs s ! i = WCount a"
  shows "\<exists>t. stone_inv t (upd_shared (incNumWorkersDone False i) s)"
proof -
  let ?sd = "ps_shared s"
  have N: "length (workerVec ?sd) = length (ps_pcs s)" by (rule core_invD(1) [OF core])
  have t: "w_stoneWallTriggered (workerVec ?sd ! i) = t"
    using assms(2) i by (simp add: stone_inv_def N [symmetric])
  have last: "numWorkersDone ?sd + 1 = of_nat (length (workerVec ?sd))" if "unat (numWorkersDone ?sd + 1) = length (ps_pcs s)"
    by (simp add: N that [symmetric])
  show ?thesis
  proof (cases "\<not> t \<and> (w_workerGotPhaseWork (workerVec ?sd ! i) \<or> numWorkersDone ?sd + 1 = of_nat (length (workerVec ?sd)))")
    case True
    then have "stone_inv True (upd_shared (incNumWorkersDone False i) s)"
      using t by (simp add: stone_inv_def upd_shared_def incNumWorkersDone_def incNumWorkersDoneUnlocked_def w_createStoneWallStats_def Let_def)
    then show ?thesis ..
  next
    case False
    then have "stone_inv t (upd_shared (incNumWorkersDone False i) s)"
      using assms(2) t last by (auto simp: stone_inv_def upd_shared_def incNumWorkersDone_def incNumWorkersDoneUnlocked_def Let_def)
    then show ?thesis ..
  qed
qed

lemma notify_set_pc: "set_pc i pc (notify_all (upd_shared f s)) = set_pc i pc (upd_shared f (notify_all s))"
  by (simp add: upd_simps)

lemma phase_invI: "core_inv q s \<Longrightarrow> main_ok q s \<Longrightarrow> stone_inv t s \<Longrightarrow> phase_inv s"
  by (auto simp: phase_inv_def)

lemma phase_inv_notify:
  assumes "phase_inv s"
  shows "phase_inv (notify_all s)"
  using assms by (auto simp: phase_inv_def intro: core_notify_all)

lemma move_inv:
  assumes "core_inv q s" "main_ok q s" "stone_inv tr s" and "i < length (ps_pcs s)"
    and "pc_ok (currentBenchID (ps_shared s)) (is_ending (ps_shared s)) q (has_err (ps_shared s)) (w_phaseFinished (worker_at s i)) pc"
    and "counted (currentBenchID (ps_shared s)) pc = counted (currentBenchID (ps_shared s)) (ps_pcs s ! i)"
  shows "phase_inv (set_pc i pc s)"
  by (rule phase_invI [OF core_set_pc [OF assms(1,4-6)]]) (use assms in simp_all)

lemma mark_inv:
  assumes inv: "core_inv q s" "main_ok q s" "stone_inv tr s" and i: "i < length (ps_pcs s)"
    and "f = set_phaseFinished \<or> f = finish_stats x"
    and "pc_ok (currentBenchID (ps_shared s)) (is_ending (ps_shared s)) q (has_err (ps_shared s)) True pc"
    and "counted (currentBenchID (ps_shared s)) pc = counted (currentBenchID (ps_shared s)) (ps_pcs s ! i)"
  shows "phase_inv (set_pc i pc (upd_worker i f s))"
proof (rule phase_invI)
  show "core_inv q (set_pc i pc (upd_worker i f s))"
    by (rule core_upd [OF inv(1) i]) (use assms in \<open>auto simp: set_phaseFinished_def finish_stats_def\<close>)
  show "main_ok q (set_pc i pc (upd_worker i f s))"
    using inv(2) by simp
  have "stone_inv tr (upd_worker i f s)"
    by (rule stone_upd_worker [OF inv(3)]) (use assms core_invD(1) [OF inv(1)] in \<open>auto simp: set_phaseFinished_def finish_stats_def\<close>)
  then show "stone_inv tr (set_pc i pc (upd_worker i f s))"
    by simp
qed

lemma work_inv:
  assumes inv: "core_inv q s" "main_ok q s" "stone_inv tr s" and i: "i < length (ps_pcs s)"
    and "live_le (w_liveOps (worker_at s i)) ops" "live_le (w_liveOpsReadMix (worker_at s i)) opsReadMix"
  shows "phase_inv (upd_worker i (do_work ops opsReadMix gotWork) s)"
proof -
  have "core_inv q (set_pc i (ps_pcs s ! i) (upd_worker i (do_work ops opsReadMix gotWork) s))"
    by (rule core_upd [OF inv(1) i]) (use core_invD(5) [OF inv(1) i] in \<open>simp_all add: do_work_def\<close>)
  then have "core_inv q (upd_worker i (do_work ops opsReadMix gotWork) s)"
    by (simp add: upd_simps)
  moreover have "stone_inv tr (upd_worker i (do_work ops opsReadMix gotWork) s)"
    by (rule stone_upd_worker [OF inv(3)]) (use assms core_invD(1) [OF inv(1)] in \<open>auto simp: do_work_def\<close>)
  ultimately show ?thesis
    using inv(2) by (simp add: phase_invI)
qed

lemma count_inv:
  assumes "phase_inv s" and "i < length (ps_pcs s)" and "ps_pcs s ! i = WCount a"
  shows "phase_inv (set_pc i (case a of None \<Rightarrow> WExit | Some b \<Rightarrow> WCheck b) (notify_all (upd_shared (incNumWorkersDone False i) s)))"
proof -
  let ?s = "notify_all s"
  obtain q tr where inv: "core_inv q ?s" "main_ok q ?s" "stone_inv tr ?s"
    using phase_inv_notify [OF assms(1)] by (auto simp: phase_inv_def)
  have i: "i < length (ps_pcs ?s)" and pc: "ps_pcs ?s ! i = WCount a"
    using assms by (simp_all add: notify_all_def notify_def)
  obtain tr' where "stone_inv tr' (upd_shared (incNumWorkersDone False i) ?s)"
    using stone_count [OF inv(1,3) i pc] by blast
  then show ?thesis
    using core_count [OF inv(1) i pc] main_ok_count [OF inv(1) i pc inv(2)] unfolding notify_set_pc by (auto intro: phase_invI)
qed

lemma worker_fail_inv:
  assumes "phase_inv s" and "i < length (ps_pcs s)" and "ps_pcs s ! i = WFail"
  shows "phase_inv (set_pc i WExit (notify_all (upd_shared incNumWorkersDoneWithError s)))"
proof -
  let ?s = "notify_all s"
  obtain q tr where inv: "core_inv q ?s" "main_ok q ?s" "stone_inv tr ?s"
    using phase_inv_notify [OF assms(1)] by (auto simp: phase_inv_def)
  have i: "i < length (ps_pcs ?s)" and pc: "ps_pcs ?s ! i = WFail"
    using assms by (simp_all add: notify_all_def notify_def)
  have "stone_inv tr (upd_shared incNumWorkersDoneWithError ?s)"
    using inv(3) by (simp add: stone_inv_def upd_shared_def incNumWorkersDoneWithError_def)
  then show ?thesis
    using core_fail(1) [OF inv(1) i pc] main_ok_fail [OF inv(1) i pc inv(2)] unfolding notify_set_pc by (auto intro: phase_invI)
qed

lemma worker_step_inv:
  assumes "worker_step i s t" and i: "i < length (ps_pcs s)" and "phase_inv s"
  shows "phase_inv t"
proof -
  obtain q tr where inv: "core_inv q s" "main_ok q s" "stone_inv tr s"
    using assms(3) by (auto simp: phase_inv_def)
  note ok = core_invD(5) [OF inv(1) i] and intr = core_invD(4) [OF inv(1) i]
  note move = move_inv [OF inv i] and mark = mark_inv [OF inv i]
  show ?thesis
    using assms(1)
  proof cases
    case (count a)
    then show ?thesis using count_inv [OF assms(3) i] by blast
  next
    case fail
    then show ?thesis using worker_fail_inv [OF assms(3) i] by blast
  qed (use ok intr in \<open>auto simp: pc_ok_def counted_def interrupted_pc_def intro!: move mark split: if_splits option.splits\<close>)
qed

subsection \<open>Steps of the main thread\<close>

lemma inv_mpc [simp]:
  "core_inv q (s\<lparr>ps_mpc := m\<rparr>) = core_inv q s" "stone_inv t (s\<lparr>ps_mpc := m\<rparr>) = stone_inv t s"
  "core_inv q (s\<lparr>ps_retVal := r\<rparr>) = core_inv q s" "stone_inv t (s\<lparr>ps_retVal := r\<rparr>) = stone_inv t s"
  "stone_inv t (s\<lparr>ps_todo := l\<rparr>) = stone_inv t s"
  by (simp_all add: core_inv_def stone_inv_def worker_at_def)

lemma stone_interrupt_all [simp]: "stone_inv t (interrupt_all s) = stone_inv t s"
  by (simp add: stone_inv_def interrupt_all_def upd_simps interruptWorkers_def w_interruptExecution_def)

lemma interrupt_all_fields [simp]:
  "ps_mpc (interrupt_all s) = ps_mpc s" "ps_todo (interrupt_all s) = ps_todo s" "ps_retVal (interrupt_all s) = ps_retVal s"
  "length (ps_pcs (interrupt_all s)) = length (ps_pcs s)" "ps_shared (interrupt_all s) = interruptWorkers (ps_shared s)"
  by (simp_all add: interrupt_all_def upd_simps)

lemma interruptWorkers_fields [simp]:
  "currentBenchID (interruptWorkers sd) = currentBenchID sd" "currentBenchPhase (interruptWorkers sd) = currentBenchPhase sd"
  "numWorkersDone (interruptWorkers sd) = numWorkersDone sd" "numWorkersDoneWithError (interruptWorkers sd) = numWorkersDoneWithError sd"
  "gotUserInterruptSignalT (interruptWorkers sd) = gotUserInterruptSignalT sd" "isPhaseTimeExpired (interruptWorkers sd) = isPhaseTimeExpired sd"
  "length (workerVec (interruptWorkers sd)) = length (workerVec sd)"
  by (simp_all add: interruptWorkers_def)

definition set_expired :: "phase_sys \<Rightarrow> phase_sys" where
  "set_expired s = upd_shared (isPhaseTimeExpired_update (\<lambda>_. True)) s"

lemma set_expired_inv [simp]:
  "core_inv q (set_expired s) = core_inv q s" "stone_inv t (set_expired s) = stone_inv t s"
  by (simp_all add: core_inv_def stone_inv_def set_expired_def upd_simps)

lemma set_expired_fields [simp]:
  "ps_shared (set_expired s) = (ps_shared s)\<lparr>isPhaseTimeExpired := True\<rparr>" "ps_mpc (set_expired s) = ps_mpc s"
  "ps_todo (set_expired s) = ps_todo s" "ps_retVal (set_expired s) = ps_retVal s" "ps_pcs (set_expired s) = ps_pcs s"
  by (simp_all add: set_expired_def upd_shared_def)

lemma check_limit_eq:
  "check_limit limit elapsed s = (if limit \<noteq> 0 \<and> limit \<le> elapsed then interrupt_all (set_expired s) else s)"
  by (simp add: check_limit_def checkPhaseTimeLimitUnlocked_def notify_if_def interrupt_all_def set_expired_def upd_shared_def)

lemma check_workers_eq:
  "check_workers limit elapsed over s =
     (if has_err (ps_shared s) then (interrupt_all s)\<lparr>ps_mpc := MJoin\<rparr>
      else let s' = check_limit limit elapsed (if gotUserInterruptSignalT (ps_shared s) \<noteq> 0 then interrupt_all s else s)
           in if numWorkersDone (ps_shared s) = of_nat (length (workerVec (ps_shared s))) then s'\<lparr>ps_mpc := over\<rparr> else s')"
  by (simp add: check_workers_def checkWorkersDoneUnlocked_def notify_if_def interrupt_all_def upd_shared_def)

lemma all_doneI:
  assumes "core_inv q s" and "\<not> has_err (ps_shared s)" and "numWorkersDone (ps_shared s) = of_nat (length (workerVec (ps_shared s)))"
  shows "all_done s"
  using assms core_invD(1,2) [OF assms(1)] by (simp add: unat_of_nat_no)

lemma interrupt_inv:
  assumes "core_inv q s" "main_ok True (interrupt_all s)" "stone_inv t s"
  shows "phase_inv (interrupt_all s)"
  using phase_invI [OF core_interrupt_all [OF assms(1)] assms(2), of t] assms(3) by simp

lemma check_limit_inv:
  assumes "phase_inv s" and "ps_mpc s = MWait limit"
  shows "phase_inv (check_limit limit' elapsed s)"
proof -
  obtain q t where inv: "core_inv q s" "main_ok q s" "stone_inv t s"
    using assms(1) by (auto simp: phase_inv_def)
  have "phase_inv (interrupt_all (set_expired s))"
    by (rule interrupt_inv [of q _ t]) (use inv assms(2) in \<open>auto simp: main_ok_def\<close>)
  then show ?thesis
    using assms(1) by (simp add: check_limit_eq)
qed

lemma check_fails_inv:
  assumes "phase_inv s" and "has_err (ps_shared s)"
  shows "phase_inv ((interrupt_all s)\<lparr>ps_mpc := MJoin\<rparr>)"
proof -
  obtain q t where inv: "core_inv q s" "main_ok q s" "stone_inv t s"
    using assms(1) by (auto simp: phase_inv_def)
  show ?thesis
    by (rule phase_invI [of True _ t]) (use inv assms(2) in \<open>simp_all add: core_interrupt_all main_ok_def\<close>)
qed

lemma over_inv:
  assumes "phase_inv s" and "ps_mpc s = MWait limit" and "\<not> has_err (ps_shared s)"
    and "numWorkersDone (ps_shared s) = of_nat (length (workerVec (ps_shared s)))"
  shows "phase_inv (s\<lparr>ps_mpc := MOver\<rparr>)"
proof -
  obtain q t where inv: "core_inv q s" "main_ok q s" "stone_inv t s"
    using assms(1) by (auto simp: phase_inv_def)
  show ?thesis
    by (rule phase_invI [of q _ t]) (use inv assms(2) all_doneI [OF inv(1) assms(3,4)] in \<open>auto simp: main_ok_def\<close>)
qed

lemma wait_interrupt_inv:
  assumes "phase_inv s" and "ps_mpc s = MWait limit"
  shows "phase_inv (if gotUserInterruptSignalT (ps_shared s) \<noteq> 0 then interrupt_all s else s)"
proof -
  obtain q t where inv: "core_inv q s" "main_ok q s" "stone_inv t s"
    using assms(1) by (auto simp: phase_inv_def)
  have "phase_inv (interrupt_all s)" if "gotUserInterruptSignalT (ps_shared s) \<noteq> 0"
    by (rule interrupt_inv [of q _ t]) (use inv assms(2) that in \<open>auto simp: main_ok_def\<close>)
  then show ?thesis
    using assms(1) by simp
qed

lemma check_workers_inv:
  assumes "phase_inv s" and m: "ps_mpc s = MWait limit" and over: "over = MOver \<or> over = MWait limit"
  shows "phase_inv (check_workers limit' elapsed over s)"
proof (cases "has_err (ps_shared s)")
  case True
  then show ?thesis using check_fails_inv [OF assms(1)] by (simp add: check_workers_eq)
next
  case False
  define s1 where "s1 = (if gotUserInterruptSignalT (ps_shared s) \<noteq> 0 then interrupt_all s else s)"
  define s2 where "s2 = check_limit limit' elapsed s1"
  have m1: "ps_mpc s1 = MWait limit" and e1: "\<not> has_err (ps_shared s1)" and m2: "ps_mpc s2 = MWait limit" and e2: "\<not> has_err (ps_shared s2)"
    and n2: "numWorkersDone (ps_shared s2) = numWorkersDone (ps_shared s)" "length (workerVec (ps_shared s2)) = length (workerVec (ps_shared s))"
    using False m by (simp_all add: s1_def s2_def check_limit_eq)
  have same: "s2\<lparr>ps_mpc := MWait limit\<rparr> = s2"
    unfolding m2 [symmetric] by simp
  have inv2: "phase_inv s2"
    unfolding s2_def by (rule check_limit_inv [OF wait_interrupt_inv [OF assms(1) m, folded s1_def] m1])
  have eq: "check_workers limit' elapsed over s =
      (if numWorkersDone (ps_shared s) = of_nat (length (workerVec (ps_shared s))) then s2\<lparr>ps_mpc := over\<rparr> else s2)"
    using False by (simp add: check_workers_eq s1_def s2_def Let_def)
  show ?thesis
    using inv2 over_inv [OF inv2 m2 e2] over same n2 unfolding eq by auto
qed

lemma prepared_inv:
  assumes "phase_inv s" and m: "ps_mpc s = MPrepare"
  shows "phase_inv (check_workers 0 elapsed MIdle s)"
proof (cases "has_err (ps_shared s)")
  case True
  then show ?thesis using check_fails_inv [OF assms(1)] by (simp add: check_workers_eq)
next
  case False
  obtain q t where inv: "core_inv q s" "main_ok q s" "stone_inv t s"
    using assms(1) by (auto simp: phase_inv_def)
  have "phase_inv (s\<lparr>ps_mpc := MIdle\<rparr>)" if "numWorkersDone (ps_shared s) = of_nat (length (workerVec (ps_shared s)))"
    by (rule phase_invI [of q _ t]) (use inv m all_doneI [OF inv(1) False that] in \<open>auto simp: main_ok_def\<close>)
  then show ?thesis
    using inv m False assms(1) by (simp add: check_workers_eq check_limit_eq main_ok_def)
qed

lemma idle_waiting:
  assumes core: "core_inv q s" and "main_ok q s" and m: "ps_mpc s = MIdle" and i: "i < length (ps_pcs s)"
  shows "notify (ps_pcs s ! i) = WCheck (currentBenchID (ps_shared s))"
proof -
  have "num_counted (currentBenchID (ps_shared s)) (ps_pcs s) = length (ps_pcs s)"
    using core_invD(3) [OF core] assms(2) m by (simp add: main_ok_def)
  then have "counted (currentBenchID (ps_shared s)) (ps_pcs s ! i)"
    using i by (simp add: num_counted_all)
  then show ?thesis
    using core_invD(5) [OF core i] assms(2) m
    by (auto simp: main_ok_def counted_def pc_ok_def notify_def split: worker_pc.splits)
qed

lemma start_core:
  assumes core: "core_inv q s" and main: "main_ok q s" and m: "ps_mpc s = MIdle" and new: "newID \<noteq> currentBenchID (ps_shared s)"
    and todo: "set todo \<subseteq> set (ps_todo s)"
  shows "core_inv q (notify_all (upd_shared (startNextPhase phase newID) (s\<lparr>ps_mpc := m', ps_todo := todo\<rparr>)))"
proof -
  note wait = idle_waiting [OF core main m]
  have "\<forall>pc\<in>set (map notify (ps_pcs s)). \<not> counted newID pc"
    using wait new by (auto simp: in_set_conv_nth counted_def)
  then have "num_counted newID (map notify (ps_pcs s)) = 0"
    by (rule num_counted_none)
  then show ?thesis
    using core wait todo new
    by (auto simp: core_inv_def upd_simps startNextPhase_def resetNumWorkersDoneUnlocked_def w_resetStats_def Let_def pc_ok_def)
qed

lemma start_stone: "stone_inv False (notify_all (upd_shared (startNextPhase phase newID) (s\<lparr>ps_mpc := m', ps_todo := todo\<rparr>)))"
  by (simp add: stone_inv_def upd_simps startNextPhase_def resetNumWorkersDoneUnlocked_def w_resetStats_def Let_def)

lemma start_main:
  "main_ok q (notify_all (upd_shared (startNextPhase phase newID) (s\<lparr>ps_mpc := m', ps_todo := todo\<rparr>))) =
     main_ok q (upd_shared (startNextPhase phase newID) (s\<lparr>ps_mpc := m', ps_todo := todo\<rparr>))"
  by (rule main_ok_upd)

lemma startNextPhase_fields [simp]:
  "currentBenchPhase (startNextPhase phase newID sd) = phase" "currentBenchID (startNextPhase phase newID sd) = newID"
  "gotUserInterruptSignalT (startNextPhase phase newID sd) = gotUserInterruptSignalT sd"
  "isPhaseTimeExpired (startNextPhase phase newID sd) = isPhaseTimeExpired sd"
  by (simp_all add: startNextPhase_def resetNumWorkersDoneUnlocked_def Let_def)

lemma next_phase_inv:
  assumes "phase_inv s" and "ps_mpc s = MIdle" and "ps_todo s = (phase, limit) # todo" and "newID \<noteq> currentBenchID (ps_shared s)"
  shows "phase_inv (notify_all (upd_shared (startNextPhase phase newID) (s\<lparr>ps_mpc := MWait limit, ps_todo := todo\<rparr>)))"
proof -
  obtain q t where inv: "core_inv q s" "main_ok q s"
    using assms(1) by (auto simp: phase_inv_def)
  have q: "\<not> q" and phase: "phase \<noteq> BenchPhase_TERMINATE"
    using inv assms(2,3) by (simp_all add: main_ok_def core_inv_def)
  have main: "main_ok q (upd_shared (startNextPhase phase newID) (s\<lparr>ps_mpc := MWait limit, ps_todo := todo\<rparr>))"
    using q phase by (simp add: main_ok_def upd_shared_def)
  show ?thesis
    by (rule phase_invI [OF start_core [OF inv assms(2,4)] _ start_stone]) (use assms(3) main in auto)
qed

lemma terminate_inv:
  assumes "phase_inv s" and "ps_mpc s = MIdle" and "ps_todo s = []" and "newID \<noteq> currentBenchID (ps_shared s)"
  shows "phase_inv (notify_all (upd_shared (startNextPhase BenchPhase_TERMINATE newID) (s\<lparr>ps_mpc := MJoin\<rparr>)))"
proof -
  obtain q t where inv: "core_inv q s" "main_ok q s"
    using assms(1) by (auto simp: phase_inv_def)
  have "phase_inv (notify_all (upd_shared (startNextPhase BenchPhase_TERMINATE newID) (s\<lparr>ps_mpc := MJoin, ps_todo := []\<rparr>)))"
    by (rule phase_invI [OF start_core [OF inv assms(2,4)] _ start_stone])
      (simp_all only: start_main, simp_all add: main_ok_def upd_shared_def)
  moreover have "s\<lparr>ps_mpc := MJoin, ps_todo := []\<rparr> = s\<lparr>ps_mpc := MJoin\<rparr>"
    using assms(3) by simp
  ultimately show ?thesis
    by simp
qed

lemma phase_abort_inv:
  assumes "phase_inv s" and "r \<noteq> 0 \<or> isPhaseTimeExpired (ps_shared s)"
  shows "phase_inv (interrupt_all (s\<lparr>ps_mpc := MJoin, ps_retVal := r\<rparr>))"
proof -
  obtain q t where inv: "core_inv q s" "main_ok q s" "stone_inv t s"
    using assms(1) by (auto simp: phase_inv_def)
  show ?thesis
    by (rule interrupt_inv [of q _ t]) (use inv assms(2) in \<open>auto simp: main_ok_def\<close>)
qed

lemma idle_inv:
  assumes "phase_inv s" and "ps_mpc s = MOver" and "checkInterruptionBetweenPhases (ps_shared s) = Inr ()"
  shows "phase_inv (s\<lparr>ps_mpc := MIdle\<rparr>)"
proof -
  obtain q t where inv: "core_inv q s" "main_ok q s" "stone_inv t s"
    using assms(1) by (auto simp: phase_inv_def)
  show ?thesis
    by (rule phase_invI [of q _ t])
      (use inv assms(2,3) in \<open>auto simp: main_ok_def checkInterruptionBetweenPhases_def split: if_splits\<close>)
qed

lemma manager_step_inv:
  assumes "manager_step s t" and "phase_inv s"
  shows "phase_inv t"
  using assms(1)
proof cases
  case (abort ex)
  have "(case ex of ProgInterruptedException _ \<Rightarrow> 1 | ProgTimeLimitException _ \<Rightarrow> ps_retVal s) \<noteq> 0 \<or> isPhaseTimeExpired (ps_shared s)"
    using abort(3) by (auto simp: checkInterruptionBetweenPhases_def split: if_splits)
  then show ?thesis
    unfolding abort(1) by (rule phase_abort_inv [OF assms(2)])
qed (use assms(2) prepared_inv check_workers_inv check_limit_inv idle_inv next_phase_inv terminate_inv phase_abort_inv in auto)

subsection \<open>Reachable states\<close>

lemma thread_step_inv:
  assumes "thread_step s t" and "phase_inv s"
  shows "phase_inv t"
  using assms(1)
proof cases
  case (worker i)
  then show ?thesis using worker_step_inv assms(2) by blast
next
  case manager
  then show ?thesis using manager_step_inv assms(2) by blast
next
  case (signal now)
  obtain q tr where inv: "core_inv q s" "main_ok q s" "stone_inv tr s"
    using assms(2) by (auto simp: phase_inv_def)
  show ?thesis
    by (rule phase_invI [of q _ tr])
      (use inv signal(2) in \<open>auto simp: signal(1) core_inv_def main_ok_def stone_inv_def upd_simps handleInterruptSignal_def split: manager_pc.splits\<close>)
qed

lemma phase_step_inv:
  assumes "phase_step s t" and "phase_inv s"
  shows "phase_inv t"
  using assms(1)
proof cases
  case thread
  then show ?thesis using thread_step_inv assms(2) by blast
next
  case (work i b ops opsReadMix gotWork)
  obtain q tr where inv: "core_inv q s" "main_ok q s" "stone_inv tr s"
    using assms(2) by (auto simp: phase_inv_def)
  show ?thesis
    unfolding work(1) by (rule work_inv [OF inv work(2,4,5)])
next
  case (spurious i b)
  obtain q tr where inv: "core_inv q s" "main_ok q s" "stone_inv tr s"
    using assms(2) by (auto simp: phase_inv_def)
  show ?thesis
    unfolding spurious(1) by (rule move_inv [OF inv spurious(2)])
      (use core_invD(5) [OF inv(1) spurious(2)] spurious(3) in \<open>auto simp: pc_ok_def counted_def\<close>)
qed

lemma runBenchmarks_no_terminate: "\<forall>(phase, limit)\<in>set (runBenchmarks pa). phase \<noteq> BenchPhase_TERMINATE"
  using scheduled_not_idle by fast

lemma w_new_fields [simp]:
  "\<not> w_isInterruptionRequested (w_new r)" "\<not> w_phaseFinished (w_new r)" "\<not> w_stoneWallTriggered (w_new r)"
  "w_stoneWallOps (w_new r) = live_zero" "w_stoneWallOpsReadMix (w_new r) = live_zero"
  by (simp_all add: w_new_def w_resetStats_def)

lemma phase_start_inv: "phase_inv (phase_start pa)"
proof (rule phase_invI)
  have "num_counted 0 (replicate n WPrepare) = 0" for n
    by (rule num_counted_none) (simp add: counted_def)
  then show "core_inv False (phase_start pa)"
    using runBenchmarks_no_terminate [of pa] unat_less_W64 [of "pa_numThreads pa"]
    by (auto simp: core_inv_def phase_start_def prepareThreads_def worker_at_def pc_ok_def)
  show "main_ok False (phase_start pa)"
    by (simp add: main_ok_def phase_start_def prepareThreads_def)
  show "stone_inv False (phase_start pa)"
    by (auto simp: stone_inv_def phase_start_def prepareThreads_def)
qed

interpretation phase_run: step_system phase_step "\<lambda>s. \<exists>pa. s = phase_start pa" phase_inv
  by unfold_locales (auto intro: phase_start_inv phase_step_inv)

end
