(* ===== verification/PhaseRun.thy ===== *)
theory PhaseRun
  imports PhaseSafety
begin

text \<open>
  What the invariant of the phases gives: every run comes to its end, the phases are separated by a barrier, and the
  exit status tells whether all phases were run.
\<close>

subsection \<open>Systems that end\<close>

text \<open>
  Among the steps of a system, \<open>go\<close> are those by which it goes on. If one of them is possible before the end, and each of them
  changes nothing or leads down a well-founded relation, then the system goes on until it ends.
\<close>

locale ending_system = step_system step start inv
  for step :: "'s \<Rightarrow> 's \<Rightarrow> bool" and start :: "'s \<Rightarrow> bool" and inv :: "'s \<Rightarrow> bool" +
  fixes go :: "'s \<Rightarrow> 's \<Rightarrow> bool" and final :: "'s \<Rightarrow> bool" and rel :: "('s \<times> 's) set"
  assumes wf_rel: "wf rel"
    and go_step: "go s t \<Longrightarrow> step s t"
    and progress: "inv s \<Longrightarrow> \<not> final s \<Longrightarrow> \<exists>t. go s t \<and> (t, s) \<in> rel"
    and descent: "inv s \<Longrightarrow> go s t \<Longrightarrow> t = s \<or> (t, s) \<in> rel"
begin

lemma goes_on:
  assumes "start s" "step\<^sup>*\<^sup>* s t"
  shows "final t \<or> (\<exists>u. go t u \<and> u \<noteq> t)"
  using progress [OF reachable_inv [OF assms]] wf_not_refl [OF wf_rel] by metis

lemma no_endless_run:
  assumes "start s" "step\<^sup>*\<^sup>* s t"
  shows "\<not> (\<exists>f. f 0 = t \<and> (\<forall>n. go (f n) (f (Suc n)) \<and> f (Suc n) \<noteq> f n))"
proof
  assume "\<exists>f. f 0 = t \<and> (\<forall>n. go (f n) (f (Suc n)) \<and> f (Suc n) \<noteq> f n)"
  then obtain f where f: "f 0 = t" "\<And>n. go (f n) (f (Suc n))" "\<And>n. f (Suc n) \<noteq> f n" by blast
  have "inv (f n)" for n
  proof (induction n)
    case 0
    then show ?case using reachable_inv [OF assms] f(1) by simp
  next
    case (Suc n)
    then show ?case using step_inv go_step f(2) by blast
  qed
  then have "(f (Suc n), f n) \<in> rel" for n
    using descent f(2,3) by blast
  then show False
    using wf_rel unfolding wf_iff_no_infinite_down_chain by blast
qed

end

subsection \<open>How far the threads are\<close>

definition wrank :: "nat \<Rightarrow> worker_pc \<Rightarrow> nat" where
  "wrank cur pc =
     (case pc of
        WPrepare \<Rightarrow> 4 | WFinish _ \<Rightarrow> 3 | WCount _ \<Rightarrow> 2 | WCheck b \<Rightarrow> (if b = cur then 1 else 6) | WSleep b \<Rightarrow> (if b = cur then 1 else 6)
      | WStart \<Rightarrow> 5 | WRun _ \<Rightarrow> 4 | WFail \<Rightarrow> 2 | WExit \<Rightarrow> 0)"

definition awake :: "worker_pc \<Rightarrow> nat" where
  "awake pc = (case pc of WSleep _ \<Rightarrow> 0 | _ \<Rightarrow> 1)"

definition mrank :: "manager_pc \<Rightarrow> nat" where
  "mrank m = (case m of MPrepare \<Rightarrow> 4 | MWait _ \<Rightarrow> 3 | MOver \<Rightarrow> 2 | MIdle \<Rightarrow> 1 | MJoin \<Rightarrow> 0)"

definition rank_sum :: "phase_sys \<Rightarrow> nat" where
  "rank_sum s = sum_list (map (wrank (currentBenchID (ps_shared s))) (ps_pcs s))"

definition awake_sum :: "phase_sys \<Rightarrow> nat" where
  "awake_sum s = sum_list (map awake (ps_pcs s))"

abbreviation interrupts :: "phase_sys \<Rightarrow> bool list" where
  "interrupts s \<equiv> map w_isInterruptionRequested (workerVec (ps_shared s))"

definition not_interrupted :: "phase_sys \<Rightarrow> bool" where
  "not_interrupted s \<longleftrightarrow> False \<in> set (interrupts s)"

text \<open>
  The phases that are left, the place of the main thread, whether a signal, the time limit and the interruption are still to come, the places of the
  workers, and the workers that are awake.
\<close>

definition phase_measures :: "(phase_sys \<Rightarrow> nat) list" where
  "phase_measures =
     [\<lambda>s. length (ps_todo s), \<lambda>s. mrank (ps_mpc s), \<lambda>s. of_bool (gotUserInterruptSignalT (ps_shared s) = 0),
      \<lambda>s. of_bool (\<not> isPhaseTimeExpired (ps_shared s)), \<lambda>s. of_bool (not_interrupted s), rank_sum, awake_sum]"

definition phase_rel :: "(phase_sys \<times> phase_sys) set" where
  "phase_rel = (measures phase_measures)\<^sup>+"

lemma phase_relI: "(t, s) \<in> measures phase_measures \<Longrightarrow> (t, s) \<in> phase_rel"
  by (simp add: phase_rel_def)

definition goes_down :: "phase_sys \<Rightarrow> phase_sys \<Rightarrow> bool" where
  "goes_down s t \<longleftrightarrow> t = s \<or> (t, s) \<in> phase_rel"

lemma goes_down_refl [simp]: "goes_down s s"
  by (simp add: goes_down_def)

lemma goes_down_trans: "goes_down s t \<Longrightarrow> goes_down t u \<Longrightarrow> goes_down s u"
  by (auto simp: goes_down_def phase_rel_def intro: trancl_trans)

lemma wrank_notify [simp]: "wrank cur (notify pc) = wrank cur pc"
  by (simp add: wrank_def notify_def split: worker_pc.split)

lemma wrank_sum_notify [simp]: "map (wrank cur) (map notify pcs) = map (wrank cur) pcs"
  by (simp add: comp_def)

lemma sum_update_less:
  fixes f :: "'a \<Rightarrow> nat"
  assumes "i < length xs" and "f x < f (xs ! i)"
  shows "sum_list ((map f xs)[i := f x]) < sum_list (map f xs)"
proof -
  have "f (xs ! i) \<le> sum_list (map f xs)"
    using assms(1) elem_le_sum_list [of i "map f xs"] by simp
  then show ?thesis
    using assms by (simp add: sum_list_update)
qed

subsection \<open>Every step of a worker brings it further\<close>

lemma rank_rel:
  assumes "i < length (ps_pcs s)" and "wrank (currentBenchID (ps_shared s)) pc < wrank (currentBenchID (ps_shared s)) (ps_pcs s ! i)"
    and "ps_pcs t = (ps_pcs s)[i := pc] \<or> ps_pcs t = (map notify (ps_pcs s))[i := pc]"
    and "ps_todo t = ps_todo s" "ps_mpc t = ps_mpc s" "currentBenchID (ps_shared t) = currentBenchID (ps_shared s)"
    and "gotUserInterruptSignalT (ps_shared t) = gotUserInterruptSignalT (ps_shared s)"
    and "isPhaseTimeExpired (ps_shared t) = isPhaseTimeExpired (ps_shared s)" "interrupts t = interrupts s"
  shows "(t, s) \<in> phase_rel"
proof -
  have "rank_sum t < rank_sum s"
    using sum_update_less [OF assms(1), of "wrank (currentBenchID (ps_shared s))" pc] assms(2,3,6)
    by (auto simp: rank_sum_def map_update comp_def)
  moreover have "not_interrupted t = not_interrupted s"
    unfolding not_interrupted_def assms(9) ..
  ultimately show ?thesis
    by (intro phase_relI) (simp add: phase_measures_def assms(4-8))
qed

lemma sleep_rel:
  assumes i: "i < length (ps_pcs s)" and pc: "ps_pcs s ! i = WCheck (currentBenchID (ps_shared s))"
  shows "(set_pc i (WSleep (currentBenchID (ps_shared s))) s, s) \<in> phase_rel"
proof -
  let ?t = "set_pc i (WSleep (currentBenchID (ps_shared s))) s"
  have "map (wrank (currentBenchID (ps_shared s))) (ps_pcs ?t) = map (wrank (currentBenchID (ps_shared s))) (ps_pcs s)"
    using i pc by (simp add: set_pc_def map_update wrank_def list_update_same_conv)
  then have "rank_sum ?t = rank_sum s"
    by (simp add: rank_sum_def) (simp add: set_pc_def)
  moreover have "awake_sum ?t < awake_sum s"
    using sum_update_less [OF i, of awake "WSleep (currentBenchID (ps_shared s))"] pc by (simp add: awake_sum_def set_pc_def map_update awake_def)
  ultimately show ?thesis
    by (intro phase_relI) (simp add: phase_measures_def not_interrupted_def, simp add: set_pc_def)
qed

lemma interrupts_upd:
  assumes "\<And>w. w_isInterruptionRequested (f w) = w_isInterruptionRequested w"
  shows "map w_isInterruptionRequested (ws[i := f (ws ! i)]) = map w_isInterruptionRequested ws"
  using assms by (cases "i < length ws") (simp_all add: map_update list_update_same_conv list_update_beyond)

lemma interrupts_marked [simp]:
  "map w_isInterruptionRequested (ws[i := set_phaseFinished (ws ! i)]) = map w_isInterruptionRequested ws"
  "map w_isInterruptionRequested (ws[i := finish_stats elapsed (ws ! i)]) = map w_isInterruptionRequested ws"
  by (rule interrupts_upd, simp add: set_phaseFinished_def finish_stats_def)+

lemma interrupts_count [simp]:
  "map w_isInterruptionRequested (workerVec (incNumWorkersDone svc i sd)) = map w_isInterruptionRequested (workerVec sd)"
  by (simp add: incNumWorkersDone_def incNumWorkersDoneUnlocked_def w_createStoneWallStats_def Let_def comp_def)

lemmas rank_simps = upd_simps wrank_def incNumWorkersDoneWithError_def interrupted_pc_def

lemma worker_descent:
  assumes step: "worker_step i s t" and inv: "core_inv q s" and i: "i < length (ps_pcs s)"
  shows "(t, s) \<in> phase_rel"
  using step
proof cases
  case (count a)
  show ?thesis
    unfolding count(1) by (rule rank_rel [OF i, where pc = "case a of None \<Rightarrow> WExit | Some b \<Rightarrow> WCheck b"])
      (use count(2) core_invD(5) [OF inv i] in \<open>auto simp: rank_simps pc_ok_def split: option.splits\<close>)
next
  case (check b)
  show ?thesis
  proof (cases "b = currentBenchID (ps_shared s)")
    case True
    then show ?thesis using sleep_rel [OF i] check by simp
  next
    case False
    show ?thesis
      unfolding check(1) by (rule rank_rel [OF i, where pc = WStart]) (use check(2) False in \<open>auto simp: rank_simps\<close>)
  qed
next
  case (interrupted b)
  show ?thesis
    unfolding interrupted(1) by (rule rank_rel [OF i, where pc = "interrupted_pc (worker_at s i)"])
      (use interrupted(2) core_invD(5) [OF inv i] in \<open>auto simp: rank_simps pc_ok_def split: if_splits\<close>)
next
  case prepared
  show ?thesis
    unfolding prepared(1) by (rule rank_rel [OF i, where pc = "WCount (Some 0)"]) (use prepared(2) in \<open>auto simp: rank_simps\<close>)
next
  case (finish a elapsed)
  show ?thesis
    unfolding finish(1) by (rule rank_rel [OF i, where pc = "WCount a"]) (use finish(2) in \<open>auto simp: rank_simps\<close>)
next
  case fail
  show ?thesis
    unfolding fail(1) by (rule rank_rel [OF i, where pc = WExit]) (use fail(2) in \<open>auto simp: rank_simps\<close>)
qed (rule rank_rel [OF i]; auto simp: rank_simps)+

subsection \<open>Every step of the main thread brings it further or changes nothing\<close>

lemma mrank_rel:
  assumes "mrank (ps_mpc t) < mrank (ps_mpc s)" and "ps_todo t = ps_todo s"
  shows "(t, s) \<in> phase_rel"
  using assms by (intro phase_relI) (simp add: phase_measures_def)

text \<open>Workers that were interrupted are awake, and interrupting them again changes nothing.\<close>

lemma interrupt_again:
  assumes "core_inv True s"
  shows "interrupt_all s = s"
proof -
  have "map notify (ps_pcs s) = ps_pcs s"
  proof (rule nth_equalityI)
    fix i assume "i < length (map notify (ps_pcs s))"
    then show "map notify (ps_pcs s) ! i = ps_pcs s ! i"
      using core_invD(5) [OF assms, of i] by (auto simp: pc_ok_def notify_def split: worker_pc.splits)
  qed simp
  moreover have "map w_interruptExecution (workerVec (ps_shared s)) = workerVec (ps_shared s)"
    using assms by (intro map_idI) (simp add: core_inv_def w_interruptExecution_def)
  ultimately show ?thesis
    by (simp add: interrupt_all_def upd_simps interruptWorkers_def)
qed

lemma interrupt_down:
  assumes "core_inv q s"
  shows "goes_down s (interrupt_all s)"
proof (cases "q \<or> ps_pcs s = []")
  case True
  then have "core_inv True s"
    using assms core_invD(1) [OF assms] by (cases q) (auto simp: core_inv_def)
  then show ?thesis
    by (simp add: interrupt_again)
next
  case False
  then have "not_interrupted s"
    unfolding not_interrupted_def using assms core_invD(1) [OF assms] by (cases "workerVec (ps_shared s)") (auto simp: core_inv_def)
  moreover have "\<not> not_interrupted (interrupt_all s)"
    by (auto simp: not_interrupted_def interruptWorkers_def w_interruptExecution_def)
  ultimately have "(interrupt_all s, s) \<in> phase_rel"
    by (intro phase_relI) (simp add: phase_measures_def)
  then show ?thesis
    by (simp add: goes_down_def)
qed

lemma check_limit_down:
  assumes "core_inv q s"
  shows "goes_down s (check_limit limit elapsed s)" and "\<exists>q'. core_inv q' (check_limit limit elapsed s)"
proof -
  have "set_expired s = s" if "isPhaseTimeExpired (ps_shared s)"
    using that by (simp add: set_expired_def upd_shared_def)
  then have "goes_down s (set_expired s)"
    by (cases "isPhaseTimeExpired (ps_shared s)")
      (auto simp: goes_down_def phase_measures_def intro!: phase_relI)
  then show "goes_down s (check_limit limit elapsed s)"
    using interrupt_down [of q "set_expired s"] assms by (auto simp: check_limit_eq intro: goes_down_trans)
  show "\<exists>q'. core_inv q' (check_limit limit elapsed s)"
    using assms core_interrupt_all [of q "set_expired s"] by (auto simp: check_limit_eq)
qed

lemma check_workers_down:
  assumes inv: "core_inv q s" and "mrank over < mrank (ps_mpc s) \<or> over = ps_mpc s" and "ps_mpc s \<noteq> MJoin"
  shows "goes_down s (check_workers limit elapsed over s)"
proof -
  let ?u = "if gotUserInterruptSignalT (ps_shared s) \<noteq> 0 then interrupt_all s else s"
  let ?t = "check_limit limit elapsed ?u"
  have u: "\<exists>q. core_inv q ?u" "goes_down s ?u"
    using inv core_interrupt_all [OF inv] interrupt_down [OF inv] by auto
  then have t: "goes_down s ?t"
    using check_limit_down goes_down_trans by blast
  have f: "ps_mpc ?t = ps_mpc s" "ps_todo ?t = ps_todo s"
    by (auto simp: check_limit_eq)
  have join: "goes_down s ((interrupt_all s)\<lparr>ps_mpc := MJoin\<rparr>)"
    using assms(3) mrank_rel [of "(interrupt_all s)\<lparr>ps_mpc := MJoin\<rparr>" s] by (auto simp: goes_down_def mrank_def split: manager_pc.splits)
  have "goes_down s (?t\<lparr>ps_mpc := over\<rparr>)"
  proof (cases "over = ps_mpc s")
    case True
    then have "?t\<lparr>ps_mpc := over\<rparr> = ?t" using f(1) by simp
    then show ?thesis using t by simp
  next
    case False
    then show ?thesis using mrank_rel [of "?t\<lparr>ps_mpc := over\<rparr>" s] assms(2) f by (auto simp: goes_down_def)
  qed
  then show ?thesis
    using join t unfolding check_workers_eq Let_def by simp
qed

lemma manager_descent:
  assumes "manager_step s t" and inv: "core_inv q s"
  shows "goes_down s t"
  using assms(1)
proof cases
  case (next_phase phase limit todo newID)
  then show ?thesis
    by (auto simp: goes_down_def phase_measures_def notify_all_def upd_shared_def intro!: phase_relI)
next
  case (live_limit limit elapsed)
  then show ?thesis using check_limit_down(1) [OF inv] by simp
qed (auto simp: mrank_def notify_all_def upd_shared_def goes_down_def [of s "interrupt_all _"] intro!: check_workers_down [OF inv] mrank_rel
    intro: goes_down_def [THEN iffD2, OF disjI2, OF mrank_rel])

lemma signal_descent: "goes_down s (upd_shared (\<lambda>sd. snd (handleInterruptSignal now sd)) s)"
proof (cases "gotUserInterruptSignalT (ps_shared s) = 0 \<and> now \<noteq> 0")
  case True
  then show ?thesis
    by (auto simp: goes_down_def phase_measures_def upd_shared_def handleInterruptSignal_def intro!: phase_relI)
next
  case False
  have "sd\<lparr>gotUserInterruptSignalT := 0\<rparr> = sd" if "gotUserInterruptSignalT sd = 0" for sd :: shared_data
    using that by (cases sd) simp
  with False have "upd_shared (\<lambda>sd. snd (handleInterruptSignal now sd)) s = s"
    by (simp add: upd_shared_def handleInterruptSignal_def)
  then show ?thesis by simp
qed

lemma thread_descent:
  assumes "phase_inv s" and "thread_step s t"
  shows "t = s \<or> (t, s) \<in> phase_rel"
proof -
  obtain q where inv: "core_inv q s"
    using assms(1) by (auto simp: phase_inv_def)
  show ?thesis
    using assms(2) worker_descent [OF _ inv] manager_descent [OF _ inv] signal_descent [of s] unfolding goes_down_def by cases blast+
qed

subsection \<open>Some thread can always go on\<close>

lemma uncounted_step:
  assumes inv: "core_inv q s" and i: "i < length (ps_pcs s)" and un: "\<not> counted (currentBenchID (ps_shared s)) (ps_pcs s ! i)"
  shows "\<exists>t. worker_step i s t"
proof -
  note ok = core_invD(5) [OF inv i]
  have "ps_pcs s ! i \<noteq> WSleep b" "ps_pcs s ! i \<noteq> WExit" for b
    using un ok by (auto simp: counted_def pc_ok_def)
  then show ?thesis
    by (cases "ps_pcs s ! i") (blast intro: worker_step.intros)+
qed

text \<open>When the main thread waits for the threads to end, none of them is asleep.\<close>

lemma join_step:
  assumes inv: "core_inv q s" and "main_ok q s" and m: "ps_mpc s = MJoin" and i: "i < length (ps_pcs s)" and ne: "ps_pcs s ! i \<noteq> WExit"
  shows "\<exists>t. worker_step i s t"
proof (cases "counted (currentBenchID (ps_shared s)) (ps_pcs s ! i)")
  case True
  have q: "q \<or> is_ending (ps_shared s)"
    using assms(2) m by (simp add: main_ok_def)
  have pc: "ps_pcs s ! i = WCheck (currentBenchID (ps_shared s))" and "q"
    using True q core_invD(5) [OF inv i] ne by (auto simp: counted_def pc_ok_def split: worker_pc.splits if_splits)
  then have "w_isInterruptionRequested (worker_at s i)"
    using core_invD(4) [OF inv i] by simp
  with pc show ?thesis
    by (blast intro: worker_step.interrupted)
qed (rule uncounted_step [OF inv i])

lemma check_workers_progress:
  assumes inv: "core_inv q s" and all: "\<forall>pc\<in>set (ps_pcs s). counted (currentBenchID (ps_shared s)) pc"
    and "mrank over < mrank (ps_mpc s)" and "mrank MJoin < mrank (ps_mpc s)"
  shows "(check_workers limit elapsed over s, s) \<in> phase_rel"
proof (rule mrank_rel)
  have n: "unat (numWorkersDone (ps_shared s)) + unat (numWorkersDoneWithError (ps_shared s)) = length (workerVec (ps_shared s))"
    using core_invD(1,3) [OF inv] all by (simp add: num_counted_all [symmetric])
  have "numWorkersDone (ps_shared s) = of_nat (length (workerVec (ps_shared s)))" if "\<not> has_err (ps_shared s)"
    using that by (simp add: n [symmetric])
  then show "mrank (ps_mpc (check_workers limit elapsed over s)) < mrank (ps_mpc s)"
    using assms(3,4) by (auto simp: check_workers_eq Let_def)
  show "ps_todo (check_workers limit elapsed over s) = ps_todo s"
    by (auto simp: check_workers_eq check_limit_eq Let_def)
qed

lemma abort_progress:
  assumes "ps_mpc s = MOver \<or> ps_mpc s = MIdle \<and> ps_todo s \<noteq> []" and "checkInterruptionBetweenPhases (ps_shared s) = Inl ex"
  shows "\<exists>t. manager_step s t \<and> (t, s) \<in> phase_rel"
  by (rule exI, rule conjI, rule manager_step.abort [OF assms], rule mrank_rel) (use assms(1) in \<open>auto simp: mrank_def\<close>)

lemma between_progress:
  assumes "ps_mpc s = MOver \<or> ps_mpc s = MIdle"
  shows "\<exists>t. manager_step s t \<and> (t, s) \<in> phase_rel"
proof -
  have new: "Suc (currentBenchID (ps_shared s)) \<noteq> currentBenchID (ps_shared s)" by simp
  have stop: ?thesis if "ps_mpc s = MIdle" "ps_todo s = []"
    by (rule exI, rule conjI, rule manager_step.terminate [OF that new], rule mrank_rel)
      (simp_all add: that mrank_def notify_all_def upd_shared_def)
  show ?thesis
  proof (cases "checkInterruptionBetweenPhases (ps_shared s)")
    case (Inr u)
    then have chk: "checkInterruptionBetweenPhases (ps_shared s) = Inr ()" by simp
    have over: ?thesis if "ps_mpc s = MOver"
      by (rule exI, rule conjI, rule manager_step.over [OF that chk], rule mrank_rel) (simp_all add: that mrank_def)
    have ?thesis if m: "ps_mpc s = MIdle" and todo: "ps_todo s = (phase, limit) # todo" for phase limit todo
      by (rule exI, rule conjI, rule manager_step.next_phase [OF m todo chk new], rule phase_relI)
        (simp add: phase_measures_def todo notify_all_def upd_shared_def)
    with over stop show ?thesis
      using assms by (cases "ps_todo s") auto
  next
    case (Inl ex)
    show ?thesis
      using abort_progress [OF _ Inl] stop assms by blast
  qed
qed

lemma phase_progress:
  assumes "phase_inv s" and "\<not> joined s"
  shows "\<exists>t. thread_step s t \<and> (t, s) \<in> phase_rel"
proof -
  obtain q where inv: "core_inv q s" "main_ok q s"
    using assms(1) by (auto simp: phase_inv_def)
  have worker: ?thesis if "i < length (ps_pcs s)" "\<exists>t. worker_step i s t" for i
    using that thread_step.worker worker_descent [OF _ inv(1)] by blast
  have manager: ?thesis if "\<exists>t. manager_step s t \<and> (t, s) \<in> phase_rel"
    using that thread_step.manager by blast
  show ?thesis
  proof (cases "\<forall>pc\<in>set (ps_pcs s). counted (currentBenchID (ps_shared s)) pc")
    case False
    then show ?thesis
      using uncounted_step [OF inv(1)] worker by (metis in_set_conv_nth)
  next
    case True
    note check = check_workers_progress [OF inv(1) True]
    show ?thesis
    proof (cases "ps_mpc s")
      case MPrepare
      show ?thesis
        by (rule manager, rule exI, rule conjI, rule manager_step.prepared [OF MPrepare], rule check) (simp_all add: MPrepare mrank_def)
    next
      case (MWait limit)
      show ?thesis
        by (rule manager, rule exI, rule conjI, rule manager_step.wait [OF MWait], rule check) (simp_all add: MWait mrank_def)
    next
      case MJoin
      then obtain i where "i < length (ps_pcs s)" "ps_pcs s ! i \<noteq> WExit"
        using assms(2) by (auto simp: joined_def in_set_conv_nth)
      then show ?thesis
        using join_step [OF inv MJoin] worker by blast
    qed (use manager between_progress in blast)+
  qed
qed

interpretation phase_end: ending_system phase_step "\<lambda>s. \<exists>pa. s = phase_start pa" phase_inv thread_step joined phase_rel
proof
  show "wf phase_rel" by (simp add: phase_rel_def wf_trancl)
qed (use phase_step.thread phase_progress thread_descent in blast)+

subsection \<open>Executable runs\<close>

text \<open>One move of a run: a worker goes on (an interruption is seen at once), throws, or works; the main thread goes on; a signal; a spurious wake-up.\<close>

datatype move =
    Go nat u64
  | Throw nat
  | Work nat live_ops live_ops bool
  | Main nat u64
  | Signal u32
  | Wake nat

definition worker_go :: "nat \<Rightarrow> u64 \<Rightarrow> phase_sys \<Rightarrow> phase_sys option" where
  "worker_go i elapsed s =
     (let intr = w_isInterruptionRequested (worker_at s i); cur = currentBenchID (ps_shared s); stop = set_pc i (interrupted_pc (worker_at s i)) s in
      case ps_pcs s ! i of
        WPrepare \<Rightarrow> Some (if intr then stop else set_pc i (WCount (Some 0)) (upd_worker i set_phaseFinished s))
      | WFinish a \<Rightarrow> Some (set_pc i (WCount a) (upd_worker i (finish_stats elapsed) s))
      | WCount a \<Rightarrow> Some (set_pc i (case a of None \<Rightarrow> WExit | Some b \<Rightarrow> WCheck b) (notify_all (upd_shared (incNumWorkersDone False i) s)))
      | WCheck b \<Rightarrow> Some (if intr then stop else set_pc i (if b = cur then WSleep b else WStart) s)
      | WStart \<Rightarrow> Some (set_pc i (if currentBenchPhase (ps_shared s) = BenchPhase_TERMINATE then WCount None else WRun cur) s)
      | WRun b \<Rightarrow> Some (if intr then stop else set_pc i (WFinish (Some b)) s)
      | WFail \<Rightarrow> Some (set_pc i WExit (notify_all (upd_shared incNumWorkersDoneWithError s)))
      | _ \<Rightarrow> None)"

definition main_go :: "nat \<Rightarrow> u64 \<Rightarrow> phase_sys \<Rightarrow> phase_sys option" where
  "main_go newID elapsed s =
     (case ps_mpc s of
        MPrepare \<Rightarrow> Some (check_workers 0 elapsed MIdle s)
      | MWait limit \<Rightarrow> Some (check_workers limit elapsed MOver s)
      | MOver \<Rightarrow> (case checkInterruptionBetweenPhases (ps_shared s) of
          Inr _ \<Rightarrow> Some (s\<lparr>ps_mpc := MIdle\<rparr>)
        | Inl ex \<Rightarrow> Some (interrupt_all (s\<lparr>ps_mpc := MJoin,
            ps_retVal := (case ex of ProgInterruptedException _ \<Rightarrow> 1 | ProgTimeLimitException _ \<Rightarrow> ps_retVal s)\<rparr>)))
      | MIdle \<Rightarrow>
          (if newID = currentBenchID (ps_shared s) then None
           else case ps_todo s of
             [] \<Rightarrow> Some (notify_all (upd_shared (startNextPhase BenchPhase_TERMINATE newID) (s\<lparr>ps_mpc := MJoin\<rparr>)))
           | (phase, limit) # todo \<Rightarrow> (case checkInterruptionBetweenPhases (ps_shared s) of
               Inr _ \<Rightarrow> Some (notify_all (upd_shared (startNextPhase phase newID) (s\<lparr>ps_mpc := MWait limit, ps_todo := todo\<rparr>)))
             | Inl ex \<Rightarrow> Some (interrupt_all (s\<lparr>ps_mpc := MJoin,
                 ps_retVal := (case ex of ProgInterruptedException _ \<Rightarrow> 1 | ProgTimeLimitException _ \<Rightarrow> ps_retVal s)\<rparr>))))
      | MJoin \<Rightarrow> None)"

fun do_move :: "move \<Rightarrow> phase_sys \<Rightarrow> phase_sys option" where
  "do_move (Go i elapsed) s = (if i < length (ps_pcs s) then worker_go i elapsed s else None)"
| "do_move (Throw i) s =
     (if i < length (ps_pcs s) \<and> (case ps_pcs s ! i of WPrepare \<Rightarrow> True | WStart \<Rightarrow> True | WRun _ \<Rightarrow> True | _ \<Rightarrow> False) then Some (set_pc i WFail s)
      else None)"
| "do_move (Work i ops opsReadMix gotWork) s =
     (if i < length (ps_pcs s) \<and> (case ps_pcs s ! i of WRun _ \<Rightarrow> True | _ \<Rightarrow> False) \<and> live_le (w_liveOps (worker_at s i)) ops \<and>
         live_le (w_liveOpsReadMix (worker_at s i)) opsReadMix
      then Some (upd_worker i (do_work ops opsReadMix gotWork) s) else None)"
| "do_move (Main newID elapsed) s = main_go newID elapsed s"
| "do_move (Signal now) s = (if ps_mpc s = MPrepare then None else Some (upd_shared (\<lambda>sd. snd (handleInterruptSignal now sd)) s))"
| "do_move (Wake i) s =
     (if i < length (ps_pcs s) then case ps_pcs s ! i of WSleep b \<Rightarrow> Some (set_pc i (WCheck b) s) | _ \<Rightarrow> None else None)"

fun do_moves :: "move list \<Rightarrow> phase_sys \<Rightarrow> phase_sys option" where
  "do_moves [] s = Some s"
| "do_moves (m # ms) s = Option.bind (do_move m s) (do_moves ms)"

lemma worker_go_step:
  assumes "worker_go i elapsed s = Some t"
  shows "worker_step i s t"
proof (cases "ps_pcs s ! i")
  case (WCheck b)
  then show ?thesis
    using assms worker_step.check [OF WCheck] worker_step.interrupted [of s i b]
    by (cases "w_isInterruptionRequested (worker_at s i)") (simp_all add: worker_go_def Let_def)
qed (use assms in \<open>auto simp: worker_go_def Let_def split: if_splits intro: worker_step.intros\<close>)

lemma main_go_step:
  assumes "main_go newID elapsed s = Some t"
  shows "manager_step s t"
  using assms by (auto simp: main_go_def split: manager_pc.splits sum.splits if_splits list.splits prod.splits intro: manager_step.intros)

lemma move_step:
  assumes "do_move m s = Some t"
  shows "phase_step s t"
proof (cases m)
  case (Wake i)
  then show ?thesis
    using assms by (auto split: worker_pc.splits if_splits intro: phase_step.spurious)
next
  case (Work i ops opsReadMix gotWork)
  then show ?thesis
    using assms by (auto split: worker_pc.splits if_splits intro: phase_step.work)
qed (use assms worker_go_step main_go_step in
  \<open>auto split: worker_pc.splits if_splits intro!: phase_step.thread intro: thread_step.intros worker_step.intros\<close>)

lemma moves_reach:
  assumes "do_moves ms s = Some t"
  shows "phase_step\<^sup>*\<^sup>* s t"
  using assms
proof (induction ms arbitrary: s)
  case (Cons m ms)
  then obtain u where "do_move m s = Some u" "do_moves ms u = Some t"
    by (auto simp: Option.bind_eq_Some_conv)
  then show ?case
    using Cons.IH move_step by (meson converse_rtranclp_into_rtranclp)
qed simp

subsection \<open>Properties\<close>

text \<open>Only the main thread starts a phase, and only when it is between phases.\<close>

lemma check_workers_ID [simp]: "currentBenchID (ps_shared (check_workers limit elapsed over s)) = currentBenchID (ps_shared s)"
  by (simp add: check_workers_eq check_limit_eq Let_def)

lemma thread_phase_idle:
  assumes "thread_step s t" and "currentBenchID (ps_shared t) \<noteq> currentBenchID (ps_shared s)"
  shows "ps_mpc s = MIdle"
  using assms(1)
proof cases
  case (worker i)
  show ?thesis
    using worker(2) assms(2) by cases (auto simp: upd_simps incNumWorkersDoneWithError_def)
next
  case manager
  show ?thesis
    using manager assms(2) by cases (auto simp: check_limit_eq split: if_splits)
qed (use assms(2) in \<open>auto simp: upd_simps handleInterruptSignal_def split: if_splits\<close>)

lemma new_phase_idle:
  assumes "phase_step s t" and "currentBenchID (ps_shared t) \<noteq> currentBenchID (ps_shared s)"
  shows "ps_mpc s = MIdle"
  using assms(1)
proof cases
  case thread
  then show ?thesis using thread_phase_idle assms(2) by blast
qed (use assms(2) in \<open>auto simp: upd_simps\<close>)

lemma idle_done:
  assumes "phase_inv s" and "ps_mpc s = MIdle"
  shows "all_done s"
    and "i < length (ps_pcs s) \<Longrightarrow> ps_pcs s ! i = WCheck (currentBenchID (ps_shared s)) \<or> ps_pcs s ! i = WSleep (currentBenchID (ps_shared s))"
    and "i < length (ps_pcs s) \<Longrightarrow> w_stoneWallTriggered (worker_at s i)"
    and "i < length (ps_pcs s) \<Longrightarrow> live_le (w_stoneWallOps (worker_at s i)) (w_liveOps (worker_at s i))"
proof -
  obtain q t where inv: "core_inv q s" "main_ok q s" "stone_inv t s"
    using assms(1) by (auto simp: phase_inv_def)
  show all: "all_done s"
    using inv(2) assms(2) by (simp add: main_ok_def)
  show "ps_pcs s ! i = WCheck (currentBenchID (ps_shared s)) \<or> ps_pcs s ! i = WSleep (currentBenchID (ps_shared s))" if "i < length (ps_pcs s)"
    using idle_waiting [OF inv(1,2) assms(2) that] by (auto simp: notify_def split: worker_pc.splits)
  show "w_stoneWallTriggered (worker_at s i)" if "i < length (ps_pcs s)"
    using inv(3) all that core_invD(1) [OF inv(1)] by (auto simp: stone_inv_def worker_at_def)
  show "live_le (w_stoneWallOps (worker_at s i)) (w_liveOps (worker_at s i))" if "i < length (ps_pcs s)"
    using inv(3) that core_invD(1) [OF inv(1)] by (auto simp: stone_inv_def worker_at_def)
qed

lemma running_current:
  assumes "phase_inv s" and "i < length (ps_pcs s)" and "ps_pcs s ! i = WRun b"
  shows "b = currentBenchID (ps_shared s)"
proof -
  obtain q where "core_inv q s"
    using assms(1) by (auto simp: phase_inv_def)
  from core_invD(5) [OF this assms(2)] assms(3) show ?thesis
    by (simp add: pc_ok_def)
qed

lemma reach_inv: "phase_step\<^sup>*\<^sup>* (phase_start pa) s \<Longrightarrow> phase_inv s"
  by (rule phase_run.reachable_inv) auto

text \<open>
  C4: The phases are separated by a barrier. A worker only ever works on the current phase, and when a new phase starts, every worker has
  finished the old one without an error, waits for the new one, and has its first-done results, which are no more than what it did.
\<close>

theorem phase_barrier:
  assumes "phase_step\<^sup>*\<^sup>* (phase_start pa) s"
  shows "(\<forall>i b. i < length (ps_pcs s) \<and> ps_pcs s ! i = WRun b \<longrightarrow> b = currentBenchID (ps_shared s)) \<and>
    (\<forall>t. phase_step s t \<and> currentBenchID (ps_shared t) \<noteq> currentBenchID (ps_shared s) \<longrightarrow>
       numWorkersDoneWithError (ps_shared s) = 0 \<and> unat (numWorkersDone (ps_shared s)) = length (ps_pcs s) \<and>
       (\<forall>i<length (ps_pcs s).
          (ps_pcs s ! i = WCheck (currentBenchID (ps_shared s)) \<or> ps_pcs s ! i = WSleep (currentBenchID (ps_shared s))) \<and>
          w_stoneWallTriggered (worker_at s i) \<and> live_le (w_stoneWallOps (worker_at s i)) (w_liveOps (worker_at s i))))"
proof -
  have inv: "phase_inv s" by (rule reach_inv [OF assms])
  show ?thesis
    using running_current [OF inv] new_phase_idle idle_done [OF inv] by blast
qed

text \<open>
  C5: Every run ends, and no wake-up is lost. Whatever the workers, the main thread and the user have done so far, with failures, interruptions and
  expired time limits: as long as not all threads have ended, some thread can go on, and it need not be a thread that wakes up without having been
  notified. And the threads do not go on forever: there is no endless sequence of steps of the workers, the main thread and signals in which each step
  changes something. The work inside of a phase is not among these steps; the claim is about runs in which each worker's work in a phase ends.
\<close>

theorem run_always_ends:
  assumes "phase_step\<^sup>*\<^sup>* (phase_start pa) s"
  shows "(joined s \<or> (\<exists>t. thread_step s t \<and> t \<noteq> s)) \<and>
    \<not> (\<exists>f. f 0 = s \<and> (\<forall>n. thread_step (f n) (f (Suc n)) \<and> f (Suc n) \<noteq> f n))"
  using phase_end.goes_on [OF _ assms] phase_end.no_endless_run [OF _ assms] by blast

text \<open>
  C6: When the program ends with the exit status 0, it has run all phases (there are none in a dry run), or the time limit of a phase has expired; no worker has failed.
\<close>

theorem exit_success_complete:
  assumes "phase_step\<^sup>*\<^sup>* (phase_start pa) s" and "joined s" and "exit_status s = 0"
  shows "(ps_todo s = [] \<or> isPhaseTimeExpired (ps_shared s)) \<and> unat (numWorkersDone (ps_shared s)) = length (ps_pcs s)"
proof -
  obtain q where inv: "core_inv q s" "main_ok q s"
    using reach_inv [OF assms(1)] by (auto simp: phase_inv_def)
  have err: "\<not> has_err (ps_shared s)" "ps_retVal s = 0"
    using assms(3) by (auto simp: exit_status_def split: if_splits)
  have "num_counted (currentBenchID (ps_shared s)) (ps_pcs s) = length (ps_pcs s)"
    using assms(2) by (auto simp: num_counted_all joined_def counted_def)
  then show ?thesis
    using core_invD(3) [OF inv(1)] inv(2) err assms(2) by (auto simp: main_ok_def joined_def)
qed

subsection \<open>Examples\<close>

text \<open>Two workers that run one reading phase.\<close>

definition phase_example_args :: prog_args where
  "phase_example_args = blank_args\<lparr>pa_numThreads := 2, pa_iterations := 1, pa_runReadPhase := True\<rparr>"

definition phase_example_moves :: "move list" where
  "phase_example_moves =
     [Go 0 0, Go 0 0, Go 1 0, Go 1 0, Go 0 0, Main 0 0, Main 7 0,
      Go 0 0, Go 0 0, Go 1 0, Go 1 0, Work 0 \<lparr>numEntriesDone = 1, numBytesDone = 4096, numIOPSDone = 2\<rparr> live_zero True, Go 0 0, Go 0 9, Go 0 0, Go 0 0,
      Main 0 1, Go 1 0, Go 1 9, Go 1 0, Main 0 2, Main 0 2]"

definition phase_example_end :: "move list" where
  "phase_example_end = [Main 8 0, Go 0 0, Go 0 0, Go 0 0, Go 1 0, Go 1 0, Go 1 0]"

lemma phase_example_start:
  "phase_start phase_example_args =
     \<lparr>ps_shared =
        \<lparr>currentBenchPhase = BenchPhase_IDLE, currentBenchID = 0, numWorkersDone = 0, numWorkersDoneWithError = 0, workerVec = [w_new 0, w_new 1],
         gotUserInterruptSignalT = 0, isPhaseTimeExpired = False\<rparr>,
      ps_pcs = [WPrepare, WPrepare], ps_mpc = MPrepare, ps_dryRun = False, ps_todo = [(BenchPhase_READFILES, 0)], ps_retVal = 0\<rparr>"
proof -
  have "runBenchmarks phase_example_args = [(BenchPhase_READFILES, 0)]" "pa_numThreads phase_example_args = 2" "pa_rankOffset phase_example_args = 0"
    "\<not> hasUserRequestedDryRun phase_example_args"
    by (simp_all add: phase_example_args_def blank_args_def hasUserRequestedDryRun_def runBenchmarks_def runSyncAndDropCaches_def enabledBenchPhasesVec_def
        allBenchPhasesArray_def getS3BucketMetadataRequested_def getS3ObjectMetadataRequested_def)
  moreover have "[0..<2] = [0, 1]" "replicate 2 WPrepare = [WPrepare, WPrepare]"
    by (simp_all add: numeral_2_eq_2)
  ultimately show ?thesis
    by (simp add: phase_start_def prepareThreads_def)
qed

lemma w_new_work [simp]: "w_workerGotPhaseWork (w_new r)" "w_liveOps (w_new r) = live_zero" "w_liveOpsReadMix (w_new r) = live_zero"
  by (simp_all add: w_new_def w_resetStats_def)

lemmas move_simps = worker_go_def main_go_def Let_def upd_simps notify_def set_phaseFinished_def finish_stats_def do_work_def interrupted_pc_def
  incNumWorkersDone_def incNumWorkersDoneUnlocked_def w_createStoneWallStats_def check_workers_eq check_limit_eq
  checkInterruptionBetweenPhases_def startNextPhase_def resetNumWorkersDoneUnlocked_def w_resetStats_def

lemma phase_example_run:
  "(case do_moves phase_example_moves (phase_start phase_example_args) of None \<Rightarrow> False
    | Some s \<Rightarrow>
        (case do_move (Main 8 0) s of None \<Rightarrow> False
         | Some t \<Rightarrow> currentBenchID (ps_shared s) = 7 \<and> currentBenchID (ps_shared t) = 8 \<and> length (ps_pcs s) = 2) \<and>
        (case do_moves phase_example_end s of None \<Rightarrow> False
         | Some u \<Rightarrow> joined u \<and> exit_status u = 0 \<and> length (ps_pcs u) = 2 \<and> \<not> isPhaseTimeExpired (ps_shared u)))"
  by (simp add: phase_example_moves_def phase_example_end_def phase_example_start move_simps joined_def exit_status_def)

lemma phase_example:
  obtains s t u where "phase_step\<^sup>*\<^sup>* (phase_start phase_example_args) s" "phase_step s t" "phase_step\<^sup>*\<^sup>* (phase_start phase_example_args) u"
    "currentBenchID (ps_shared s) = 7" "currentBenchID (ps_shared t) = 8" "length (ps_pcs s) = 2"
    "joined u" "exit_status u = 0" "length (ps_pcs u) = 2" "\<not> isPhaseTimeExpired (ps_shared u)"
proof -
  obtain s t u where s: "do_moves phase_example_moves (phase_start phase_example_args) = Some s" and t: "do_move (Main 8 0) s = Some t"
    and u: "do_moves phase_example_end s = Some u" and "currentBenchID (ps_shared s) = 7" "currentBenchID (ps_shared t) = 8" "length (ps_pcs s) = 2"
      "joined u" "exit_status u = 0" "length (ps_pcs u) = 2" "\<not> isPhaseTimeExpired (ps_shared u)"
    using phase_example_run by (auto split: option.splits)
  then show thesis
    using that moves_reach [OF s] move_step [OF t] rtranclp_trans [OF moves_reach [OF s] moves_reach [OF u]] by blast
qed

theorem phase_barrier_witness:
  "\<exists>s t. phase_step\<^sup>*\<^sup>* (phase_start phase_example_args) s \<and> phase_step s t \<and> currentBenchID (ps_shared t) \<noteq> currentBenchID (ps_shared s) \<and>
     numWorkersDone (ps_shared s) = 2 \<and> w_stoneWallTriggered (worker_at s 1)"
proof -
  obtain s t u where ex: "phase_step\<^sup>*\<^sup>* (phase_start phase_example_args) s" "phase_step s t" "currentBenchID (ps_shared t) \<noteq> currentBenchID (ps_shared s)"
    "length (ps_pcs s) = 2"
    by (rule phase_example) auto
  have "unat (numWorkersDone (ps_shared s)) = 2" "w_stoneWallTriggered (worker_at s 1)"
    using phase_barrier [OF ex(1)] ex(2-4) by auto
  then show ?thesis
    using ex(1-3) by (auto simp: unat_eq_iff_u64)
qed

theorem run_always_ends_witness:
  "(\<exists>t. thread_step (phase_start phase_example_args) t \<and> t \<noteq> phase_start phase_example_args) \<and>
   \<not> (\<exists>f. f 0 = phase_start phase_example_args \<and> (\<forall>n. thread_step (f n) (f (Suc n)) \<and> f (Suc n) \<noteq> f n))"
  using run_always_ends [OF rtranclp.rtrancl_refl [of phase_step "phase_start phase_example_args"]]
  by (simp add: phase_example_start joined_def)

theorem exit_success_complete_witness:
  "\<exists>s. phase_step\<^sup>*\<^sup>* (phase_start phase_example_args) s \<and> joined s \<and> exit_status s = 0 \<and> ps_todo s = [] \<and> unat (numWorkersDone (ps_shared s)) = 2"
proof -
  obtain u where ex: "phase_step\<^sup>*\<^sup>* (phase_start phase_example_args) u" "joined u" "exit_status u = 0" "length (ps_pcs u) = 2"
    "\<not> isPhaseTimeExpired (ps_shared u)"
    by (rule phase_example) auto
  show ?thesis
    using exit_success_complete [OF ex(1-3)] ex by auto
qed

end
