(* ===== verification/Spec2Isabelle.thy ===== *)
theory Spec2Isabelle
  imports OffsetGen LatencyHistogram TreeFile JournalSafety RateLimit FileVerify UploadStore PhaseRun
begin

text \<open>
  Verification of elbencho, a distributed benchmark for files, block devices and object stores. All paths below are
  relative to \<open>src/source\<close>.

  \<^bold>\<open>The program.\<close> The main thread (\<open>Coordinator.cpp\<close>) reads the options (\<open>ProgArgs\<close>), prepares workers (\<open>workers/WorkerManager.cpp\<close>) and takes them
  through the selected phases, one after the other. In a phase every worker (\<open>workers/LocalWorker.cpp\<close>) finds out its share
  of the data set, takes the offsets and lengths of its I/Os from an offset generator (\<open>toolkits/offsetgen\<close>), fills and checks its
  buffers (random algorithms in \<open>toolkits/random\<close>, the integrity check, the write journal), obeys the rate limits and counts what it did (live
  counters, latency histogram). The data set is a list of files or devices, or a custom tree (\<open>PathStore\<close>) that is loaded from a tree file.

  \<^bold>\<open>Conventions.\<close> A class or struct is a record, an enumeration a datatype, an unsigned integer a word of its width, so that additions and
  multiplications wrap around as in the source. A function that throws returns a sum whose left side is the exception; division by zero and
  accesses out of range are the exception \<open>Fault\<close>. Loops that might not end are partial functions into options, where \<open>None\<close> means that the loop does not return; the
  theorems about them state that they return. There is no fuel. Bounds such as the absence of overflow in the size of a
  file are hypotheses of the theorems that need them. Code that is not part of the sources is a parameter: the Mersenne Twister, the random device,
  the kernel (record of \<open>FileOps\<close>, with POSIX behaviour of reads and writes as named hypotheses), the answers of the S3 server, the clock.

  \<^bold>\<open>Basics.\<close>
  \<^item> \<open>Prelude\<close>: integers, exceptions, lemmas on words, and the interface \<open>step_system\<close> of a step relation with an invariant.
  \<^item> \<open>Decimal\<close>: \<open>std::to_string\<close>, \<open>std::stoull\<close> and character classes. \<open>UnitTk\<close> (\<open>toolkits/UnitTk.cpp\<close>): sizes with units, elapsed times. \<open>StringTk\<close>
    (\<open>toolkits/StringTk.cpp\<close>): all functions; generated S3 tag values verify. \<open>Base64\<close> (\<open>toolkits/Base64Encoder.cpp\<close>): decoding inverts encoding.
  \<^item> \<open>Config\<close>: enumerations of \<open>Common.h\<close>, all members of \<open>ProgArgs\<close> and their defaults.

  \<^bold>\<open>Random numbers and offsets.\<close>
  \<^item> \<open>RandAlgo\<close> (\<open>toolkits/random\<close>): the generators and their buffer filling, behind two interfaces that are interpreted on them: filling writes the whole
    buffer, as the stream of values or of interleaved lanes.
  \<^item> \<open>Lcg\<close>, \<open>FullCoverage\<close> (\<open>OffsetGenRandomAlignedFullCoverageV2.h\<close>): every run of the covering generator returns every number of its range once, and then it starts over.
  \<^item> \<open>BlockSizeMix\<close> (\<open>toolkits/BlockSizeMix.cpp\<close>): parsing, printing and the weighted draw.
  \<^item> \<open>OffsetGen\<close> (\<open>toolkits/offsetgen\<close>): the six generators as one record each and their union with a dispatch; the interface \<open>offset_generator\<close> gives that the loop which
    drains a generator ends and submits its bytes. Sequential and reverse generators submit each block once, in order; the covering generator submits each whole block of its
    range once in every run; random generators stay in a range that is not empty and not too short for them.

  \<^bold>\<open>Statistics.\<close>
  \<^item> \<open>LatencyHistogram\<close>: bucket bounds, exact up to one microsecond below 128 microseconds and up to one 64th above; counting and merging refine lists of latencies; the transfer from a service restores a histogram.
  \<^item> \<open>LiveStats\<close> (\<open>LiveOps.h\<close>, \<open>LiveLatency.h\<close>, \<open>workers/Worker.h\<close>): counters and statistics of a worker.

  \<^bold>\<open>Custom trees and uploads.\<close>
  \<^item> \<open>PathStore\<close>: loading, sorting and the three ways of sharing; every byte of every file belongs to one worker.
  \<^item> \<open>TreeFile\<close> (\<open>FileTk::scanCustomTree\<close>, \<open>S3Tk::scanCustomTree\<close>, the custom tree functions of \<open>ProgArgs\<close> and \<open>LocalWorker\<close>): a scanned tree loads back, and the
    shares of all workers partition it.
  \<^item> \<open>UploadStore\<close> (\<open>S3UploadStore.cpp\<close>): a shared multipart upload is completed once, however the calls interleave.

  \<^bold>\<open>I/O of a worker.\<close>
  \<^item> \<open>FileOps\<close>: the kernel and the functions of \<open>FileTk\<close> that call it. \<open>BlockIO\<close>: \<open>rwBlockSized\<close>, the block modifiers and checkers, the positional I/O functions
    and \<open>initPhaseFunctionPointers\<close>. \<open>FileMode\<close>: \<open>fileModeIterateFilesSeq\<close> and \<open>fileModeIterateFilesRand\<close>; strided
    workers submit all blocks but the remainder of the division by their number. The functions are those of a build without SPDK and CUDA.
  \<^item> \<open>BlockVerify\<close>, \<open>FileVerify\<close>: what is written with verification verifies when it is read, with any numbers of threads and block sizes; a
    reading phase fails exactly when a byte differs. The workers of a phase run one after the other in any order, on a kernel whose reads and writes of regular files are
    complete; short transfers, which the block loop itself has, are not part of these two theorems.
  \<^item> \<open>Journal\<close>, \<open>JournalWorkers\<close>, \<open>JournalSafety\<close> (\<open>toolkits/Journal.cpp\<close>, the journal functions of \<open>LocalWorker\<close>): cells, tiles, lock stripes and the workers that share
    them as a step relation with failures, short writes, late asynchronous writes and restarts: outside of the blocks that short and late writes spoiled, a journal claims no contents
    that the target does not have; nobody deadlocks.
  \<^item> \<open>RateLimit\<close> (\<open>toolkits/RateLimiter.h\<close>, \<open>toolkits/RateLimiterRWMixThreads.cpp\<close>): the limit per second, and the balance of readers and writers under any interleaving, with the resets of
    the shared counters.

  \<^bold>\<open>Phases.\<close>
  \<^item> \<open>Phases\<close> (\<open>Coordinator.cpp\<close>, \<open>workers/WorkerManager.cpp\<close>, \<open>workers/WorkersSharedData\<close>, \<open>workers/Worker.cpp\<close>, \<open>LocalWorker::run\<close>): shared data, main thread
    and workers as step relations in which a region under the mutex is one step; sleeping threads are woken by a notification or spuriously. The work of a
    phase is any growth of the counters, or a failure; what it does is the subject of the theories above. IDs of phases are fresh, as random UUIDs are taken to be. The waits of
    the main thread are timed, so it may check at any moment; the clock is free.
  \<^item> \<open>PhaseSafety\<close>: the invariant. \<open>PhaseRun\<close>: the barrier between phases, that every run ends and loses no wake-up, the meaning of the exit status, and executable runs for the examples.
    The interface \<open>ending_system\<close> extends \<open>step_system\<close> by steps that go on and go down in a well-founded order; both are interpreted on the model.

  \<^bold>\<open>Not modelled.\<close>
  \<^item> Code whose substance is a library that is not part of the sources: S3 client, HDFS, SPDK, CUDA and GPUDirect, libaio, both web servers and the HTTP client, so also
    the workers of other hosts, the service and the rotation of hosts, which consist of its requests.
  \<^item> Output: statistics tables, live screens, CSV and JSON files, operation logs, names of phases for people (\<open>TranslatorTk\<close>), and everything that is computed in floating
    point for it.
  \<^item> Option parsing by Boost, the checks of the options, and what a dry run prints. Calls of the kernel without logic of their own: sockets, NUMA, signals, terminals, processor load.
  \<^item> Directory mode apart from custom trees, and the asynchronous block loop: their iteration is interleaved with calls of the kernel and of libaio.
  \<^item> The creation of journal files and the matching of journals with targets (\<open>JournalStore\<close>), which read and map files.
  \<^item> The condition variables of the rate limiters, which only shorten a wait, and data races other than those that the step relations show.
\<close>

end
